(* ===== verification/Prelude.thy ===== *)
theory Prelude
  imports Main "HOL-Library.Word" "HOL-Library.Monad_Syntax" "HOL-Library.AList"
    "HOL-Library.Char_ord" "HOL-Library.List_Lexorder" "HOL-Library.Multiset"
begin

unbundle bit_operations_syntax

section \<open>The shared vocabulary of the Go model\<close>

text \<open>
  What every component of the exporter uses of the Go language and of its standard library:
  bytes, checked indexing and slicing (a run-time panic is the value \<open>None\<close>), decimal
  formatting, \<open>time.Time\<close> and \<open>time.Duration\<close>, and maps.

  A Go map is an association list with distinct keys. Its list order stands for the order in
  which one \<open>range\<close> over the map happens to visit it; Go leaves that order open, so the
  properties of the components are stated on look-ups, sums and sets, or for every order.
  The laws of the map operations are the locale \<open>go_map\<close>, interpreted below on the
  association lists.
\<close>

named_theorems go_map_simps \<open>look-ups and totals of Go maps after an update\<close>
named_theorems go_bytes_simps \<open>checked indexing and slicing of byte slices\<close>

type_synonym byte = "8 word"
type_synonym bytes = "byte list"
type_synonym time = int      \<comment> \<open>\<open>time.Time\<close>: nanoseconds since the Unix epoch\<close>
type_synonym duration = int  \<comment> \<open>\<open>time.Duration\<close>: nanoseconds\<close>
type_synonym ('k, 'v) gomap = "('k \<times> 'v) list"

subsection \<open>Bytes\<close>

definition byte_at :: "bytes \<Rightarrow> nat \<Rightarrow> byte option" where
  "byte_at bs i = (if i < length bs then Some (bs ! i) else None)"

definition slice :: "bytes \<Rightarrow> nat \<Rightarrow> nat \<Rightarrow> bytes option" where
  "slice bs lo hi =
     (if lo \<le> hi \<and> hi \<le> length bs then Some (take (hi - lo) (drop lo bs)) else None)"

definition slice_from :: "bytes \<Rightarrow> nat \<Rightarrow> bytes option" where
  "slice_from bs lo = slice bs lo (length bs)"

text \<open>\<open>int(hi)<<8 | int(lo)\<close> of two bytes.\<close>

definition be16 :: "byte \<Rightarrow> byte \<Rightarrow> nat" where
  "be16 hi lo = or (push_bit 8 (unat hi)) (unat lo)"

definition string_of_bytes :: "bytes \<Rightarrow> string" where
  "string_of_bytes bs = map (\<lambda>b. char_of (unat b)) bs"

definition bytes_of_string :: "string \<Rightarrow> bytes" where
  "bytes_of_string s = map (\<lambda>c. of_nat (of_char c)) s"

lemma unat_byte_less: "unat (b :: byte) < 256"
  using unsigned_less [of b, where ?'a = nat] by simp

lemma byte_at_Some [go_bytes_simps]: "i < length bs \<Longrightarrow> byte_at bs i = Some (bs ! i)"
  by (simp add: byte_at_def)

lemma slice_Some [go_bytes_simps]:
  "lo \<le> hi \<Longrightarrow> hi \<le> length bs \<Longrightarrow> slice bs lo hi = Some (take (hi - lo) (drop lo bs))"
  by (simp add: slice_def)

lemma slice_from_Some [go_bytes_simps]: "lo \<le> length bs \<Longrightarrow> slice_from bs lo = Some (drop lo bs)"
  by (simp add: slice_from_def slice_def)

lemma or_push_bit_nat:
  assumes "b < 2 ^ n"
  shows "or (push_bit n a) b = 2 ^ n * a + (b :: nat)"
proof -
  have b: "take_bit n b = b"
    using assms by (rule take_bit_nat_eq_self)
  have "and (push_bit n a) (take_bit n b) = 0"
    by (rule bit_eqI) (auto simp: bit_and_iff bit_push_bit_iff bit_take_bit_iff)
  then have "or (push_bit n a) (take_bit n b) = push_bit n a + take_bit n b"
    by (rule disjunctive_add_eq_or [symmetric])
  then show ?thesis
    unfolding b by (simp add: push_bit_eq_mult)
qed

lemma be16_eq [code]: "be16 hi lo = 256 * unat hi + unat lo"
  using or_push_bit_nat [of "unat lo" 8 "unat hi"] unat_byte_less [of lo] by (simp add: be16_def)

lemma be16_less: "be16 hi lo < 65536"
  using unat_byte_less [of hi] unat_byte_less [of lo] by (simp add: be16_eq)

lemma be16_inject: "be16 a b = be16 c d \<longleftrightarrow> a = c \<and> b = d"
proof
  assume "be16 a b = be16 c d"
  then have eq: "256 * unat a + unat b = 256 * unat c + unat d"
    by (simp add: be16_eq)
  have "unat a = unat c"
    using arg_cong [OF eq, of "\<lambda>x. x div 256"] by (simp add: unat_byte_less)
  moreover from this eq have "unat b = unat d" by simp
  ultimately have "unat a = unat c" "unat b = unat d" .
  then show "a = c \<and> b = d"
    by (simp add: word_unat_eq_iff)
qed simp

lemma length_string_of_bytes [simp]: "length (string_of_bytes bs) = length bs"
  by (simp add: string_of_bytes_def)

lemma string_of_bytes_inject [simp]: "string_of_bytes xs = string_of_bytes ys \<longleftrightarrow> xs = ys"
proof -
  have "inj (\<lambda>b :: byte. char_of (unat b))"
  proof (rule injI)
    fix a b :: byte
    assume "char_of (unat a) = char_of (unat b)"
    then have "unat a mod 256 = unat b mod 256"
      by (metis of_char_of)
    then show "a = b"
      by (simp add: unat_byte_less word_unat_eq_iff)
  qed
  then show ?thesis
    by (simp add: string_of_bytes_def inj_map_eq_map)
qed

subsection \<open>Decimal formatting: strconv.FormatInt and fmt's \<open>%d\<close>\<close>

definition digit_char :: "nat \<Rightarrow> char" where
  "digit_char d = char_of (48 + d)"

fun FormatUint :: "nat \<Rightarrow> string" where
  "FormatUint n = (if n < 10 then [digit_char n]
                   else FormatUint (n div 10) @ [digit_char (n mod 10)])"

declare FormatUint.simps [simp del]

definition FormatInt :: "int \<Rightarrow> string" where
  "FormatInt i = (if i < 0 then CHR ''-'' # FormatUint (nat (- i)) else FormatUint (nat i))"

definition is_digit :: "char \<Rightarrow> bool" where
  "is_digit c \<longleftrightarrow> 48 \<le> (of_char c :: nat) \<and> (of_char c :: nat) \<le> 57"

definition digit_val :: "char \<Rightarrow> nat" where
  "digit_val c = of_char c - 48"

text \<open>The value of a string of digits, for the inverse of the formatting.\<close>

definition dec_val :: "string \<Rightarrow> nat" where
  "dec_val s = foldl (\<lambda>a c. a * 10 + digit_val c) 0 s"

lemma of_char_digit [simp]: "d < 10 \<Longrightarrow> (of_char (digit_char d) :: nat) = 48 + d"
  by (simp add: digit_char_def)

lemma is_digit_digit_char [simp]: "d < 10 \<Longrightarrow> is_digit (digit_char d)"
  by (simp add: is_digit_def)

lemma digit_val_digit_char [simp]: "d < 10 \<Longrightarrow> digit_val (digit_char d) = d"
  by (simp add: digit_val_def)

lemma FormatUint_digits: "\<forall>c \<in> set (FormatUint n). is_digit c"
proof (induction n rule: FormatUint.induct)
  case (1 n)
  then show ?case by (subst FormatUint.simps) auto
qed

lemma FormatUint_ne [simp]: "FormatUint n \<noteq> []"
  by (subst FormatUint.simps) simp

lemma dec_val_FormatUint [simp]: "dec_val (FormatUint n) = n"
proof (induction n rule: FormatUint.induct)
  case (1 n)
  then show ?case
    by (subst FormatUint.simps) (simp add: dec_val_def)
qed

lemma FormatUint_inject [simp]: "FormatUint a = FormatUint b \<longleftrightarrow> a = b"
  by (metis dec_val_FormatUint)

lemma FormatUint_no_minus: "FormatUint n \<noteq> CHR ''-'' # s"
proof
  assume eq: "FormatUint n = CHR ''-'' # s"
  have "is_digit CHR ''-''"
    using FormatUint_digits [of n] unfolding eq by simp
  then show False by (simp add: is_digit_def)
qed

lemma FormatInt_inject [simp]: "FormatInt a = FormatInt b \<longleftrightarrow> a = b"
  by (auto simp: FormatInt_def FormatUint_no_minus FormatUint_no_minus [symmetric])

subsection \<open>Signed integers\<close>

text \<open>\<open>int\<close> and \<open>int64\<close> are integers; an operation whose result may leave their range is wrapped
  with \<open>int64\<close>. Go's division truncates toward zero.\<close>

definition int64 :: "int \<Rightarrow> int" where
  "int64 x = (x + 2 ^ 63) mod 2 ^ 64 - 2 ^ 63"

definition go_div :: "int \<Rightarrow> int \<Rightarrow> int" where
  "go_div a b = sgn a * sgn b * (\<bar>a\<bar> div \<bar>b\<bar>)"

lemma int64_id: "- (2 ^ 63) \<le> x \<Longrightarrow> x < 2 ^ 63 \<Longrightarrow> int64 x = x"
  by (simp add: int64_def)

lemma int64_bounds: "- (2 ^ 63) \<le> int64 x" "int64 x < 2 ^ 63"
  using pos_mod_bound [of "2 ^ 64" "x + 2 ^ 63"] by (simp_all add: int64_def)

lemma go_div_nonneg: "0 \<le> a \<Longrightarrow> 0 < b \<Longrightarrow> go_div a b = a div b"
  by (cases "a = 0") (simp_all add: go_div_def)

lemma go_div_nonpos: "a \<le> 0 \<Longrightarrow> 0 < b \<Longrightarrow> go_div a b \<le> 0"
  by (cases "a = 0") (simp_all add: go_div_def pos_imp_zdiv_nonneg_iff)

subsection \<open>time.Time and time.Duration\<close>

definition Nanosecond :: duration where "Nanosecond = 1"
definition Microsecond :: duration where "Microsecond = 1000"
definition Millisecond :: duration where "Millisecond = 1000000"
definition Second :: duration where "Second = 1000000000"

text \<open>\<open>t.Sub(u)\<close> saturates at the ends of int64; \<open>t.Add(d)\<close> and \<open>t.Before(u)\<close> are \<open>+\<close>
  and \<open><\<close>; \<open>t.UTC().Hour()\<close> is the hour of the day.\<close>

definition time_Sub :: "time \<Rightarrow> time \<Rightarrow> duration" where
  "time_Sub t u = max (- (2 ^ 63)) (min (2 ^ 63 - 1) (t - u))"

definition UTC_Hour :: "time \<Rightarrow> nat" where
  "UTC_Hour t = nat (t div (3600 * Second) mod 24)"

lemma UTC_Hour_less [simp]: "UTC_Hour t < 24"
  by (simp add: UTC_Hour_def)

lemma time_Sub_nonneg_iff: "0 \<le> time_Sub t u \<longleftrightarrow> u \<le> t"
  by (auto simp: time_Sub_def)

lemma time_Sub_exact: "\<bar>t - u\<bar> < 2 ^ 63 \<Longrightarrow> time_Sub t u = t - u"
  by (auto simp: time_Sub_def)

subsection \<open>Maps\<close>

locale go_map =
  fixes look :: "'m \<Rightarrow> 'k \<Rightarrow> 'v option"
    and put :: "'k \<Rightarrow> 'v \<Rightarrow> 'm \<Rightarrow> 'm"
    and del :: "'k \<Rightarrow> 'm \<Rightarrow> 'm"
    and len :: "'m \<Rightarrow> nat"
    and ok :: "'m \<Rightarrow> bool"
  assumes look_put: "look (put k v m) = (look m)(k \<mapsto> v)"
    and look_del: "look (del k m) = (look m)(k := None)"
    and ok_put: "ok m \<Longrightarrow> ok (put k v m)"
    and ok_del: "ok m \<Longrightarrow> ok (del k m)"
    and len_dom: "ok m \<Longrightarrow> finite (dom (look m)) \<and> len m = card (dom (look m))"
begin

lemma len_put:
  assumes "ok m"
  shows "len (put k v m) = (if look m k = None then Suc (len m) else len m)"
proof -
  have "len (put k v m) = card (insert k (dom (look m)))"
    using len_dom [OF ok_put [OF assms]] by (simp add: look_put)
  then show ?thesis
    using len_dom [OF assms] by (simp add: card_insert_if domIff)
qed

lemma len_del:
  assumes "ok m"
  shows "len (del k m) = (if look m k = None then len m else len m - 1)"
proof -
  have "len (del k m) = card (dom (look m) - {k})"
    using len_dom [OF ok_del [OF assms]] by (simp add: look_del)
  then show ?thesis
    using len_dom [OF assms] by (auto simp: card_Diff_singleton_if domIff)
qed

text \<open>An insertion guarded by \<open>exists || len(m) < cap\<close> keeps the table within \<open>cap\<close>.\<close>

lemma len_put_guarded:
  "ok m \<Longrightarrow> len m \<le> cap \<Longrightarrow> look m k \<noteq> None \<or> len m < cap \<Longrightarrow> len (put k v m) \<le> cap"
  by (auto simp: len_put)

lemma len_del_le: "ok m \<Longrightarrow> len (del k m) \<le> len m"
  by (simp add: len_del)

lemma put_then_take: "look (put k v m) k = Some v" "look (del k (put k v m)) k = None"
  by (simp_all add: look_put look_del)

end

definition map_ok :: "('k, 'v) gomap \<Rightarrow> bool" where
  "map_ok m \<longleftrightarrow> distinct (map fst m)"

interpretation gm: go_map map_of AList.update AList.delete length map_ok
proof
  fix k and v :: 'b and m :: "('a, 'b) gomap"
  show "map_of (AList.update k v m) = (map_of m)(k \<mapsto> v)"
    by (rule update_conv')
  show "map_of (AList.delete k m) = (map_of m)(k := None)"
    by (rule delete_conv')
  show "map_ok (AList.update k v m)" if "map_ok m"
    using that by (simp add: map_ok_def distinct_update)
  show "map_ok (AList.delete k m)" if "map_ok m"
    using that by (simp add: map_ok_def distinct_delete)
  show "finite (dom (map_of m)) \<and> length m = card (dom (map_of m))" if "map_ok m"
    using that by (simp add: map_ok_def finite_dom_map_of dom_map_of_conv_image_fst
        card_image distinct_map distinct_card)
qed

lemma map_ok_Nil [simp]: "map_ok []"
  by (simp add: map_ok_def)

text \<open>Reading a missing key of an integer map gives the zero value, and \<open>m[k] += n\<close> adds to it.
  \<open>addall src dst\<close> is the loop \<open>for k, v := range src { dst[k] += v }\<close>.\<close>

definition getz :: "('k, int) gomap \<Rightarrow> 'k \<Rightarrow> int" where
  "getz m k = (case map_of m k of None \<Rightarrow> 0 | Some v \<Rightarrow> v)"

definition bump :: "'k \<Rightarrow> int \<Rightarrow> ('k, int) gomap \<Rightarrow> ('k, int) gomap" where
  "bump k n m = AList.update k (getz m k + n) m"

definition addall :: "('k, int) gomap \<Rightarrow> ('k, int) gomap \<Rightarrow> ('k, int) gomap" where
  "addall src dst = foldl (\<lambda>d (k, v). bump k v d) dst src"

text \<open>\<open>for k, v := range m { if old(v) { delete(m, k) } }\<close>\<close>

definition sweep :: "('v \<Rightarrow> bool) \<Rightarrow> ('k, 'v) gomap \<Rightarrow> ('k, 'v) gomap" where
  "sweep old m = filter (\<lambda>(k, v). \<not> old v) m"

definition total :: "('k, int) gomap \<Rightarrow> int" where
  "total m = sum_list (map snd m)"

lemma getz_Nil [go_map_simps]: "getz [] k = 0"
  by (simp add: getz_def)

lemma getz_bump [go_map_simps]: "getz (bump k n m) k' = getz m k' + (if k' = k then n else 0)"
  by (simp add: getz_def bump_def gm.look_put)

lemma map_ok_bump [simp, intro]: "map_ok m \<Longrightarrow> map_ok (bump k n m)"
  by (simp add: bump_def gm.ok_put)

lemma total_Nil [go_map_simps]: "total [] = 0"
  by (simp add: total_def)

lemma total_update:
  "total (AList.update k v m) = total m - getz m k + v"
  by (induction m) (auto simp: total_def getz_def)

lemma total_bump [go_map_simps]: "total (bump k n m) = total m + n"
  by (simp add: bump_def total_update)

lemma getz_Cons: "getz ((k, v) # m) k' = (if k' = k then v else getz m k')"
  by (simp add: getz_def)

lemma getz_notin: "k \<notin> fst ` set m \<Longrightarrow> getz m k = 0"
  by (simp add: getz_def map_of_eq_None_iff [THEN iffD2])

lemma getz_addall [go_map_simps]:
  "map_ok src \<Longrightarrow> getz (addall src dst) k = getz dst k + getz src k"
proof (induction src arbitrary: dst)
  case (Cons kv src)
  obtain k' v where kv: "kv = (k', v)" by (cases kv)
  from Cons.prems kv have ok: "map_ok src" and notin: "k' \<notin> fst ` set src"
    by (auto simp: map_ok_def)
  have "getz (addall (kv # src) dst) k = getz (addall src (bump k' v dst)) k"
    by (simp add: addall_def kv)
  also have "\<dots> = getz (bump k' v dst) k + getz src k"
    using ok by (rule Cons.IH)
  finally show ?case
    using notin by (auto simp: kv getz_Cons getz_bump getz_notin)
qed (simp add: addall_def getz_Nil)

lemma map_ok_addall [simp, intro]: "map_ok dst \<Longrightarrow> map_ok (addall src dst)"
  by (induction src arbitrary: dst) (auto simp: addall_def)

lemma total_addall [go_map_simps]: "total (addall src dst) = total dst + total src"
  by (induction src arbitrary: dst) (auto simp: addall_def total_bump, auto simp: total_def)

lemma total_eq_sum: "map_ok m \<Longrightarrow> total m = (\<Sum>k \<in> fst ` set m. getz m k)"
proof (induction m)
  case (Cons kv m)
  obtain k v where kv: "kv = (k, v)" by (cases kv)
  from Cons.prems kv have ok: "map_ok m" and notin: "k \<notin> fst ` set m"
    by (auto simp: map_ok_def)
  have "(\<Sum>k' \<in> fst ` set m. getz ((k, v) # m) k') = (\<Sum>k' \<in> fst ` set m. getz m k')"
    using notin by (intro sum.cong) (auto simp: getz_Cons)
  then show ?case
    using Cons.IH [OF ok] notin by (simp add: kv getz_Cons) (simp add: total_def)
qed (simp add: total_def)

lemma map_ok_sweep [simp, intro]: "map_ok m \<Longrightarrow> map_ok (sweep old m)"
  by (auto simp: map_ok_def sweep_def distinct_map inj_on_def)

lemma length_sweep_le: "length (sweep old m) \<le> length m"
  by (simp add: sweep_def)

lemma map_of_sweep [go_map_simps]:
  "map_ok m \<Longrightarrow> map_of (sweep old m) k =
     (case map_of m k of None \<Rightarrow> None | Some v \<Rightarrow> if old v then None else Some v)"
proof (induction m)
  case (Cons kv m)
  obtain k' v where kv: "kv = (k', v)" by (cases kv)
  from Cons.prems kv have ok: "map_ok m" and notin: "map_of m k' = None"
    by (auto simp: map_ok_def map_of_eq_None_iff)
  show ?case
    using Cons.IH [OF ok] notin by (auto simp: kv sweep_def)
qed (simp add: sweep_def)

end
