(* ===== verification/GoNet.thy ===== *)
theory GoNet
  imports Prelude
begin

section \<open>IP addresses: net.IP, net.ParseIP and netip.ParseAddr\<close>

text \<open>
  The part of Go's \<open>net\<close> and \<open>net/netip\<close> that the exporter uses: the textual form of an
  address (\<open>IP.String\<close>), which is the key of every per-client table, and its parser. A
  \<open>net.IP\<close> is its byte slice; \<open>nil\<close> is the empty one. The main result is that the parser
  inverts the printer on every IPv4 and IPv6 address, so a client's string names exactly one
  address.
\<close>

type_synonym net_IP = bytes

subsection \<open>Printing\<close>

definition hex_char :: "nat \<Rightarrow> char" where
  "hex_char d = (if d < 10 then char_of (48 + d) else char_of (87 + d))"

definition To4 :: "net_IP \<Rightarrow> net_IP option" where
  "To4 ip =
     (if length ip = 4 then Some ip
      else if length ip = 16 \<and> take 10 ip = replicate 10 0 \<and> ip ! 10 = 255 \<and> ip ! 11 = 255
      then Some (drop 12 ip) else None)"

definition As16 :: "bytes \<Rightarrow> net_IP" where
  "As16 ip4 = replicate 10 0 @ [255, 255] @ ip4"

definition dotted :: "bytes \<Rightarrow> string" where
  "dotted p4 = FormatUint (unat (p4 ! 0)) @ ''.'' @ FormatUint (unat (p4 ! 1)) @ ''.'' @
     FormatUint (unat (p4 ! 2)) @ ''.'' @ FormatUint (unat (p4 ! 3))"

definition appendHex :: "nat \<Rightarrow> string" where
  "appendHex x =
     (if x \<ge> 4096 then [hex_char (x div 4096)] else []) @
     (if x \<ge> 256 then [hex_char (x div 256 mod 16)] else []) @
     (if x \<ge> 16 then [hex_char (x div 16 mod 16)] else []) @ [hex_char (x mod 16)]"

fun v6u16s :: "bytes \<Rightarrow> nat list" where
  "v6u16s (a # b # bs) = (256 * unat a + unat b) # v6u16s bs"
| "v6u16s _ = []"

text \<open>The longest run of at least two zero groups: \<open>(start, end)\<close>, or \<open>(255, 255)\<close>.\<close>

definition zero_step :: "nat list \<Rightarrow> nat \<times> nat \<Rightarrow> nat \<Rightarrow> nat \<times> nat" where
  "zero_step gs = (\<lambda>(zs, ze) i.
     let j = i + length (takeWhile (\<lambda>g. g = 0) (drop i gs)); l = j - i
     in if l \<ge> 2 \<and> l > ze - zs then (i, j) else (zs, ze))"

definition zero_run :: "nat list \<Rightarrow> nat \<times> nat" where
  "zero_run gs = foldl (zero_step gs) (255, 255) [0..<8]"

text \<open>The printing loop \<open>for i := 0; i < 8; i++\<close>; the first argument bounds its iterations.\<close>

fun print6 :: "nat \<Rightarrow> nat list \<Rightarrow> nat \<Rightarrow> nat \<Rightarrow> nat \<Rightarrow> string" where
  "print6 0 gs zs ze i = []"
| "print6 (Suc n) gs zs ze i =
     (if i \<ge> 8 then []
      else if i = zs
      then ''::'' @ (if ze \<ge> 8 then [] else appendHex (gs ! ze) @ print6 n gs zs ze (ze + 1))
      else (if i > 0 then '':'' else []) @ appendHex (gs ! i) @ print6 n gs zs ze (i + 1))"

definition string6 :: "bytes \<Rightarrow> string" where
  "string6 ip = (let gs = v6u16s ip; (zs, ze) = zero_run gs in print6 8 gs zs ze 0)"

definition hexString :: "bytes \<Rightarrow> string" where
  "hexString bs = concat (map (\<lambda>b. [hex_char (unat b div 16), hex_char (unat b mod 16)]) bs)"

definition IP_String :: "net_IP \<Rightarrow> string" where
  "IP_String ip =
     (if ip = [] then ''<nil>''
      else if length ip \<noteq> 4 \<and> length ip \<noteq> 16 then ''?'' @ hexString ip
      else case To4 ip of Some p4 \<Rightarrow> dotted p4 | None \<Rightarrow> string6 ip)"

subsection \<open>Parsing\<close>

datatype netip_Addr = Addr4 bytes | Addr6 bytes string  \<comment> \<open>an IPv6 address and its zone\<close>

text \<open>\<open>parseIPv4Fields\<close>: the octets read so far, the current value and its number of digits.\<close>

fun ipv4_fields :: "string \<Rightarrow> nat \<Rightarrow> nat \<Rightarrow> nat list \<Rightarrow> nat list option" where
  "ipv4_fields [] val digLen fs = (if length fs < 3 then None else Some (fs @ [val]))"
| "ipv4_fields (c # cs) val digLen fs =
     (if is_digit c then
        if digLen = 1 \<and> val = 0 then None
        else if val * 10 + digit_val c > 255 then None
        else ipv4_fields cs (val * 10 + digit_val c) (digLen + 1) fs
      else if c = CHR ''.'' then
        if digLen = 0 \<or> cs = [] \<or> length fs = 3 then None
        else ipv4_fields cs 0 0 (fs @ [val])
      else None)"

definition parseIPv4 :: "string \<Rightarrow> bytes option" where
  "parseIPv4 s = map_option (map of_nat) (ipv4_fields s 0 0 [])"

definition is_hex :: "char \<Rightarrow> bool" where
  "is_hex c \<longleftrightarrow> is_digit c \<or> 97 \<le> (of_char c :: nat) \<and> (of_char c :: nat) \<le> 102
     \<or> 65 \<le> (of_char c :: nat) \<and> (of_char c :: nat) \<le> 70"

definition hex_val :: "char \<Rightarrow> nat" where
  "hex_val c = (if is_digit c then of_char c - 48
                else if 97 \<le> (of_char c :: nat) then of_char c - 87 else of_char c - 55)"

definition hex_acc :: "string \<Rightarrow> nat" where
  "hex_acc s = foldl (\<lambda>a c. a * 16 + hex_val c) 0 s"

text \<open>
  The loop of \<open>parseIPv6\<close>, \<open>for i < 16\<close>: \<open>n\<close> is the number of 16-bit groups still missing
  (\<open>i = 16 - 2 * n\<close>), \<open>acc\<close> the bytes written so far and \<open>ell\<close> the position of \<open>::\<close>. A group
  has at most four hex digits, so the source's overflow test cannot fire after the length test.
\<close>

fun parse6_loop :: "nat \<Rightarrow> string \<Rightarrow> bytes \<Rightarrow> nat option \<Rightarrow> (string \<times> bytes \<times> nat option) option" where
  "parse6_loop 0 s acc ell = Some (s, acc, ell)"
| "parse6_loop (Suc n) s acc ell =
     (let ds = takeWhile is_hex s; rest = dropWhile is_hex s in
      if ds = [] \<or> length ds > 4 then None
      else if rest \<noteq> [] \<and> hd rest = CHR ''.'' then
        (if ell = None \<and> length acc \<noteq> 12 then None
         else if length acc + 4 > 16 then None
         else case parseIPv4 s of None \<Rightarrow> None | Some b4 \<Rightarrow> Some ([], acc @ b4, ell))
      else
        let acc' = acc @ [of_nat (hex_acc ds div 256), of_nat (hex_acc ds mod 256)] in
        case rest of
          [] \<Rightarrow> Some ([], acc', ell)
        | c # s' \<Rightarrow>
            if c \<noteq> CHR '':'' \<or> s' = [] then None
            else if hd s' = CHR '':'' then
              (if ell \<noteq> None then None
               else if tl s' = [] then Some ([], acc', Some (length acc'))
               else parse6_loop n (tl s') acc' (Some (length acc')))
            else parse6_loop n s' acc' ell)"

definition parse6_finish :: "string \<times> bytes \<times> nat option \<Rightarrow> bytes option" where
  "parse6_finish = (\<lambda>(s, acc, ell).
     if s \<noteq> [] then None
     else if length acc < 16 then
       (case ell of None \<Rightarrow> None
        | Some e \<Rightarrow> Some (take e acc @ replicate (16 - length acc) 0 @ drop e acc))
     else if ell \<noteq> None then None else Some acc)"

definition parseIPv6 :: "string \<Rightarrow> (bytes \<times> string) option" where
  "parseIPv6 inp =
     (let s = takeWhile (\<lambda>c. c \<noteq> CHR ''%'') inp;
          tail = dropWhile (\<lambda>c. c \<noteq> CHR ''%'') inp; zone = drop 1 tail
      in if tail \<noteq> [] \<and> zone = [] then None
         else if take 2 s = ''::'' then
           (if drop 2 s = [] then Some (replicate 16 0, zone)
            else do { st \<leftarrow> parse6_loop 8 (drop 2 s) [] (Some 0);
                      ip \<leftarrow> parse6_finish st; Some (ip, zone) })
         else do { st \<leftarrow> parse6_loop 8 s [] None;
                   ip \<leftarrow> parse6_finish st; Some (ip, zone) })"

definition ParseAddr :: "string \<Rightarrow> netip_Addr option" where
  "ParseAddr s =
     (case find (\<lambda>c. c = CHR ''.'' \<or> c = CHR '':'' \<or> c = CHR ''%'') s of
        None \<Rightarrow> None
      | Some c \<Rightarrow>
          if c = CHR ''.'' then map_option Addr4 (parseIPv4 s)
          else if c = CHR '':'' then map_option (\<lambda>(b, z). Addr6 b z) (parseIPv6 s)
          else None)"

definition ParseIP :: "string \<Rightarrow> net_IP" where
  "ParseIP s =
     (case ParseAddr s of
        Some (Addr4 b) \<Rightarrow> As16 b
      | Some (Addr6 b z) \<Rightarrow> if z \<noteq> [] then [] else b
      | None \<Rightarrow> [])"

subsection \<open>Hexadecimal groups\<close>

lemma of_char_hex_char: "d < 16 \<Longrightarrow> (of_char (hex_char d) :: nat) = (if d < 10 then 48 + d else 87 + d)"
  by (simp add: hex_char_def)

lemma is_hex_hex_char [simp]: "d < 16 \<Longrightarrow> is_hex (hex_char d)"
  by (auto simp: is_hex_def is_digit_def of_char_hex_char)

lemma hex_val_hex_char [simp]: "d < 16 \<Longrightarrow> hex_val (hex_char d) = d"
  by (auto simp: hex_val_def is_digit_def of_char_hex_char)

lemma is_hex_colon [simp]: "\<not> is_hex CHR '':''" "\<not> is_hex CHR ''.''" "\<not> is_hex CHR ''%''"
  by (simp_all add: is_hex_def is_digit_def)

lemma appendHex_is_hex: "g < 65536 \<Longrightarrow> c \<in> set (appendHex g) \<Longrightarrow> is_hex c"
  by (auto simp: appendHex_def less_mult_imp_div_less split: if_splits)

lemma appendHex_length: "1 \<le> length (appendHex g)" "length (appendHex g) \<le> 4"
  by (auto simp: appendHex_def)

lemma appendHex_ne [simp]: "appendHex g \<noteq> []"
  using appendHex_length(1) [of g] by auto

lemma hex_acc_appendHex:
  assumes "g < 65536"
  shows "hex_acc (appendHex g) = g"
proof -
  have d: "g div 256 = g div 16 div 16" "g div 4096 = g div 16 div 16 div 16"
    by (simp_all flip: div_mult2_eq)
  have r: "g div 16 * 16 + g mod 16 = g" "g div 16 div 16 * 16 + g div 16 mod 16 = g div 16"
    "g div 16 div 16 div 16 * 16 + g div 16 div 16 mod 16 = g div 16 div 16"
    by simp_all
  have l: "g div 16 div 16 div 16 < 16"
    using assms by (simp flip: div_mult2_eq)
  consider "g < 16" | "16 \<le> g" "g < 256" | "256 \<le> g" "g < 4096" | "4096 \<le> g" by linarith
  then show ?thesis
  proof cases
    case 3
    then have "g div 16 div 16 mod 16 = g div 16 div 16"
      by (simp flip: div_mult2_eq)
    with 3 r show ?thesis
      unfolding appendHex_def hex_acc_def d by simp
  next
    case 4
    with r l show ?thesis
      unfolding appendHex_def hex_acc_def d by simp
  qed (simp_all add: appendHex_def hex_acc_def)
qed

lemma hd_appendHex: "g < 65536 \<Longrightarrow> is_hex (hd (appendHex g @ s))"
  using appendHex_is_hex [of g "hd (appendHex g)"] by simp

lemma span_appendHex:
  assumes "g < 65536" and "s = [] \<or> \<not> is_hex (hd s)"
  shows "takeWhile is_hex (appendHex g @ s) = appendHex g"
    and "dropWhile is_hex (appendHex g @ s) = s"
  using assms appendHex_is_hex [OF assms(1)]
  by (cases s; auto simp: takeWhile_append dropWhile_append takeWhile_eq_all_conv)+

definition group_bytes :: "nat \<Rightarrow> bytes" where
  "group_bytes g = [of_nat (g div 256), of_nat (g mod 256)]"

lemma length_group_bytes [simp]: "length (group_bytes g) = 2"
  by (simp add: group_bytes_def)

lemma group_bytes_be16: "group_bytes (256 * unat a + unat b) = [a, b]"
  using unat_byte_less [of b] by (simp add: group_bytes_def)

lemma parse6_group_end:
  assumes "g < 65536"
  shows "parse6_loop (Suc n) (appendHex g) acc ell = Some ([], acc @ group_bytes g, ell)"
proof -
  have "takeWhile is_hex (appendHex g) = appendHex g" "dropWhile is_hex (appendHex g) = []"
    using span_appendHex [OF assms, of "[]"] by (simp_all only: append_Nil2 simp_thms)
  note span = this
  show ?thesis
    using assms appendHex_length [of g]
    by (simp add: span hex_acc_appendHex group_bytes_def Let_def)
qed

lemma parse6_group_colon:
  "g < 65536 \<Longrightarrow> s \<noteq> [] \<Longrightarrow> hd s \<noteq> CHR '':'' \<Longrightarrow>
   parse6_loop (Suc n) (appendHex g @ CHR '':'' # s) acc ell =
   parse6_loop n s (acc @ group_bytes g) ell"
  using span_appendHex [of g "CHR '':'' # s"] appendHex_length [of g]
  by (simp add: hex_acc_appendHex group_bytes_def Let_def)

lemma parse6_group_ellipsis:
  "g < 65536 \<Longrightarrow>
   parse6_loop (Suc n) (appendHex g @ CHR '':'' # CHR '':'' # s) acc None =
   (if s = [] then Some ([], acc @ group_bytes g, Some (length acc + 2))
    else parse6_loop n s (acc @ group_bytes g) (Some (length acc + 2)))"
  using span_appendHex [of g "CHR '':'' # CHR '':'' # s"] appendHex_length [of g]
  by (simp add: hex_acc_appendHex group_bytes_def Let_def)

declare parse6_loop.simps(2) [simp del]

lemma loop_numerals:
  "print6 (numeral v) gs zs ze i = print6 (Suc (pred_numeral v)) gs zs ze i"
  "parse6_loop (numeral v) s acc ell = parse6_loop (Suc (pred_numeral v)) s acc ell"
  by (simp_all only: numeral_eq_Suc)

lemmas parse6_groups = parse6_group_end parse6_group_colon parse6_group_ellipsis

lemma hd_appendHex_ne: "g < 65536 \<Longrightarrow> hd (appendHex g @ s) \<noteq> CHR '':''" "g < 65536 \<Longrightarrow> hd (appendHex g) \<noteq> CHR '':''"
  using hd_appendHex [of g s] hd_appendHex [of g "[]"] by (auto simp del: hd_append2)

definition run_ok :: "nat list \<Rightarrow> nat \<times> nat \<Rightarrow> bool" where
  "run_ok gs = (\<lambda>(zs, ze). (zs = 255 \<and> ze = 255) \<or>
     (zs + 2 \<le> ze \<and> ze \<le> 8 \<and> (\<forall>i. zs \<le> i \<and> i < ze \<longrightarrow> gs ! i = 0)))"

lemma zero_step_ok:
  assumes "length gs = 8" "i < 8" "run_ok gs z"
  shows "run_ok gs (zero_step gs z i)"
proof -
  let ?l = "length (takeWhile (\<lambda>g. g = 0) (drop i gs))"
  have "gs ! k = 0" if "i \<le> k" "k < i + ?l" for k
  proof -
    have "k - i < ?l" using that by simp
    then have "takeWhile (\<lambda>g. g = 0) (drop i gs) ! (k - i) = drop i gs ! (k - i)"
      by (rule takeWhile_nth)
    moreover have "takeWhile (\<lambda>g. g = 0) (drop i gs) ! (k - i) = 0"
      using nth_mem [OF \<open>k - i < ?l\<close>] by (auto dest: set_takeWhileD)
    ultimately show ?thesis using that assms by simp
  qed
  moreover have "i + ?l \<le> 8"
    using length_takeWhile_le [of "\<lambda>g. g = 0" "drop i gs"] assms by simp
  ultimately show ?thesis
    using assms(3) by (auto simp: zero_step_def run_ok_def Let_def split: prod.splits)
qed

lemma zero_run_ok:
  assumes "length gs = 8" shows "run_ok gs (zero_run gs)"
proof -
  have "run_ok gs (foldl (zero_step gs) z is)" if "run_ok gs z" "set is \<subseteq> {..<8}" for z "is"
    using that by (induction "is" arbitrary: z) (auto simp: zero_step_ok [OF assms])
  from this [of "(255, 255)" "[0..<8]"] show ?thesis
    by (simp add: zero_run_def run_ok_def atLeast0LessThan)
qed

lemma print6_chars:
  "length gs = 8 \<Longrightarrow> \<forall>g \<in> set gs. g < 65536 \<Longrightarrow> c \<in> set (print6 n gs zs ze i) \<Longrightarrow> is_hex c \<or> c = CHR '':''"
proof (induction n arbitrary: i)
  case (Suc n)
  then have "is_hex c" if "c \<in> set (appendHex (gs ! j))" "j < 8" for j
    using that appendHex_is_hex by (metis nth_mem)
  with Suc show ?case by (auto split: if_splits)
qed simp


lemma parseIPv6_no_zone:
  assumes "CHR ''%'' \<notin> set s"
  shows "parseIPv6 s = (if take 2 s = ''::'' then
           (if drop 2 s = [] then Some (replicate 16 0, [])
            else do { st \<leftarrow> parse6_loop 8 (drop 2 s) [] (Some 0);
                      ip \<leftarrow> parse6_finish st; Some (ip, []) })
         else do { st \<leftarrow> parse6_loop 8 s [] None;
                   ip \<leftarrow> parse6_finish st; Some (ip, []) })"
proof -
  have "takeWhile (\<lambda>c. c \<noteq> CHR ''%'') s = s" "dropWhile (\<lambda>c. c \<noteq> CHR ''%'') s = []"
    using assms by auto
  note span = this
  show ?thesis by (simp add: parseIPv6_def Let_def span)
qed

text \<open>Groups separated by colons; \<open>print6\<close> prints two such lists around \<open>::\<close>.\<close>

fun join :: "nat list \<Rightarrow> string" where
  "join [] = []"
| "join [g] = appendHex g"
| "join (g # gs) = appendHex g @ CHR '':'' # join gs"

lemma join_Cons: "gs \<noteq> [] \<Longrightarrow> join (g # gs) = appendHex g @ CHR '':'' # join gs"
  by (cases gs) simp_all

lemma join_ne [simp]: "join gs = [] \<longleftrightarrow> gs = []"
  by (cases gs rule: join.cases) simp_all

lemma hd_join: "gs \<noteq> [] \<Longrightarrow> hd gs < 65536 \<Longrightarrow> hd (join gs @ s) \<noteq> CHR '':''"
  using hd_appendHex [of "hd gs"] by (cases gs rule: join.cases) force+

lemma parse6_join:
  "gs \<noteq> [] \<Longrightarrow> \<forall>g \<in> set gs. g < 65536 \<Longrightarrow> length gs \<le> n \<Longrightarrow>
   parse6_loop n (join gs) acc ell = Some ([], acc @ concat (map group_bytes gs), ell)"
proof (induction gs arbitrary: n acc)
  case (Cons g gs)
  then obtain n' where n: "n = Suc n'" by (cases n) auto
  show ?case
  proof (cases "gs = []")
    case False
    then have "parse6_loop n (join (g # gs)) acc ell = parse6_loop n' (join gs) (acc @ group_bytes g) ell"
      using Cons.prems hd_join [of gs "[]"] by (simp add: n join_Cons parse6_group_colon)
    with False Cons n show ?thesis by simp
  qed (use Cons in \<open>simp add: n parse6_group_end\<close>)
qed simp

lemma parse6_join_ellipsis:
  "xs \<noteq> [] \<Longrightarrow> \<forall>g \<in> set (xs @ ys). g < 65536 \<Longrightarrow> length xs + length ys \<le> n \<Longrightarrow>
   parse6_loop n (join xs @ ''::'' @ join ys) acc None =
     Some ([], acc @ concat (map group_bytes (xs @ ys)), Some (length acc + 2 * length xs))"
proof (induction xs arbitrary: n acc)
  case (Cons g xs)
  then obtain n' where n: "n = Suc n'" by (cases n) auto
  show ?case
  proof (cases "xs = []")
    case True
    with Cons.prems show ?thesis
      by (cases "ys = []") (simp_all add: n parse6_group_ellipsis parse6_join)
  next
    case False
    then have "parse6_loop n (join (g # xs) @ ''::'' @ join ys) acc None =
        parse6_loop n' (join xs @ ''::'' @ join ys) (acc @ group_bytes g) None"
      using Cons.prems hd_join [of xs "''::'' @ join ys"]
      by (simp add: n join_Cons parse6_group_colon)
    with False Cons.prems Cons.IH [of n' "acc @ group_bytes g"] n show ?thesis by simp
  qed
qed simp

lemma print6_end [simp]: "print6 n gs zs ze 8 = []"
  by (cases n) simp_all

lemma print6_after:
  "length gs = 8 \<Longrightarrow> zs < i \<or> 8 \<le> zs \<Longrightarrow> 0 < i \<Longrightarrow> i < 8 \<Longrightarrow> 8 - i \<le> n \<Longrightarrow>
   print6 n gs zs ze i = CHR '':'' # join (drop i gs)"
proof (induction n arbitrary: i)
  case (Suc n)
  have "drop i gs = gs ! i # drop (Suc i) gs"
    using Suc.prems by (simp add: Cons_nth_drop_Suc)
  with Suc.prems Suc.IH [of "Suc i"] show ?case
    by (cases "i = 7") (auto simp: join_Cons loop_numerals not_le)
qed simp

lemma print6_before:
  "length gs = 8 \<Longrightarrow> i \<le> zs \<Longrightarrow> zs + 2 \<le> ze \<Longrightarrow> ze \<le> 8 \<Longrightarrow> 8 - i \<le> n \<Longrightarrow>
   print6 n gs zs ze i = (if 0 < i \<and> i < zs then '':'' else []) @
     join (take (zs - i) (drop i gs)) @ ''::'' @ join (drop ze gs)"
proof (induction n arbitrary: i)
  case (Suc n)
  show ?case
  proof (cases "i = zs")
    case True
    have "drop ze gs = gs ! ze # drop (Suc ze) gs" if "ze < 8"
      using that Suc.prems by (simp add: Cons_nth_drop_Suc)
    moreover have "print6 n gs zs ze (Suc ze) = (if ze = 7 then [] else CHR '':'' # join (drop (Suc ze) gs))" if "ze < 8"
      using that Suc.prems True print6_after [of gs zs "Suc ze" n ze] by (cases n) auto
    ultimately show ?thesis
      using Suc.prems True by (auto simp: join_Cons not_le)
  next
    case False
    have "take (zs - i) (drop i gs) = gs ! i # take (zs - Suc i) (drop (Suc i) gs)"
      using Suc.prems False by (simp add: Cons_nth_drop_Suc [symmetric] take_Cons' Suc_diff_Suc)
    then show ?thesis
      using Suc.prems False Suc.IH [of "Suc i"]
      by (cases "Suc i = zs") (auto simp: join_Cons)
  qed
qed simp

lemma string6_shape:
  assumes len: "length gs = 8" and run: "run_ok gs (zs, ze)"
  shows "print6 8 gs zs ze 0 = (if zs = 255 then join gs else join (take zs gs) @ ''::'' @ join (drop ze gs))"
proof (cases "zs = 255")
  case True
  have "gs = gs ! 0 # drop 1 gs" "drop 1 gs \<noteq> []"
    using len by (cases gs; auto)+
  then have "join gs = appendHex (gs ! 0) @ CHR '':'' # join (drop 1 gs)"
    by (metis join_Cons)
  with True len print6_after [of gs 255 1 7 ze] print6.simps(2) [of 7 gs 255 ze 0] show ?thesis
    by simp
next
  case False
  with run have "zs + 2 \<le> ze" "ze \<le> 8" by (auto simp: run_ok_def)
  with False len print6_before [of gs 0 zs ze 8] show ?thesis by simp
qed

lemma length_concat_groups: "length (concat (map group_bytes xs)) = 2 * length xs"
  by (induction xs) simp_all

lemma zero_group_bytes: "concat (map group_bytes (replicate k 0)) = replicate (2 * k) 0"
  by (induction k) (simp_all add: group_bytes_def)

lemma no_ellipsis: "xs \<noteq> [] \<Longrightarrow> \<forall>g \<in> set xs. g < 65536 \<Longrightarrow> take 2 (join xs @ s) \<noteq> ''::''"
  using hd_join [of xs s] by (cases "join xs @ s") auto

text \<open>The three shapes of a printed address: no run of zeros, a leading one, one further on.\<close>

lemma string6_no_zone:
  "length gs = 8 \<Longrightarrow> \<forall>g \<in> set gs. g < 65536 \<Longrightarrow> CHR ''%'' \<notin> set (print6 8 gs zs ze 0)"
  by (auto dest!: print6_chars)

lemma parseIPv6_leading_run:
  assumes len: "length gs = 8" and small: "\<forall>g \<in> set gs. g < 65536" and run: "run_ok gs (zs, ze)"
    and z: "zs = 0" "2 \<le> ze" "ze \<le> 8" "take ze gs = replicate ze 0"
  shows "parseIPv6 (print6 8 gs zs ze 0) = Some (concat (map group_bytes gs), [])"
proof -
  note body = parseIPv6_no_zone [OF string6_no_zone [OF len small]]
  have "concat (map group_bytes gs) = concat (map group_bytes (take ze gs)) @ concat (map group_bytes (drop ze gs))"
    by (metis append_take_drop_id concat_append map_append)
  then have bytes: "concat (map group_bytes gs) = replicate (2 * ze) 0 @ concat (map group_bytes (drop ze gs))"
    unfolding z(4) zero_group_bytes .
  show ?thesis
  proof (cases "ze = 8")
    case False
    have "\<forall>g \<in> set (drop ze gs). g < 65536" using small by (auto dest: in_set_dropD)
    then have "parse6_loop 8 (join (drop ze gs)) [] (Some 0) = Some ([], concat (map group_bytes (drop ze gs)), Some 0)"
      using z False len parse6_join [of "drop ze gs" 8 "[]" "Some 0"] by simp
    moreover have "16 - 2 * (8 - ze) = 2 * ze" "2 * (8 - ze) < 16" using z by arith+
    ultimately show ?thesis
      unfolding body unfolding string6_shape [OF len run] bytes
      using False z len by (simp add: parse6_finish_def length_concat_groups)
  next
    case True
    with z len show ?thesis unfolding body unfolding string6_shape [OF len run] bytes by simp
  qed
qed

lemma parseIPv6_inner_run:
  assumes len: "length gs = 8" and small: "\<forall>g \<in> set gs. g < 65536" and run: "run_ok gs (zs, ze)"
    and z: "0 < zs" "zs + 2 \<le> ze" "ze \<le> 8" "take (ze - zs) (drop zs gs) = replicate (ze - zs) 0"
  shows "parseIPv6 (print6 8 gs zs ze 0) = Some (concat (map group_bytes gs), [])"
proof -
  note body = parseIPv6_no_zone [OF string6_no_zone [OF len small]]
  have small': "\<forall>g \<in> set (drop k gs). g < 65536" "\<forall>g \<in> set (take k gs). g < 65536" for k
    using small by (auto dest: in_set_dropD in_set_takeD)
  have "gs = take zs gs @ replicate (ze - zs) 0 @ drop ze gs"
    using z by (metis append_take_drop_id drop_drop le_add_diff_inverse2 le_add1 le_trans)
  then have bytes: "concat (map group_bytes gs) = concat (map group_bytes (take zs gs)) @
      replicate (2 * (ze - zs)) 0 @ concat (map group_bytes (drop ze gs))"
    by (metis concat_append map_append zero_group_bytes)
  have ne: "take zs gs \<noteq> []" using z len by auto
  have "parse6_loop 8 (join (take zs gs) @ ''::'' @ join (drop ze gs)) [] None =
      Some ([], concat (map group_bytes (take zs gs @ drop ze gs)), Some (2 * zs))"
    using z len small' parse6_join_ellipsis [OF ne, of "drop ze gs" 8 "[]"] by (simp add: ball_Un)
  moreover have "16 - (2 * zs + 2 * (8 - ze)) = 2 * (ze - zs)" "2 * zs + 2 * (8 - ze) < 16" using z by arith+
  ultimately show ?thesis
    unfolding body unfolding string6_shape [OF len run] bytes
    using z len no_ellipsis [OF ne small'(2)] by (simp add: parse6_finish_def length_concat_groups)
qed

lemma parseIPv6_string6:
  assumes len: "length gs = 8" and small: "\<forall>g \<in> set gs. g < 65536" and run: "run_ok gs (zs, ze)"
  shows "parseIPv6 (print6 8 gs zs ze 0) = Some (concat (map group_bytes gs), [])"
proof -
  have zeros: "take (ze - zs) (drop zs gs) = replicate (ze - zs) 0" if "zs \<noteq> 255"
    using that run len by (intro nth_equalityI) (auto simp: run_ok_def)
  consider "zs = 255" | "zs = 0" "2 \<le> ze" "ze \<le> 8" "take ze gs = replicate ze 0"
    | "0 < zs" "zs + 2 \<le> ze" "ze \<le> 8" "take (ze - zs) (drop zs gs) = replicate (ze - zs) 0"
    using run zeros by (cases "zs = 0") (auto simp: run_ok_def)
  then show ?thesis
  proof cases
    case 1
    have ne: "gs \<noteq> []" using len by auto
    have "take 2 (join gs) \<noteq> ''::''" using no_ellipsis [OF ne small, of "[]"] by simp
    with 1 show ?thesis
      unfolding parseIPv6_no_zone [OF string6_no_zone [OF len small]] unfolding string6_shape [OF len run]
      using len by (simp add: parse6_join [OF ne small] parse6_finish_def length_concat_groups)
  qed (rule parseIPv6_leading_run [OF assms] parseIPv6_inner_run [OF assms]; assumption)+
qed

subsection \<open>Dotted decimal\<close>

lemma FormatUint_octet:
  "n < 10 \<Longrightarrow> FormatUint n = [digit_char n]"
  "10 \<le> n \<Longrightarrow> n < 100 \<Longrightarrow> FormatUint n = [digit_char (n div 10), digit_char (n mod 10)]"
  "100 \<le> n \<Longrightarrow> n < 1000 \<Longrightarrow>
     FormatUint n = [digit_char (n div 100), digit_char (n div 10 mod 10), digit_char (n mod 10)]"
proof -
  show 1: "n < 10 \<Longrightarrow> FormatUint n = [digit_char n]" for n
    by (simp add: FormatUint.simps)
  show 2: "10 \<le> n \<Longrightarrow> n < 100 \<Longrightarrow> FormatUint n = [digit_char (n div 10), digit_char (n mod 10)]" for n
    by (simp add: FormatUint.simps [of n] 1)
  show "100 \<le> n \<Longrightarrow> n < 1000 \<Longrightarrow>
     FormatUint n = [digit_char (n div 100), digit_char (n div 10 mod 10), digit_char (n mod 10)]"
    by (simp add: FormatUint.simps [of n] 2 flip: div_mult2_eq)
qed

lemma is_digit_dot [simp]: "\<not> is_digit CHR ''.''"
  by (simp add: is_digit_def)

lemma ipv4_fields_octet:
  assumes "n < 256"
  shows "\<exists>k > 0. ipv4_fields (FormatUint n @ s) 0 0 fs = ipv4_fields s n k fs"
proof -
  consider "n < 10" | "10 \<le> n" "n < 100" | "100 \<le> n" by linarith
  then show ?thesis
  proof cases
    case 1 then show ?thesis by (intro exI [of _ "Suc 0"]) (simp add: FormatUint_octet)
  next
    case 2
    then have "0 < n div 10" "n div 10 < 10" by simp_all
    with 2 assms show ?thesis
      by (intro exI [of _ "Suc (Suc 0)"]) (simp add: FormatUint_octet)
  next
    case 3
    then have "0 < n div 100" "n div 100 < 10" using assms by (simp_all add: div_greater_zero_iff)
    moreover have "n div 100 * 10 + n div 10 mod 10 = n div 10"
      using div_mult2_eq [of n 10 10] by simp
    moreover have "n div 10 \<le> 255" using assms by simp
    ultimately show ?thesis
      using 3 assms by (intro exI [of _ "Suc (Suc (Suc 0))"]) (simp add: FormatUint_octet)
  qed
qed

lemma parseIPv4_dotted:
  assumes "length p4 = 4"
  shows "parseIPv4 (dotted p4) = Some p4"
proof -
  obtain a b c d where p4: "p4 = [a, b, c, d]"
    using assms by (auto simp: eval_nat_numeral length_Suc_conv)
  have step: "ipv4_fields (FormatUint (unat o') @ CHR ''.'' # s) 0 0 fs = ipv4_fields s 0 0 (fs @ [unat o'])"
    if "s \<noteq> []" "length fs < 3" for o' :: byte and s fs
    using ipv4_fields_octet [OF unat_byte_less [of o'], of "CHR ''.'' # s" fs] that by auto
  have last: "ipv4_fields (FormatUint (unat o')) 0 0 fs = Some (fs @ [unat o'])"
    if "length fs = 3" for o' :: byte and fs
    using ipv4_fields_octet [OF unat_byte_less [of o'], of "[]" fs] that by auto
  show ?thesis
    by (simp add: p4 dotted_def parseIPv4_def step last)
qed

lemma find_first:
  assumes "x \<in> set s" and "P x" and "\<forall>c \<in> set s. P c \<longrightarrow> c = x"
  shows "find P s = Some x"
proof (cases "find P s")
  case None
  with assms(1,2) show ?thesis by (simp add: find_None_iff)
next
  case (Some c)
  then have "P c" and "c \<in> set s" unfolding find_Some_iff by auto
  with assms(3) Some show ?thesis by simp
qed

lemma ParseAddr_dotted:
  assumes "length p4 = 4"
  shows "ParseAddr (dotted p4) = Some (Addr4 p4)"
proof -
  have "\<forall>c \<in> set (dotted p4). is_digit c \<or> c = CHR ''.''"
    using FormatUint_digits by (simp add: dotted_def ball_Un)
  moreover have "\<not> is_digit CHR '':''" "\<not> is_digit CHR ''%''"
    by (simp_all add: is_digit_def)
  ultimately have "find (\<lambda>c. c = CHR ''.'' \<or> c = CHR '':'' \<or> c = CHR ''%'') (dotted p4) = Some CHR ''.''"
    by (intro find_first) (simp add: dotted_def, simp, blast)
  then show ?thesis
    by (simp add: ParseAddr_def parseIPv4_dotted [OF assms])
qed

subsection \<open>The round trip\<close>

lemma v6u16s_eq:
  assumes "length ip = 16"
  shows "length (v6u16s ip) = 8" "\<forall>g \<in> set (v6u16s ip). g < 65536"
    "concat (map group_bytes (v6u16s ip)) = ip"
proof -
  have lt: "256 * unat a + unat b < 65536" for a b :: byte
    using unat_byte_less [of a] unat_byte_less [of b] by simp
  have "length (v6u16s ip) = length ip div 2 \<and> (\<forall>g \<in> set (v6u16s ip). g < 65536) \<and>
      (even (length ip) \<longrightarrow> concat (map group_bytes (v6u16s ip)) = ip)"
    by (induction ip rule: v6u16s.induct) (simp_all add: group_bytes_be16 lt)
  with assms show "length (v6u16s ip) = 8" "\<forall>g \<in> set (v6u16s ip). g < 65536"
    "concat (map group_bytes (v6u16s ip)) = ip" by simp_all
qed

lemma ParseAddr_string6:
  assumes "length ip = 16"
  shows "ParseAddr (string6 ip) = Some (Addr6 ip [])"
proof -
  obtain zs ze where z: "zero_run (v6u16s ip) = (zs, ze)" by fastforce
  note gs = v6u16s_eq [OF assms]
  have run: "run_ok (v6u16s ip) (zs, ze)"
    using zero_run_ok [OF gs(1)] by (simp add: z)
  have s: "string6 ip = print6 8 (v6u16s ip) zs ze 0"
    by (simp add: string6_def z)
  have "CHR '':'' \<in> set (string6 ip)"
    unfolding s string6_shape [OF gs(1) run] using gs(1)
    by (cases "v6u16s ip" rule: join.cases) auto
  then have "find (\<lambda>c. c = CHR ''.'' \<or> c = CHR '':'' \<or> c = CHR ''%'') (string6 ip) = Some CHR '':''"
    by (rule find_first) (auto simp: s dest!: print6_chars [OF gs(1,2)])
  then show ?thesis
    using parseIPv6_string6 [OF gs(1,2) run] by (simp add: ParseAddr_def s gs(3))
qed

lemma To4_As16: "length b = 4 \<Longrightarrow> To4 (As16 b) = Some b"
  by (auto simp: To4_def As16_def eval_nat_numeral)

lemma To4_Some: "To4 ip = Some p4 \<Longrightarrow> length p4 = 4 \<and> (ip = p4 \<or> ip = As16 p4)"
proof -
  assume h: "To4 ip = Some p4"
  show ?thesis
  proof (cases "length ip = 4")
    case False
    with h have ip: "length ip = 16" "take 10 ip = replicate 10 0" "ip ! 10 = 255" "ip ! 11 = 255" "p4 = drop 12 ip"
      by (auto simp: To4_def split: if_splits)
    have "drop 10 ip = ip ! 10 # ip ! 11 # drop 12 ip"
      using ip(1) Cons_nth_drop_Suc [of 10 ip] Cons_nth_drop_Suc [of 11 ip] by simp
    then have "ip = take 10 ip @ ip ! 10 # ip ! 11 # drop 12 ip"
      by (metis append_take_drop_id)
    with ip show ?thesis by (simp add: As16_def)
  qed (use h in \<open>simp add: To4_def\<close>)
qed

definition To16 :: "net_IP \<Rightarrow> net_IP" where
  "To16 ip = (if length ip = 4 then As16 ip else ip)"

text \<open>Parsing what \<open>IP.String\<close> prints gives the address back, in its 16-byte form.\<close>

lemma ParseIP_IP_String:
  assumes "length ip = 4 \<or> length ip = 16"
  shows "ParseIP (IP_String ip) = To16 ip"
proof (cases "To4 ip")
  case None
  with assms have "length ip = 16" by (auto simp: To4_def)
  with None show ?thesis
    by (auto simp: IP_String_def ParseIP_def ParseAddr_string6 To16_def)
next
  case (Some p4)
  with To4_Some [OF Some] have "IP_String ip = dotted p4" "As16 p4 = To16 ip" "length p4 = 4"
    using assms by (auto simp: IP_String_def To16_def As16_def)
  then show ?thesis
    by (simp add: ParseIP_def ParseAddr_dotted)
qed

lemma IP_String_To16: "length ip = 4 \<Longrightarrow> IP_String (To16 ip) = IP_String ip"
  using To4_As16 [of ip] by (auto simp: IP_String_def To16_def As16_def To4_def)

lemma IP_String_ParseIP_IP_String:
  assumes "length ip = 4 \<or> length ip = 16"
  shows "IP_String (ParseIP (IP_String ip)) = IP_String ip"
  using assms IP_String_To16 [of ip] by (auto simp: ParseIP_IP_String To16_def)

lemma ParseAddr_IP_String:
  assumes "length ip = 4 \<or> length ip = 16"
  shows "ParseAddr (IP_String ip) \<noteq> None"
proof (cases "To4 ip")
  case None
  with assms have "length ip = 16" by (auto simp: To4_def)
  with None show ?thesis by (auto simp: IP_String_def ParseAddr_string6)
next
  case (Some p4)
  with assms To4_Some [OF Some] show ?thesis by (auto simp: IP_String_def ParseAddr_dotted)
qed

lemma IP_String_inject:
  assumes "length a = 4 \<or> length a = 16" and "length b = 4 \<or> length b = 16"
  shows "IP_String a = IP_String b \<longleftrightarrow> To16 a = To16 b"
  using ParseIP_IP_String [OF assms(1)] ParseIP_IP_String [OF assms(2)]
    IP_String_To16 [of a] IP_String_To16 [of b] assms
  by (metis To16_def)

text \<open>No address prints a \<open>|\<close>, the separator of the pairing keys.\<close>

lemma IP_String_no_bar:
  assumes "length ip = 4 \<or> length ip = 16"
  shows "CHR ''|'' \<notin> set (IP_String ip)"
proof (cases "To4 ip")
  case None
  with assms have len: "length ip = 16" by (auto simp: To4_def)
  have "\<not> is_hex CHR ''|''" by (simp add: is_hex_def is_digit_def)
  then have "CHR ''|'' \<notin> set (string6 ip)"
    by (auto simp: string6_def Let_def split: prod.splits
        dest!: print6_chars [OF v6u16s_eq(1,2) [OF len]])
  with None len show ?thesis by (auto simp: IP_String_def)
next
  case (Some p4)
  have "\<not> is_digit CHR ''|''" by (simp add: is_digit_def)
  then have "CHR ''|'' \<notin> set (dotted p4)"
    using FormatUint_digits by (auto simp: dotted_def)
  with Some assms show ?thesis by (auto simp: IP_String_def)
qed

end
