(* ===== verification/NtpFrame.thy ===== *)
theory NtpFrame
  imports GoNet
begin

section \<open>internal/ntpframe: parsing captured Ethernet frames\<close>

text \<open>
  The frame parser and the kernel filter of \<open>internal/ntpframe/frame.go\<close>. Every index and slice
  expression of the parser is checked, so \<open>ParseNTPFrame frame = None\<close> would be a run-time panic;
  the pair it returns otherwise is Go's \<open>(Parsed, bool)\<close>. The filter is the raw classic-BPF
  program of \<open>BuildNTPBPF\<close>, run by a small interpreter of the instructions it uses.
\<close>

named_theorems ntp_consts \<open>the constants of the package\<close>

definition EthHdrLen :: nat where [ntp_consts]: "EthHdrLen = 14"
definition EthertypeIPv4 :: nat where [ntp_consts]: "EthertypeIPv4 = 0x0800"
definition EthertypeIPv6 :: nat where [ntp_consts]: "EthertypeIPv6 = 0x86DD"
definition EthertypeVLAN :: nat where [ntp_consts]: "EthertypeVLAN = 0x8100"
definition IPProtoUDP :: nat where [ntp_consts]: "IPProtoUDP = 17"
definition NTPPort :: nat where [ntp_consts]: "NTPPort = 123"
definition NTPPayloadMin :: nat where [ntp_consts]: "NTPPayloadMin = 48"

record Parsed =
  Direction :: string
  IP :: net_IP
  SrcIP :: net_IP
  DstIP :: net_IP
  Family :: string
  Version :: string
  HasVersion :: bool
  XID :: "bytes option"

definition Parsed_zero :: Parsed where
  "Parsed_zero = \<lparr>Direction = '''', IP = [], SrcIP = [], DstIP = [], Family = '''',
     Version = '''', HasVersion = False, XID = None\<rparr>"

abbreviation not_ntp :: "(Parsed \<times> bool) option" where
  "not_ntp \<equiv> Some (Parsed_zero, False)"

definition ntpVersion :: "bytes \<Rightarrow> string option" where
  "ntpVersion payload = do {
     b \<leftarrow> byte_at payload 0;
     let v = drop_bit 3 b AND 7;
     Some (if 1 \<le> v \<and> v \<le> 4 then [digit_char (unat v)] else ''other'') }"

text \<open>From the UDP header on: the ports decide the direction, then the NTP fields.\<close>

definition parse_udp :: "bytes \<Rightarrow> nat \<Rightarrow> net_IP \<Rightarrow> net_IP \<Rightarrow> string \<Rightarrow> (Parsed \<times> bool) option" where
  "parse_udp frame off src dst family =
     (if length frame < off + 8 then not_ntp
      else do {
        s0 \<leftarrow> byte_at frame off; s1 \<leftarrow> byte_at frame (off + 1);
        d0 \<leftarrow> byte_at frame (off + 2); d1 \<leftarrow> byte_at frame (off + 3);
        payload \<leftarrow> slice_from frame (off + 8);
        let sport = be16 s0 s1;
        let dport = be16 d0 d1;
        if dport \<noteq> NTPPort \<and> sport \<noteq> NTPPort then not_ntp
        else do {
          let (direction, ip) = (if dport = NTPPort then (''request'', IP_String src)
                                 else (''response'', IP_String dst));
          let p = Parsed_zero\<lparr>Direction := direction, IP := ParseIP ip, SrcIP := src,
                    DstIP := dst, Family := family\<rparr>;
          if length payload \<ge> NTPPayloadMin then do {
            v \<leftarrow> ntpVersion payload;
            xid \<leftarrow> (if direction = ''request'' then slice payload 40 48 else slice payload 24 32);
            Some (p\<lparr>HasVersion := True, Version := v, XID := Some xid\<rparr>, True) }
          else Some (p, True) } })"

text \<open>The \<open>switch ethertype\<close> on the network header at offset \<open>off\<close>.\<close>

definition parse_ip :: "bytes \<Rightarrow> nat \<Rightarrow> nat \<Rightarrow> (Parsed \<times> bool) option" where
  "parse_ip frame ethertype off =
     (let n = length frame in
      if ethertype = EthertypeIPv4 then
        if n < off + 20 then not_ntp
        else do {
          b \<leftarrow> byte_at frame off;
          let ihl = unat (b AND 0x0F) * 4;
          if ihl < 20 \<or> n < off + ihl then not_ntp
          else do {
            proto \<leftarrow> byte_at frame (off + 9);
            if unat proto \<noteq> IPProtoUDP then not_ntp
            else do {
              src \<leftarrow> slice frame (off + 12) (off + 16);
              dst \<leftarrow> slice frame (off + 16) (off + 20);
              parse_udp frame (off + ihl) src dst ''ipv4'' } } }
      else if ethertype = EthertypeIPv6 then
        if n < off + 40 then not_ntp
        else do {
          nxt \<leftarrow> byte_at frame (off + 6);
          if unat nxt \<noteq> IPProtoUDP then not_ntp
          else do {
            src \<leftarrow> slice frame (off + 8) (off + 24);
            dst \<leftarrow> slice frame (off + 24) (off + 40);
            parse_udp frame (off + 40) src dst ''ipv6'' } }
      else not_ntp)"

definition ParseNTPFrame :: "bytes \<Rightarrow> (Parsed \<times> bool) option" where
  "ParseNTPFrame frame =
     (let n = length frame in
      if n < EthHdrLen then not_ntp
      else do {
        t0 \<leftarrow> byte_at frame 12; t1 \<leftarrow> byte_at frame 13;
        let ethertype = be16 t0 t1;
        let off = EthHdrLen;
        if ethertype = EthertypeVLAN then
          if n < off + 4 then not_ntp
          else do {
            u0 \<leftarrow> byte_at frame (off + 2); u1 \<leftarrow> byte_at frame (off + 3);
            parse_ip frame (be16 u0 u1) (off + 4) }
        else parse_ip frame ethertype off })"

definition ParseFrame :: "bytes \<Rightarrow> (string \<times> string \<times> bool) option" where
  "ParseFrame frame = do {
     (p, ok) \<leftarrow> ParseNTPFrame frame;
     Some (if \<not> ok then ('''', '''', False) else (Direction p, IP_String (IP p), True)) }"

subsection \<open>The cBPF filter\<close>

record RawInstruction =
  Op :: nat
  Jt :: nat
  Jf :: nat
  K :: nat

abbreviation raw :: "nat \<Rightarrow> nat \<Rightarrow> nat \<Rightarrow> nat \<Rightarrow> RawInstruction" where
  "raw p t f k \<equiv> \<lparr>Op = p, Jt = t, Jf = f, K = k\<rparr>"

definition BuildNTPBPF :: "RawInstruction list" where
  "BuildNTPBPF =
    [raw 0x28 0 0 12,
     raw 0x15 1 0 EthertypeIPv4,
     raw 0x15 9 16 EthertypeIPv6,
     raw 0x30 0 0 23,
     raw 0x15 0 14 IPProtoUDP,
     raw 0x28 0 0 20,
     raw 0x45 12 0 0x1FFF,
     raw 0xB1 0 0 EthHdrLen,
     raw 0x48 0 0 14,
     raw 0x15 8 0 NTPPort,
     raw 0x48 0 0 16,
     raw 0x15 6 7 NTPPort,
     raw 0x30 0 0 20,
     raw 0x15 0 5 IPProtoUDP,
     raw 0x28 0 0 54,
     raw 0x15 2 0 NTPPort,
     raw 0x28 0 0 56,
     raw 0x15 0 1 NTPPort,
     raw 0x06 0 0 0xFFFF,
     raw 0x06 0 0 0]"

text \<open>
  The classic BPF machine on the instructions of the program: \<open>ldh [k]\<close> (\<open>0x28\<close>), \<open>ldb [k]\<close>
  (\<open>0x30\<close>), \<open>ldh [x+k]\<close> (\<open>0x48\<close>), \<open>ldx 4*([k]&0xf)\<close> (\<open>0xB1\<close>), \<open>jeq\<close> (\<open>0x15\<close>), \<open>jset\<close>
  (\<open>0x45\<close>) and \<open>ret\<close> (\<open>0x06\<close>). A load outside the packet ends the program with 0 (reject).
  \<open>None\<close> is a program that leaves its text, meets another opcode or exhausts \<open>fuel\<close>.
\<close>

fun bpf_run :: "nat \<Rightarrow> RawInstruction list \<Rightarrow> bytes \<Rightarrow> nat \<Rightarrow> nat \<Rightarrow> nat \<Rightarrow> nat option" where
  "bpf_run 0 prog pkt pc a x = None"
| "bpf_run (Suc fuel) prog pkt pc a x =
     (if pc \<ge> length prog then None
      else let ins = prog ! pc; k = K ins in
        if Op ins = 0x28 then
          (if k + 2 > length pkt then Some 0
           else bpf_run fuel prog pkt (pc + 1) (be16 (pkt ! k) (pkt ! (k + 1))) x)
        else if Op ins = 0x30 then
          (if k + 1 > length pkt then Some 0
           else bpf_run fuel prog pkt (pc + 1) (unat (pkt ! k)) x)
        else if Op ins = 0x48 then
          (if x + k + 2 > length pkt then Some 0
           else bpf_run fuel prog pkt (pc + 1) (be16 (pkt ! (x + k)) (pkt ! (x + k + 1))) x)
        else if Op ins = 0xB1 then
          (if k + 1 > length pkt then Some 0
           else bpf_run fuel prog pkt (pc + 1) a (4 * unat (pkt ! k AND 0xF)))
        else if Op ins = 0x15 then
          bpf_run fuel prog pkt (pc + 1 + (if a = k then Jt ins else Jf ins)) a x
        else if Op ins = 0x45 then
          bpf_run fuel prog pkt (pc + 1 + (if and a k \<noteq> 0 then Jt ins else Jf ins)) a x
        else if Op ins = 0x06 then Some k
        else None)"

definition bpf_filter :: "bytes \<Rightarrow> nat option" where
  "bpf_filter pkt = bpf_run (length BuildNTPBPF) BuildNTPBPF pkt 0 0 0"

subsection \<open>No run-time panic\<close>

lemma ntpVersion_Some: "payload \<noteq> [] \<Longrightarrow> \<exists>v. ntpVersion payload = Some v"
  by (simp add: ntpVersion_def byte_at_def Let_def)

lemma parse_udp_total: "parse_udp frame off src dst family \<noteq> None"
proof (cases "length frame < off + 8")
  case False
  have "\<exists>v. ntpVersion (drop (off + 8) frame) = Some v" if "NTPPayloadMin \<le> length frame - (off + 8)"
    using that by (intro ntpVersion_Some) (auto simp: ntp_consts)
  then show ?thesis
    using False by (auto simp: parse_udp_def go_bytes_simps Let_def ntp_consts ex_bool_eq
        split: prod.splits)
qed (simp add: parse_udp_def)

lemma parse_ip_total: "parse_ip frame ethertype off \<noteq> None"
  using parse_udp_total by (auto simp: parse_ip_def go_bytes_simps Let_def)

lemma parse_total: "ParseNTPFrame frame \<noteq> None"
  using parse_ip_total by (auto simp: ParseNTPFrame_def go_bytes_simps Let_def ntp_consts)

subsection \<open>Parsing is relative to the header's position\<close>

lemma byte_at_append [simp]: "byte_at (pre @ x) (length pre + k) = byte_at x k" 
  by (simp add: byte_at_def)

lemma byte_at_append_Suc [simp]:
  "byte_at (pre @ x) (Suc (length pre + k)) = byte_at x (Suc k)"
  "byte_at (pre @ x) (Suc (Suc (length pre + k))) = byte_at x (Suc (Suc k))"
  "byte_at (pre @ x) (length pre) = byte_at x 0"
  using byte_at_append [of pre x "Suc k"] byte_at_append [of pre x "Suc (Suc k)"] byte_at_append [of pre x 0]
  by simp_all

lemma slice_append [simp]: "slice (pre @ x) (length pre + a) (length pre + b) = slice x a b"
  by (simp add: slice_def)

lemma slice_from_append [simp]: "slice_from (pre @ x) (length pre + a) = slice_from x a"
  by (simp add: slice_from_def slice_def)

lemma parse_udp_append: "parse_udp (pre @ x) (length pre + off) src dst family = parse_udp x off src dst family"
  by (simp add: parse_udp_def add.assoc cong: if_cong)

lemma parse_ip_append: "parse_ip (pre @ x) ethertype (length pre) = parse_ip x ethertype 0"
  by (simp add: parse_ip_def parse_udp_append add.assoc Let_def cong: if_cong)

lemma ParseNTPFrame_untagged:
  assumes "length macs = 12" and "be16 t0 t1 \<noteq> EthertypeVLAN"
  shows "ParseNTPFrame (macs @ [t0, t1] @ x) = parse_ip x (be16 t0 t1) 0"
  using assms parse_ip_append [of "macs @ [t0, t1]" x "be16 t0 t1"]
  by (simp add: ParseNTPFrame_def byte_at_def nth_append Let_def ntp_consts)

lemma ParseNTPFrame_tagged:
  assumes "length macs = 12"
  shows "ParseNTPFrame (macs @ [0x81, 0x00, c0, c1, t0, t1] @ x) = parse_ip x (be16 t0 t1) 0"
  using assms parse_ip_append [of "macs @ [0x81, 0x00, c0, c1, t0, t1]" x "be16 t0 t1"]
  by (simp add: ParseNTPFrame_def byte_at_def nth_append Let_def ntp_consts be16_eq)

subsection \<open>Reference packets\<close>

definition version_label :: "byte \<Rightarrow> string" where
  "version_label b = (let v = unat b div 8 mod 8 in if 1 \<le> v \<and> v \<le> 4 then FormatUint v else ''other'')"

definition ntp_packet :: "string \<Rightarrow> net_IP \<Rightarrow> net_IP \<Rightarrow> nat \<Rightarrow> nat \<Rightarrow> bytes \<Rightarrow> Parsed" where
  "ntp_packet family src dst sport dport payload =
     (let request = (dport = 123); long = (48 \<le> length payload)
      in \<lparr>Direction = if request then ''request'' else ''response'',
          IP = To16 (if request then src else dst), SrcIP = src, DstIP = dst, Family = family,
          Version = if long then version_label (hd payload) else '''', HasVersion = long,
          XID = if long then Some (take 8 (drop (if request then 40 else 24) payload)) else None\<rparr>)"

definition bytes16 :: "nat \<Rightarrow> bytes" where
  "bytes16 n = [of_nat (n div 256), of_nat n]"

definition udp_datagram :: "nat \<Rightarrow> nat \<Rightarrow> bytes \<Rightarrow> bytes \<Rightarrow> bytes" where
  "udp_datagram sport dport lencheck payload = bytes16 sport @ bytes16 dport @ lencheck @ payload"

lemma length_bytes16 [simp]: "length (bytes16 n) = 2"
  by (simp add: bytes16_def)

lemma be16_bytes16: "n < 65536 \<Longrightarrow> be16 (bytes16 n ! 0) (bytes16 n ! 1) = n"
  by (simp add: be16_eq bytes16_def unat_of_nat)

lemma ntpVersion_label: "payload \<noteq> [] \<Longrightarrow> ntpVersion payload = Some (version_label (hd payload))"
proof -
  assume "payload \<noteq> []"
  then obtain b bs where p: "payload = b # bs" by (cases payload) auto
  have v: "unat (drop_bit 3 b AND 7) = unat b div 8 mod 8"
  proof -
    have "unat (drop_bit 3 b AND 7) = and (drop_bit 3 (unat b)) 7"
      by (simp add: unsigned_and_eq unsigned_drop_bit_eq take_bit_nat_eq_self unat_byte_less)
    also have "\<dots> = take_bit 3 (drop_bit 3 (unat b))"
      by (simp add: take_bit_eq_mask mask_eq_exp_minus_1)
    finally show ?thesis
      by (simp add: take_bit_eq_mod drop_bit_eq_div)
  qed
  have "1 \<le> drop_bit 3 b AND 7 \<and> drop_bit 3 b AND 7 \<le> 4 \<longleftrightarrow> 1 \<le> unat b div 8 mod 8 \<and> unat b div 8 mod 8 \<le> 4"
    unfolding word_le_nat_alt v by simp
  then show ?thesis
    by (auto simp: p ntpVersion_def byte_at_def version_label_def v FormatUint_octet Let_def)
qed

lemma parse_udp_datagram:
  assumes "sport < 65536" "dport < 65536" "length lencheck = 4"
    and "length src = 4 \<or> length src = 16" "length dst = 4 \<or> length dst = 16"
  shows "parse_udp (udp_datagram sport dport lencheck payload) 0 src dst family =
    Some (if dport = 123 \<or> sport = 123 then (ntp_packet family src dst sport dport payload, True)
          else (Parsed_zero, False))"
proof -
  have nz: "payload \<noteq> []" if "48 \<le> length payload" using that by auto
  have p: "be16 (of_nat (n div 256)) (of_nat n) = n" if "n < 65536" for n
    using be16_bytes16 [OF that] by (simp add: bytes16_def)
  have "be16 0 123 = 123" by (simp add: be16_eq)
  then show ?thesis
    using assms
    by (cases "dport = 123"; cases "sport = 123"; cases "48 \<le> length payload")
      (simp_all add: parse_udp_def udp_datagram_def bytes16_def go_bytes_simps p Let_def nz
        ntpVersion_label ntp_packet_def ParseIP_IP_String ntp_consts Parsed_zero_def)
qed

definition ipv4_header :: "byte \<Rightarrow> bytes \<Rightarrow> bytes \<Rightarrow> bytes \<Rightarrow> bytes \<Rightarrow> bytes \<Rightarrow> bytes" where
  "ipv4_header vihl mid check src dst opts = vihl # mid @ [17] @ check @ src @ dst @ opts"

definition ipv6_header :: "bytes \<Rightarrow> byte \<Rightarrow> bytes \<Rightarrow> bytes \<Rightarrow> bytes" where
  "ipv6_header vtcflen hops src dst = vtcflen @ [17, hops] @ src @ dst"

lemma parse_ipv4:
  assumes "length mid = 8" "length check = 2" "length src = 4" "length dst = 4"
    and "4 * unat (vihl AND 15) = 20 + length opts"
  shows "parse_ip (ipv4_header vihl mid check src dst opts @ udp) EthertypeIPv4 0 =
    parse_udp udp 0 src dst ''ipv4''"
proof -
  let ?h = "ipv4_header vihl mid check src dst opts"
  have len: "length ?h = 20 + length opts"
    using assms by (simp add: ipv4_header_def)
  have "(?h @ udp) ! 9 = 17"
    using assms by (simp add: ipv4_header_def nth_Cons' nth_append)
  moreover have "take 4 (drop 12 (?h @ udp)) = src" "take 4 (drop 16 (?h @ udp)) = dst"
    using assms by (simp_all add: ipv4_header_def drop_Cons')
  moreover have "(?h @ udp) ! 0 = vihl" by (simp add: ipv4_header_def)
  moreover have "parse_udp (?h @ udp) (20 + length opts) src dst ''ipv4'' = parse_udp udp 0 src dst ''ipv4''"
    using parse_udp_append [of ?h udp 0] len by simp
  ultimately show ?thesis
    using len assms(5) by (simp add: parse_ip_def go_bytes_simps Let_def IPProtoUDP_def mult.commute)
qed

lemma parse_ipv6:
  assumes "length vtcflen = 6" "length src = 16" "length dst = 16"
  shows "parse_ip (ipv6_header vtcflen hops src dst @ udp) EthertypeIPv6 0 =
    parse_udp udp 0 src dst ''ipv6''"
proof -
  let ?h = "ipv6_header vtcflen hops src dst"
  have len: "length ?h = 40" using assms by (simp add: ipv6_header_def)
  have "(?h @ udp) ! 6 = 17"
    using assms by (simp add: ipv6_header_def nth_append)
  moreover have "take 16 (drop 8 (?h @ udp)) = src" "take 16 (drop 24 (?h @ udp)) = dst"
    using assms by (simp_all add: ipv6_header_def drop_Cons')
  moreover have "parse_udp (?h @ udp) 40 src dst ''ipv6'' = parse_udp udp 0 src dst ''ipv6''"
    using parse_udp_append [of ?h udp 0] len by simp
  ultimately show ?thesis
    using len assms by (simp add: parse_ip_def go_bytes_simps Let_def ntp_consts)
qed

definition ethernet :: "bytes \<Rightarrow> nat \<Rightarrow> bytes \<Rightarrow> bytes" where
  "ethernet macs ethertype body = macs @ bytes16 ethertype @ body"

lemma ParseNTPFrame_ethernet:
  assumes "length macs = 12" "t < 65536" "t \<noteq> EthertypeVLAN"
  shows "ParseNTPFrame (ethernet macs t body) = parse_ip body t 0"
proof -
  have "be16 (of_nat (t div 256)) (of_nat t) = t"
    using be16_bytes16 [OF assms(2)] by (simp add: bytes16_def)
  then show ?thesis
    using ParseNTPFrame_untagged [OF assms(1), of "of_nat (t div 256)" "of_nat t" body] assms(3)
    by (simp add: ethernet_def bytes16_def)
qed

definition bpf_accepts :: "bytes \<Rightarrow> bool" where
  "bpf_accepts pkt = (
     if length pkt < 14 then False
     else if be16 (pkt ! 12) (pkt ! 13) = 0x0800 then
       (length pkt \<ge> 24 \<and> unat (pkt ! 23) = 17 \<and> be16 (pkt ! 20) (pkt ! 21) mod 8192 = 0 \<and>
        (let x = 4 * unat (pkt ! 14 AND 15) in
          length pkt \<ge> x + 16 \<and> (be16 (pkt ! (x + 14)) (pkt ! (x + 15)) = 123 \<or>
          length pkt \<ge> x + 18 \<and> be16 (pkt ! (x + 16)) (pkt ! (x + 17)) = 123)))
     else be16 (pkt ! 12) (pkt ! 13) = 0x86DD \<and>
        length pkt \<ge> 56 \<and> unat (pkt ! 20) = 17 \<and>
          (be16 (pkt ! 54) (pkt ! 55) = 123 \<or>
          length pkt \<ge> 58 \<and> be16 (pkt ! 56) (pkt ! 57) = 123))"

text \<open>The program instruction by instruction, from its end: \<open>bpf_pc i\<close> is what running from
  instruction \<open>i\<close> returns. Every jump is forward, so twenty units of fuel are enough.\<close>

lemma bpf_text:
  "length BuildNTPBPF = 20"
  "BuildNTPBPF ! 0 = raw 0x28 0 0 12" "BuildNTPBPF ! Suc 0 = raw 0x15 1 0 0x0800"
  "BuildNTPBPF ! 2 = raw 0x15 9 16 0x86DD" "BuildNTPBPF ! 3 = raw 0x30 0 0 23"
  "BuildNTPBPF ! 4 = raw 0x15 0 14 17" "BuildNTPBPF ! 5 = raw 0x28 0 0 20"
  "BuildNTPBPF ! 6 = raw 0x45 12 0 0x1FFF" "BuildNTPBPF ! 7 = raw 0xB1 0 0 14"
  "BuildNTPBPF ! 8 = raw 0x48 0 0 14" "BuildNTPBPF ! 9 = raw 0x15 8 0 123"
  "BuildNTPBPF ! 10 = raw 0x48 0 0 16" "BuildNTPBPF ! 11 = raw 0x15 6 7 123"
  "BuildNTPBPF ! 12 = raw 0x30 0 0 20" "BuildNTPBPF ! 13 = raw 0x15 0 5 17"
  "BuildNTPBPF ! 14 = raw 0x28 0 0 54" "BuildNTPBPF ! 15 = raw 0x15 2 0 123"
  "BuildNTPBPF ! 16 = raw 0x28 0 0 56" "BuildNTPBPF ! 17 = raw 0x15 0 1 123"
  "BuildNTPBPF ! 18 = raw 0x06 0 0 0xFFFF" "BuildNTPBPF ! 19 = raw 0x06 0 0 0"
  by (simp_all add: BuildNTPBPF_def ntp_consts)

definition verdict :: "bool \<Rightarrow> nat option" where
  "verdict ok = Some (if ok then 0xFFFF else 0)"

lemma bpf_ret:
  "1 \<le> n \<Longrightarrow> bpf_run n BuildNTPBPF pkt 18 a x = verdict True"
  "1 \<le> n \<Longrightarrow> bpf_run n BuildNTPBPF pkt 19 a x = verdict False"
  by (cases n; simp add: bpf_text verdict_def)+

lemma bpf_jeq:
  assumes "BuildNTPBPF ! pc = raw 0x15 t f k" "pc < 20"
  shows "1 \<le> n \<Longrightarrow> bpf_run n BuildNTPBPF pkt pc a x =
    bpf_run (n - 1) BuildNTPBPF pkt (pc + 1 + (if a = k then t else f)) a x"
  using assms by (cases n) (simp_all add: bpf_text(1))

lemma bpf_ldh:
  assumes "BuildNTPBPF ! pc = raw 0x28 0 0 k" "pc < 20"
  shows "1 \<le> n \<Longrightarrow> bpf_run n BuildNTPBPF pkt pc a x =
    (if length pkt < k + 2 then verdict False
     else bpf_run (n - 1) BuildNTPBPF pkt (pc + 1) (be16 (pkt ! k) (pkt ! (k + 1))) x)"
  using assms by (cases n) (auto simp: bpf_text(1) verdict_def)

lemma bpf_ldb:
  assumes "BuildNTPBPF ! pc = raw 0x30 0 0 k" "pc < 20"
  shows "1 \<le> n \<Longrightarrow> bpf_run n BuildNTPBPF pkt pc a x =
    (if length pkt < k + 1 then verdict False
     else bpf_run (n - 1) BuildNTPBPF pkt (pc + 1) (unat (pkt ! k)) x)"
  using assms by (cases n) (auto simp: bpf_text(1) verdict_def)

lemma bpf_ldh_ind:
  assumes "BuildNTPBPF ! pc = raw 0x48 0 0 k" "pc < 20"
  shows "1 \<le> n \<Longrightarrow> bpf_run n BuildNTPBPF pkt pc a x =
    (if length pkt < x + k + 2 then verdict False
     else bpf_run (n - 1) BuildNTPBPF pkt (pc + 1) (be16 (pkt ! (x + k)) (pkt ! (x + k + 1))) x)"
  using assms by (cases n) (auto simp: bpf_text(1) verdict_def)

lemma bpf_6_7:
  "2 \<le> n \<Longrightarrow> bpf_run n BuildNTPBPF pkt 6 a x =
    (if a mod 8192 \<noteq> 0 then verdict False
     else if length pkt < 15 then verdict False
     else bpf_run (n - 2) BuildNTPBPF pkt 8 a (4 * unat (pkt ! 14 AND 15)))"
proof -
  have "and a 8191 = a mod 8192"
    using take_bit_eq_mask [of 13 a] by (simp add: take_bit_eq_mod mask_eq_exp_minus_1)
  moreover assume "2 \<le> n"
  ultimately show ?thesis
    by (cases n; cases "n - 1") (auto simp: bpf_text bpf_ret verdict_def)
qed

lemma bpf_12:
  assumes "7 \<le> n"
  shows "bpf_run n BuildNTPBPF pkt 12 a x = verdict (length pkt \<ge> 56 \<and> unat (pkt ! 20) = 17 \<and>
          (be16 (pkt ! 54) (pkt ! 55) = 123 \<or>
          length pkt \<ge> 58 \<and> be16 (pkt ! 56) (pkt ! 57) = 123))"
  using assms
  by (simp add: bpf_ldb [OF bpf_text(14)] bpf_jeq [OF bpf_text(15)] bpf_ldh [OF bpf_text(16)]
      bpf_jeq [OF bpf_text(17)] bpf_ldh [OF bpf_text(18)] bpf_jeq [OF bpf_text(19)] bpf_ret verdict_def)

lemma bpf_8:
  assumes "5 \<le> n"
  shows "bpf_run n BuildNTPBPF pkt 8 a x = verdict (length pkt \<ge> x + 16 \<and>
     (be16 (pkt ! (x + 14)) (pkt ! (x + 15)) = 123 \<or>
          length pkt \<ge> x + 18 \<and> be16 (pkt ! (x + 16)) (pkt ! (x + 17)) = 123))"
  using assms
  by (simp add: bpf_ldh_ind [OF bpf_text(10)] bpf_jeq [OF bpf_text(11)] bpf_ldh_ind [OF bpf_text(12)]
      bpf_jeq [OF bpf_text(13)] bpf_ret verdict_def add.commute [of _ x])

lemma bpf_filter_accepts: "bpf_filter pkt = verdict (bpf_accepts pkt)"
  by (simp add: bpf_filter_def bpf_text(1) bpf_ldh [OF bpf_text(2)] bpf_jeq [OF bpf_text(3)]
      bpf_jeq [OF bpf_text(4)] bpf_ldb [OF bpf_text(5)] bpf_jeq [OF bpf_text(6)]
      bpf_ldh [OF bpf_text(7)] bpf_6_7 bpf_8 bpf_12 bpf_ret verdict_def bpf_accepts_def Let_def
      flip: numeral_2_eq_2 numeral_3_eq_3)


text \<open>Which frames parse: \<open>ports123 frame off\<close> says that one of the two ports of the UDP header at
  \<open>off\<close> is 123.\<close>

definition ports123 :: "bytes \<Rightarrow> nat \<Rightarrow> bool" where
  "ports123 frame off \<longleftrightarrow> be16 (frame ! off) (frame ! (off + 1)) = 123 \<or>
      be16 (frame ! (off + 2)) (frame ! (off + 3)) = 123"

definition parses :: "(Parsed \<times> bool) option \<Rightarrow> bool" where
  "parses r \<longleftrightarrow> (case r of Some (p, ok) \<Rightarrow> ok | None \<Rightarrow> False)"

lemma parses_simps [simp]: "parses (Some (p, b)) = b" "\<not> parses None"
  by (auto simp: parses_def)

lemma parse_udp_parses:
  "parses (parse_udp frame off src dst family) \<longleftrightarrow> off + 8 \<le> length frame \<and> ports123 frame off"
proof -
  have v: "\<exists>v. ntpVersion (drop (off + 8) frame) = Some v" if "48 \<le> length frame - (off + 8)"
    using that by (intro ntpVersion_Some) auto
  show ?thesis
    using v by (cases "48 \<le> length frame - (off + 8)")
      (auto simp: parse_udp_def go_bytes_simps Let_def ntp_consts ports123_def)
qed

text \<open>The offset of the UDP header of an untagged frame, and the header it needs to be complete.\<close>

definition udp_offset :: "bytes \<Rightarrow> nat" where
  "udp_offset frame = (if be16 (frame ! 12) (frame ! 13) = EthertypeIPv4
     then 14 + 4 * unat (frame ! 14 AND 15) else 54)"

lemma parses_untagged:
  assumes "be16 (frame ! 12) (frame ! 13) \<noteq> EthertypeVLAN"
  shows "parses (ParseNTPFrame frame) \<longleftrightarrow>
     14 \<le> length frame \<and> udp_offset frame + 8 \<le> length frame \<and> ports123 frame (udp_offset frame) \<and>
     (be16 (frame ! 12) (frame ! 13) = EthertypeIPv4 \<and> 34 \<le> udp_offset frame \<and> unat (frame ! 23) = 17 \<or>
      be16 (frame ! 12) (frame ! 13) = EthertypeIPv6 \<and> unat (frame ! 20) = 17)"
  using assms
  by (auto simp: ParseNTPFrame_def parse_ip_def go_bytes_simps Let_def ntp_consts mult.commute
      parse_udp_parses udp_offset_def)

definition fragment :: "bytes \<Rightarrow> bool" where
  "fragment frame \<longleftrightarrow> be16 (frame ! 12) (frame ! 13) = EthertypeIPv4 \<and>
     be16 (frame ! 20) (frame ! 21) mod 8192 \<noteq> 0"

lemma filter_passes_parsed:
  assumes "parses (ParseNTPFrame frame)" "be16 (frame ! 12) (frame ! 13) \<noteq> EthertypeVLAN" "\<not> fragment frame"
  shows "bpf_accepts frame"
  using assms unfolding parses_untagged [OF assms(2)]
  by (auto simp: bpf_accepts_def fragment_def udp_offset_def ports123_def ntp_consts Let_def add.commute)

lemma parse_error_malformed:
  assumes "bpf_accepts frame" "\<not> parses (ParseNTPFrame frame)"
  shows "length frame < udp_offset frame + 8 \<or>
    be16 (frame ! 12) (frame ! 13) = EthertypeIPv4 \<and> unat (frame ! 14 AND 15) < 5"
proof -
  have "be16 (frame ! 12) (frame ! 13) \<noteq> EthertypeVLAN"
    using assms(1) by (auto simp: bpf_accepts_def ntp_consts split: if_splits)
  note parses = parses_untagged [OF this]
  have acc: "bpf_accepts frame \<longleftrightarrow> 14 \<le> length frame \<and> ports123 frame (udp_offset frame) \<and>
     (be16 (frame ! 12) (frame ! 13) = EthertypeIPv4 \<and> unat (frame ! 23) = 17 \<and> \<not> fragment frame \<or>
      be16 (frame ! 12) (frame ! 13) = EthertypeIPv6 \<and> unat (frame ! 20) = 17)"
    if "udp_offset frame + 8 \<le> length frame" "be16 (frame ! 12) (frame ! 13) = EthertypeIPv4 \<Longrightarrow> 34 \<le> udp_offset frame"
    using that
    by (cases "be16 (frame ! 12) (frame ! 13) = EthertypeIPv4")
      (auto simp: bpf_accepts_def udp_offset_def ports123_def fragment_def ntp_consts Let_def add.commute)
  show ?thesis
  proof (rule ccontr)
    assume "\<not> ?thesis"
    then have len: "udp_offset frame + 8 \<le> length frame"
      and ihl: "be16 (frame ! 12) (frame ! 13) = EthertypeIPv4 \<Longrightarrow> 34 \<le> udp_offset frame"
      by (auto simp: udp_offset_def)
    from acc [OF len ihl] assms parses len ihl show False by blast
  qed
qed

lemmas frame_eval = nth_append be16_eq ntp_consts udp_offset_def ports123_def fragment_def
  bpf_accepts_def Let_def

subsection \<open>Properties\<close>

text \<open>C21: \<open>ParseNTPFrame\<close> never indexes or slices a frame out of range: on every byte sequence it
  returns, so no captured frame can panic a capture worker.\<close>

theorem ParseNTPFrame_no_panic: "\<exists>p ok. ParseNTPFrame frame = Some (p, ok)"
  using parse_total [of frame] by auto

text \<open>C5: an Ethernet frame that carries an IPv4 header of any length with options, protocol UDP and
  a UDP datagram parses to exactly the packet it encodes when one of its ports is 123, and is
  rejected otherwise.\<close>

theorem ParseNTPFrame_ipv4:
  assumes "length macs = 12" "length mid = 8" "length check = 2"
    and "length src = 4" "length dst = 4" "4 * unat (vihl AND 15) = 20 + length opts"
    and "sport < 65536" "dport < 65536" "length lencheck = 4"
  shows "ParseNTPFrame (ethernet macs EthertypeIPv4
      (ipv4_header vihl mid check src dst opts @ udp_datagram sport dport lencheck payload)) =
    Some (if dport = 123 \<or> sport = 123
          then (ntp_packet ''ipv4'' src dst sport dport payload, True) else (Parsed_zero, False))"
proof -
  have "EthertypeIPv4 < 65536" "EthertypeIPv4 \<noteq> EthertypeVLAN" by (simp_all add: ntp_consts)
  note eth = ParseNTPFrame_ethernet [OF assms(1) this]
  show ?thesis
    unfolding eth parse_ipv4 [OF assms(2-6)] using assms by (intro parse_udp_datagram) auto
qed

theorem ParseNTPFrame_ipv4_witness:
  "ParseNTPFrame (ethernet (replicate 12 0) EthertypeIPv4
      (ipv4_header 0x46 (replicate 8 0) [0, 0] [203, 0, 113, 5] [198, 51, 100, 1] [1, 1, 1, 1] @
       udp_datagram 41234 123 [0, 18, 0, 0] (replicate 10 0x23))) =
    Some (ntp_packet ''ipv4'' [203, 0, 113, 5] [198, 51, 100, 1] 41234 123 (replicate 10 0x23), True)"
  using ParseNTPFrame_ipv4 [of "replicate 12 0" "replicate 8 0" "[0, 0]" "[203, 0, 113, 5]"
      "[198, 51, 100, 1]" "0x46" "[1, 1, 1, 1]" 41234 123 "[0, 18, 0, 0]" "replicate 10 0x23"]
  by simp

text \<open>The same for IPv6 with next header UDP.\<close>

lemma ParseNTPFrame_ipv6:
  assumes "length macs = 12" "length vtcflen = 6" "length src = 16" "length dst = 16"
    and "sport < 65536" "dport < 65536" "length lencheck = 4"
  shows "ParseNTPFrame (ethernet macs EthertypeIPv6
      (ipv6_header vtcflen hops src dst @ udp_datagram sport dport lencheck payload)) =
    Some (if dport = 123 \<or> sport = 123
          then (ntp_packet ''ipv6'' src dst sport dport payload, True) else (Parsed_zero, False))"
proof -
  have "EthertypeIPv6 < 65536" "EthertypeIPv6 \<noteq> EthertypeVLAN" by (simp_all add: ntp_consts)
  note eth = ParseNTPFrame_ethernet [OF assms(1) this]
  show ?thesis
    unfolding eth parse_ipv6 [OF assms(2-4)] using assms by (intro parse_udp_datagram) auto
qed

text \<open>One 802.1Q tag is transparent: inserting it between the addresses and the ethertype does
  not change what the parser returns, whatever follows.\<close>

lemma ParseNTPFrame_vlan_transparent:
  assumes "length macs = 12" "be16 t0 t1 \<noteq> EthertypeVLAN"
  shows "ParseNTPFrame (macs @ [0x81, 0x00, c0, c1] @ [t0, t1] @ rest) =
    ParseNTPFrame (macs @ [t0, t1] @ rest)"
  using ParseNTPFrame_tagged [OF assms(1), of c0 c1 t0 t1 rest]
    ParseNTPFrame_untagged [OF assms, of rest] by simp

text \<open>C11: the kernel filter is total and computes exactly the predicate \<open>bpf_accepts\<close>: from every
  packet the twenty instructions reach a \<open>ret\<close>, never leave the program text and never read out of
  the packet.\<close>

theorem BuildNTPBPF_decides: "bpf_filter pkt = Some (if bpf_accepts pkt then 0xFFFF else 0)"
  by (simp add: bpf_filter_accepts verdict_def)

text \<open>C20: the filter loses nothing the parser would accept, except tagged frames and IPv4 fragments:
  an untagged frame that parses and is not a non-first fragment passes it.\<close>

theorem filter_keeps_ntp:
  assumes "ParseNTPFrame frame = Some (p, True)"
    and "be16 (frame ! 12) (frame ! 13) \<noteq> EthertypeVLAN" and "\<not> fragment frame"
  shows "bpf_filter frame = Some 0xFFFF"
  using filter_passes_parsed [of frame] assms by (simp add: bpf_filter_accepts verdict_def)

theorem filter_keeps_ntp_witness:
  "bpf_filter (replicate 12 0 @ [8, 0, 0x45, 0, 0, 28, 0, 0, 0, 0, 64, 17, 0, 0, 203, 0, 113, 5,
     198, 51, 100, 1, 0xA1, 0x12, 0, 123, 0, 8, 0, 0]) = Some 0xFFFF"
proof -
  let ?f = "replicate 12 0 @ [8, 0, 0x45, 0, 0, 28, 0, 0, 0, 0, 64, 17, 0, 0, 203, 0, 113, 5,
     198, 51, 100, 1, 0xA1, 0x12, 0, 123, 0, 8, 0, 0] :: bytes"
  have eth: "be16 (?f ! 12) (?f ! 13) = EthertypeIPv4" by (simp add: frame_eval)
  then have tag: "be16 (?f ! 12) (?f ! 13) \<noteq> EthertypeVLAN" by (simp add: ntp_consts)
  moreover have "parses (ParseNTPFrame ?f)" unfolding parses_untagged [OF tag] by (simp add: frame_eval)
  then obtain p where "ParseNTPFrame ?f = Some (p, True)"
    by (auto simp: parses_def split: option.splits)
  moreover have "\<not> fragment ?f" by (simp add: frame_eval)
  ultimately show ?thesis by (intro filter_keeps_ntp)
qed

text \<open>A frame that passed the filter and does not parse is malformed: it ends before its UDP
  header does, or its IPv4 header length is below five words. So
  \<open>ntp_capture_parse_errors_total\<close> counts malformed frames only.\<close>

lemma parse_errors_are_malformed:
  assumes "bpf_filter frame = Some 0xFFFF" and "ParseNTPFrame frame = Some (p, False)"
  shows "length frame < udp_offset frame + 8 \<or>
    be16 (frame ! 12) (frame ! 13) = EthertypeIPv4 \<and> unat (frame ! 14 AND 15) < 5"
  using assms by (intro parse_error_malformed) (auto simp: bpf_filter_accepts verdict_def split: if_splits)

end
