(* ===== verification/Sha1.thy ===== *)
theory Sha1
  imports Prelude
begin

section \<open>crypto/sha1 and hash/fnv\<close>

text \<open>
  The two hash functions of the standard library that the exporter calls: \<open>sha1.Sum\<close> (the sketch
  hashes client addresses with it) and the 32-bit FNV-1a of \<open>fnv.New32a\<close> (the shard of a client).
\<close>

type_synonym u32 = "32 word"
type_synonym u64 = "64 word"

definition be64 :: "u64 \<Rightarrow> bytes" where
  "be64 w = map (\<lambda>i. ucast (drop_bit (8 * i) w)) [7, 6, 5, 4, 3, 2, 1, 0]"

definition be32 :: "u32 \<Rightarrow> bytes" where
  "be32 w = map (\<lambda>i. ucast (drop_bit (8 * i) w)) [3, 2, 1, 0]"

definition word32 :: "bytes \<Rightarrow> u32" where
  "word32 bs = foldl (\<lambda>w b. push_bit 8 w OR ucast b) 0 bs"

definition sha1_pad :: "bytes \<Rightarrow> bytes" where
  "sha1_pad m = m @ [0x80] @ replicate ((119 - length m mod 64) mod 64) 0
     @ be64 (of_nat (8 * length m))"

text \<open>\<open>chunks n k bs\<close>: the first \<open>n\<close> consecutive pieces of \<open>k\<close> bytes.\<close>

fun chunks :: "nat \<Rightarrow> nat \<Rightarrow> bytes \<Rightarrow> bytes list" where
  "chunks 0 k bs = []"
| "chunks (Suc n) k bs = take k bs # chunks n k (drop k bs)"

text \<open>The message schedule, built backwards: the head is the latest word.\<close>

fun sha1_schedule :: "nat \<Rightarrow> u32 list \<Rightarrow> u32 list" where
  "sha1_schedule 0 ws = ws"
| "sha1_schedule (Suc n) ws =
     sha1_schedule n (word_rotl 1 (ws ! 2 XOR ws ! 7 XOR ws ! 13 XOR ws ! 15) # ws)"

definition sha1_round :: "u32 \<times> u32 \<times> u32 \<times> u32 \<times> u32 \<Rightarrow> nat \<times> u32 \<Rightarrow> u32 \<times> u32 \<times> u32 \<times> u32 \<times> u32" where
  "sha1_round = (\<lambda>(a, b, c, d, e) (t, w).
     let (f, k) =
       (if t < 20 then ((b AND c) OR (NOT b AND d), 0x5A827999)
        else if t < 40 then (b XOR c XOR d, 0x6ED9EBA1)
        else if t < 60 then ((b AND c) OR (b AND d) OR (c AND d), 0x8F1BBCDC)
        else (b XOR c XOR d, 0xCA62C1D6))
     in (word_rotl 5 a + f + e + k + w, a, word_rotl 30 b, c, d))"

definition sha1_block :: "u32 \<times> u32 \<times> u32 \<times> u32 \<times> u32 \<Rightarrow> bytes \<Rightarrow> u32 \<times> u32 \<times> u32 \<times> u32 \<times> u32" where
  "sha1_block = (\<lambda>(h0, h1, h2, h3, h4) block.
     let ws = rev (sha1_schedule 64 (rev (map word32 (chunks 16 4 block))));
         (a, b, c, d, e) = foldl sha1_round (h0, h1, h2, h3, h4) (zip [0..<80] ws)
     in (h0 + a, h1 + b, h2 + c, h3 + d, h4 + e))"

definition sha1_Sum :: "bytes \<Rightarrow> bytes" where
  "sha1_Sum m =
     (let p = sha1_pad m;
          (h0, h1, h2, h3, h4) = foldl sha1_block
            (0x67452301, 0xEFCDAB89, 0x98BADCFE, 0x10325476, 0xC3D2E1F0)
            (chunks (length p div 64) 64 p)
      in be32 h0 @ be32 h1 @ be32 h2 @ be32 h3 @ be32 h4)"

text \<open>\<open>h := fnv.New32a(); h.Write(bs); h.Sum32()\<close>\<close>

definition fnv32a :: "bytes \<Rightarrow> u32" where
  "fnv32a bs = foldl (\<lambda>h b. (h XOR ucast b) * 16777619) 2166136261 bs"

lemma length_be32 [simp]: "length (be32 w) = 4"
  by (simp add: be32_def)

lemma length_sha1_Sum [simp]: "length (sha1_Sum m) = 20"
  by (simp add: sha1_Sum_def Let_def split: prod.splits)

end
