(* ===== verification/Float64.thy ===== *)
theory Float64
  imports Prelude Complex_Main
begin

section \<open>float64 arithmetic\<close>

text \<open>
  Finite \<open>float64\<close> values as rational numbers. \<open>fl x\<close> is the double nearest to \<open>x\<close>, ties to
  even, with 53 significant bits, which is what each arithmetic operation of Go returns as long as
  its result is in the normal range; the values of the exporter (register counts, harmonic sums,
  estimates) are, so subnormals, infinities and NaN are not represented.
\<close>

type_synonym float64 = rat

fun bit_length :: "nat \<Rightarrow> nat" where
  "bit_length n = (if n = 0 then 0 else Suc (bit_length (n div 2)))"

declare bit_length.simps [simp del]

text \<open>\<open>pow2 e\<close> is \<open>2\<^sup>e\<close> for any integer \<open>e\<close>, \<open>ilog2 x\<close> the exponent of a positive \<open>x\<close>.\<close>

definition pow2 :: "int \<Rightarrow> rat" where
  "pow2 e = 2 powi e"

definition ilog2 :: "rat \<Rightarrow> int" where
  "ilog2 x = (let (a, b) = quotient_of x;
                  e = int (bit_length (nat a)) - int (bit_length (nat b))
              in if x < pow2 e then e - 1 else e)"

definition round_half_even :: "rat \<Rightarrow> int" where
  "round_half_even x =
     (let f = \<lfloor>x\<rfloor>; r = x - of_int f
      in if r < 1 / 2 then f else if 1 / 2 < r then f + 1 else if even f then f else f + 1)"

definition fl :: "rat \<Rightarrow> float64" where
  "fl x = (if x = 0 then 0
           else let e = ilog2 \<bar>x\<bar> - 52 in of_int (round_half_even (x / pow2 e)) * pow2 e)"

subsection \<open>The exponent\<close>

lemma bit_length_pos: "0 < n \<Longrightarrow> bit_length n = Suc (bit_length (n div 2))"
  by (simp add: bit_length.simps [of n])

lemma bit_length_bounds: "0 < n \<Longrightarrow> 2 ^ (bit_length n - 1) \<le> n \<and> n < 2 ^ bit_length n"
proof (induction n rule: less_induct)
  case (less n)
  show ?case
  proof (cases "n = 1")
    case True
    then show ?thesis by (simp add: bit_length.simps [of "Suc 0"] bit_length.simps [of 0])
  next
    case False
    with less.prems have half: "0 < n div 2" "n div 2 < n" by auto
    then obtain k where k: "bit_length (n div 2) = Suc k"
      using bit_length_pos by blast
    with less.IH [OF half(2,1)] have "2 ^ k \<le> n div 2" "n div 2 < 2 * 2 ^ k" by auto
    then show ?thesis
      by (simp add: bit_length_pos [OF less.prems] k) linarith
  qed
qed

lemma pow2_pos [simp]: "0 < pow2 e"
  by (simp add: pow2_def)

lemma pow2_nonzero [simp]: "pow2 e \<noteq> 0"
  by (simp add: pow2_def)

lemma pow2_add: "pow2 (a + b) = pow2 a * pow2 b"
  by (simp add: pow2_def power_int_add)

lemma pow2_diff: "pow2 (a - b) = pow2 a / pow2 b"
  by (simp add: pow2_def power_int_diff)

lemma pow2_of_nat: "pow2 (int n) = 2 ^ n"
  by (simp add: pow2_def)

lemma pow2_Suc: "pow2 (e + 1) = 2 * pow2 e"
  by (simp add: pow2_add) (simp add: pow2_def)

lemma pow2_mono: "a \<le> b \<Longrightarrow> pow2 a \<le> pow2 b"
  by (simp add: pow2_def power_int_increasing)

lemma bit_length_pow2:
  assumes "0 < a"
  shows "pow2 (int (bit_length (nat a)) - 1) \<le> of_int a" and "of_int a < pow2 (int (bit_length (nat a)))"
proof -
  let ?n = "nat a"
  have n: "0 < ?n" "(of_int a :: rat) = of_nat ?n" using assms by simp_all
  have "int (bit_length ?n) - 1 = int (bit_length ?n - 1)"
    using bit_length_pos [OF n(1)] by simp
  then have "pow2 (int (bit_length ?n) - 1) = of_nat (2 ^ (bit_length ?n - 1))"
    by (simp only: pow2_of_nat of_nat_power of_nat_numeral)
  then show "pow2 (int (bit_length ?n) - 1) \<le> of_int a"
    using bit_length_bounds [OF n(1)] unfolding n(2) by (simp only: of_nat_le_iff)
  have "pow2 (int (bit_length ?n)) = of_nat (2 ^ bit_length ?n)"
    by (simp only: pow2_of_nat of_nat_power of_nat_numeral)
  then show "of_int a < pow2 (int (bit_length ?n))"
    using bit_length_bounds [OF n(1)] unfolding n(2) by (simp only: of_nat_less_iff)
qed

lemma ilog2_bounds:
  assumes "0 < x"
  shows "pow2 (ilog2 x) \<le> x" and "x < pow2 (ilog2 x + 1)"
proof -
  obtain a b where q: "quotient_of x = (a, b)" by fastforce
  have x: "x = of_int a / of_int b" and b: "0 < b"
    using quotient_of_div [OF q] quotient_of_denom_pos [OF q] by auto
  with assms have a: "0 < a" by (simp add: zero_less_divide_iff)
  let ?p = "int (bit_length (nat a))" and ?q = "int (bit_length (nat b))"
  note A = bit_length_pow2 [OF a] and B = bit_length_pow2 [OF b]
  have b': "(0 :: rat) < of_int b" using b by simp
  have up: "x < pow2 (?p - ?q + 1)"
  proof -
    have "x < pow2 ?p / of_int b"
      unfolding x using A(2) b' by (rule divide_strict_right_mono)
    also have "\<dots> \<le> pow2 ?p / pow2 (?q - 1)"
      using B(1) by (intro divide_left_mono mult_pos_pos) (simp_all add: b b' less_imp_le)
    also have "\<dots> = pow2 (?p - ?q + 1)"
      by (simp add: pow2_diff [symmetric] algebra_simps)
    finally show ?thesis .
  qed
  have lo: "pow2 (?p - ?q - 1) \<le> x"
  proof -
    have "pow2 (?p - ?q - 1) = pow2 (?p - 1) / pow2 ?q"
      by (simp add: pow2_diff [symmetric] algebra_simps)
    also have "\<dots> \<le> pow2 (?p - 1) / of_int b"
      using B(2) by (intro divide_left_mono mult_pos_pos) (simp_all add: b b' less_imp_le)
    also have "\<dots> \<le> x"
      unfolding x using A(1) b' by (intro divide_right_mono) simp_all
    finally show ?thesis .
  qed
  have "ilog2 x = (if x < pow2 (?p - ?q) then ?p - ?q - 1 else ?p - ?q)"
    by (simp add: ilog2_def q)
  with up lo show "pow2 (ilog2 x) \<le> x" "x < pow2 (ilog2 x + 1)"
    by (auto simp: not_less)
qed

lemma ilog2_mono:
  assumes "0 < x" "x \<le> y"
  shows "ilog2 x \<le> ilog2 y"
proof (rule ccontr)
  assume "\<not> ?thesis"
  then have "pow2 (ilog2 y + 1) \<le> pow2 (ilog2 x)" by (intro pow2_mono) simp
  with ilog2_bounds(1) [OF assms(1)] ilog2_bounds(2) [of y] assms show False by simp
qed

subsection \<open>Rounding\<close>

lemma round_half_even_floor: "\<lfloor>x\<rfloor> \<le> round_half_even x" "round_half_even x \<le> \<lfloor>x\<rfloor> + 1"
  by (simp_all add: round_half_even_def Let_def)

lemma round_half_even_mono:
  assumes "x \<le> y"
  shows "round_half_even x \<le> round_half_even y"
proof (cases "\<lfloor>x\<rfloor> = \<lfloor>y\<rfloor>")
  case True
  with assms show ?thesis by (auto simp: round_half_even_def Let_def)
next
  case False
  with floor_mono [OF assms] have "\<lfloor>x\<rfloor> + 1 \<le> \<lfloor>y\<rfloor>" by simp
  with round_half_even_floor(2) [of x] round_half_even_floor(1) [of y] show ?thesis by simp
qed

lemma round_half_even_of_int [simp]: "round_half_even (of_int n) = n"
  by (simp add: round_half_even_def)

lemma fl_0 [simp]: "fl 0 = 0"
  by (simp add: fl_def)

text \<open>The significand of a positive value lies between \<open>2\<^sup>52\<close> and \<open>2\<^sup>53\<close>, so rounding stays in the
  binade, its upper end included.\<close>

lemma fl_bounds:
  assumes "0 < x"
  shows "pow2 (ilog2 x) \<le> fl x" and "fl x \<le> pow2 (ilog2 x + 1)"
proof -
  let ?e = "ilog2 x - 52"
  have e: "pow2 (ilog2 x) = of_int (2 ^ 52) * pow2 ?e" "pow2 (ilog2 x + 1) = of_int (2 ^ 53) * pow2 ?e"
    using pow2_add [of 52 ?e] pow2_add [of 53 ?e] by (simp_all add: pow2_def add.commute)
  have "of_int (2 ^ 52) \<le> x / pow2 ?e" "x / pow2 ?e \<le> of_int (2 ^ 53)"
    using ilog2_bounds [OF assms] unfolding e
    by (simp_all only: pos_le_divide_eq [OF pow2_pos] pos_divide_le_eq [OF pow2_pos] less_imp_le)
  from this [THEN round_half_even_mono]
  have r: "2 ^ 52 \<le> round_half_even (x / pow2 ?e)" "round_half_even (x / pow2 ?e) \<le> 2 ^ 53"
    by (simp_all only: round_half_even_of_int)
  have f: "fl x = of_int (round_half_even (x / pow2 ?e)) * pow2 ?e"
    using assms by (simp add: fl_def Let_def)
  show "pow2 (ilog2 x) \<le> fl x" "fl x \<le> pow2 (ilog2 x + 1)"
    unfolding f e using r by (simp_all only: mult_le_cancel_right_pos [OF pow2_pos] of_int_le_iff)
qed

lemma fl_pos: "0 < x \<Longrightarrow> 0 < fl x"
  using fl_bounds(1) [of x] pow2_pos [of "ilog2 x"] by linarith

lemma fl_nonneg: "0 \<le> x \<Longrightarrow> 0 \<le> fl x"
  using fl_pos [of x] by (cases "x = 0") auto

lemma fl_mono:
  assumes "0 \<le> x" "x \<le> y"
  shows "fl x \<le> fl y"
proof (cases "x = 0")
  case True
  with assms show ?thesis by (simp add: fl_nonneg)
next
  case False
  with assms have x: "0 < x" and y: "0 < y" by auto
  show ?thesis
  proof (cases "ilog2 x = ilog2 y")
    case True
    have "x / pow2 (ilog2 y - 52) \<le> y / pow2 (ilog2 y - 52)"
      using assms by (simp add: divide_right_mono less_imp_le)
    from round_half_even_mono [OF this] show ?thesis
      using x y True by (simp add: fl_def Let_def)
  next
    case False
    with ilog2_mono [OF x assms(2)] have "pow2 (ilog2 x + 1) \<le> pow2 (ilog2 y)"
      by (intro pow2_mono) simp
    with fl_bounds(2) [OF x] fl_bounds(1) [OF y] show ?thesis by linarith
  qed
qed

lemma fl_of_nat:
  assumes "n < 2 ^ 53"
  shows "fl (of_nat n) = of_nat n"
proof (cases "n = 0")
  case False
  let ?x = "of_nat n :: rat" and ?k = "ilog2 (of_nat n)"
  have pos: "0 < ?x" using False by simp
  have "?x < pow2 53"
    using assms of_nat_less_iff [of n "2 ^ 53", where ?'a = rat] by (simp add: pow2_def)
  with ilog2_bounds(1) [OF pos] have "pow2 ?k < pow2 53" by linarith
  then have "?k < 53" using pow2_mono [of 53 ?k] by linarith
  then have j: "52 - ?k = int (nat (52 - ?k))" by simp
  let ?j = "nat (52 - ?k)"
  have "?x / pow2 (?k - 52) = ?x * pow2 (52 - ?k)"
    by (simp add: pow2_def power_int_minus_divide divide_inverse flip: power_int_minus)
  also have "\<dots> = of_int (int n * 2 ^ ?j)"
    by (subst j) (simp only: pow2_of_nat of_int_mult of_int_power of_int_numeral of_int_of_nat_eq)
  finally have sig: "?x / pow2 (?k - 52) = of_int (int n * 2 ^ ?j)" .
  then have "?x = of_int (int n * 2 ^ ?j) * pow2 (?k - 52)"
    by (simp add: field_simps)
  with pos show ?thesis
    by (simp add: fl_def Let_def sig del: of_int_mult)
qed simp

text \<open>Doubling is exact, so doubles of values at least a factor of two apart are distinct.\<close>

lemma ilog2_double:
  assumes "0 < x"
  shows "ilog2 (2 * x) = ilog2 x + 1"
proof -
  have "pow2 (ilog2 x + 1) \<le> 2 * x" "2 * x < pow2 (ilog2 x + 2)"
    using ilog2_bounds [OF assms] pow2_Suc [of "ilog2 x"] pow2_Suc [of "ilog2 x + 1"]
    by (simp_all add: add.commute)
  moreover have "pow2 (ilog2 (2 * x)) \<le> 2 * x" "2 * x < pow2 (ilog2 (2 * x) + 1)"
    using ilog2_bounds [of "2 * x"] assms by simp_all
  ultimately have "pow2 (ilog2 (2 * x)) < pow2 (ilog2 x + 2)" "pow2 (ilog2 x + 1) < pow2 (ilog2 (2 * x) + 1)"
    by linarith+
  then show ?thesis
    using pow2_mono [of "ilog2 x + 2" "ilog2 (2 * x)"] pow2_mono [of "ilog2 (2 * x) + 1" "ilog2 x + 1"]
    by linarith
qed

lemma fl_double: "0 < x \<Longrightarrow> fl (2 * x) = 2 * fl x"
proof -
  assume x: "0 < x"
  have p: "pow2 (ilog2 (2 * x) - 52) = 2 * pow2 (ilog2 x - 52)"
    using pow2_Suc [of "ilog2 x - 52"] ilog2_double [OF x] by (simp add: algebra_simps)
  show ?thesis
    using x by (simp add: fl_def Let_def p)
qed

lemma fl_less: "0 < x \<Longrightarrow> 2 * x \<le> y \<Longrightarrow> fl x < fl y"
  using fl_mono [of "2 * x" y] fl_double [of x] fl_pos [of x] by simp

subsection \<open>Signs and durations\<close>

lemma round_half_even_minus: "round_half_even (- x) = - round_half_even x"
proof (cases "x = of_int \<lfloor>x\<rfloor>")
  case True
  then show ?thesis
    by (metis of_int_minus round_half_even_of_int)
next
  case False
  then have "\<lfloor>- x\<rfloor> = - \<lfloor>x\<rfloor> - 1"
    using ceiling_altdef [of x] by (simp add: ceiling_def)
  then show ?thesis
    by (auto simp: round_half_even_def Let_def)
qed

lemma fl_minus: "fl (- x) = - fl x"
  using round_half_even_minus [of "x / pow2 (ilog2 \<bar>x\<bar> - 52)"]
  by (simp add: fl_def Let_def)

lemma fl_neg: "x < 0 \<Longrightarrow> fl x < 0"
  using fl_pos [of "- x"] by (simp add: fl_minus)

lemma fl_nonpos: "x \<le> 0 \<Longrightarrow> fl x \<le> 0"
  using fl_nonneg [of "- x"] by (simp add: fl_minus)

text \<open>\<open>d.Seconds()\<close>: the whole seconds plus the remaining nanoseconds, both truncated toward zero.\<close>

definition dur_Seconds :: "duration \<Rightarrow> float64" where
  "dur_Seconds d =
     (let sec = sgn d * (\<bar>d\<bar> div Second); nsec = sgn d * (\<bar>d\<bar> mod Second)
      in fl (fl (of_int sec) + fl (fl (of_int nsec) / 10 ^ 9)))"

lemma dur_Seconds_nonneg: "0 \<le> d \<Longrightarrow> 0 \<le> dur_Seconds d"
  by (auto simp: dur_Seconds_def Let_def sgn_if Second_def pos_imp_zdiv_nonneg_iff
      intro!: fl_nonneg add_nonneg_nonneg)

lemma dur_Seconds_neg: "d < 0 \<Longrightarrow> dur_Seconds d < 0"
proof -
  assume d: "d < 0"
  let ?s = "- (\<bar>d\<bar> div Second)" and ?n = "- (\<bar>d\<bar> mod Second)"
  have le: "?s \<le> 0" "?n \<le> 0" by (simp_all add: Second_def pos_imp_zdiv_nonneg_iff)
  have "?s < 0 \<or> ?n < 0"
  proof (rule ccontr)
    assume "\<not> (?s < 0 \<or> ?n < 0)"
    with le have "\<bar>d\<bar> div Second = 0" "\<bar>d\<bar> mod Second = 0" by linarith+
    then show False using d div_mult_mod_eq [of "\<bar>d\<bar>" Second] by simp
  qed
  then have neg: "fl (of_int ?s) < 0 \<or> fl (fl (of_int ?n) / 10 ^ 9) < 0"
    by (auto intro!: fl_neg divide_neg_pos)
  have nonpos: "fl (of_int ?s) \<le> 0" "fl (fl (of_int ?n) / 10 ^ 9) \<le> 0"
    using le by (auto intro!: fl_nonpos divide_nonpos_pos simp: of_int_nonneg simp flip: of_int_minus)
  have "fl (of_int ?s) + fl (fl (of_int ?n) / 10 ^ 9) < 0"
    using neg nonpos by linarith
  then have "fl (fl (of_int ?s) + fl (fl (of_int ?n) / 10 ^ 9)) < 0" by (rule fl_neg)
  then show ?thesis
    using d by (simp add: dur_Seconds_def Let_def sgn_if)
qed

lemma dur_Seconds_nonneg_iff: "0 \<le> dur_Seconds d \<longleftrightarrow> 0 \<le> d"
  using dur_Seconds_nonneg [of d] dur_Seconds_neg [of d] by linarith

end
