(* ===== verification/Hll.thy ===== *)
theory Hll
  imports Sha1 Float64
begin

section \<open>internal/hll: the HyperLogLog sketch\<close>

text \<open>
  The sketch behind \<open>ntp_clients_unique_daily\<close> (\<open>internal/hll/hll.go\<close>). A panic is \<open>None\<close>.
  \<open>math.Log\<close> is a parameter of \<open>Count\<close>. The client of the sketch only relies on the algebra of
  registers, stated as the locale \<open>sketch\<close> and interpreted here for every precision: merging is a
  commutative, associative and idempotent join, so a sketch depends on the set of keys alone.
\<close>

record HyperLogLog =
  hll_p :: nat
  hll_m :: nat
  hll_alpha :: float64
  hll_bits :: nat
  registers :: bytes

definition hll_New :: "nat \<Rightarrow> HyperLogLog option" where
  "hll_New p =
     (if p < 4 \<or> p > 16 then None
      else let m = 2 ^ p in
        Some \<lparr>hll_p = p, hll_m = m,
          hll_alpha = fl (fl (7213 / 10000) / fl (1 + fl (fl (1079 / 1000) / fl (of_nat m)))),
          hll_bits = 64 - p, registers = replicate m 0\<rparr>)"

definition NewDefault :: "HyperLogLog option" where
  "NewDefault = hll_New 14"

definition Len64 :: "u64 \<Rightarrow> nat" where
  "Len64 w = bit_length (unat w)"

text \<open>The first eight bytes of the digest, big-endian.\<close>

definition hash64 :: "string \<Rightarrow> u64" where
  "hash64 key = foldl (\<lambda>v b. push_bit 8 v OR ucast b) 0 (take 8 (sha1_Sum (bytes_of_string key)))"

definition Add :: "HyperLogLog \<Rightarrow> string \<Rightarrow> HyperLogLog option" where
  "Add h key =
     (let v = hash64 key;
          idx = drop_bit (hll_bits h) v;
          w = v AND (push_bit (hll_bits h) 1 - 1);
          rho = (if w = 0 then hll_bits h + 1 else hll_bits h - Len64 w + 1);
          b = of_nat rho :: byte
      in if unat idx \<ge> length (registers h) then None
         else Some (if b > registers h ! unat idx
                    then h\<lparr>registers := (registers h)[unat idx := b]\<rparr> else h))"

definition Merge :: "HyperLogLog \<Rightarrow> HyperLogLog \<Rightarrow> HyperLogLog option" where
  "Merge h other =
     (if hll_p other \<noteq> hll_p h then None
      else if length (registers other) < length (registers h) then None
      else Some (h\<lparr>registers :=
        map2 (\<lambda>r q. if q > r then q else r) (registers h) (registers other)\<rparr>))"

fun count_loop :: "bytes \<Rightarrow> float64 \<Rightarrow> nat \<Rightarrow> float64 \<times> nat" where
  "count_loop [] raw zeros = (raw, zeros)"
| "count_loop (r # rs) raw zeros =
     count_loop rs (fl (raw + fl (1 / fl (of_nat (unat (push_bit (unat r) 1 :: u64))))))
       (if r = 0 then zeros + 1 else zeros)"

definition Count :: "(float64 \<Rightarrow> float64) \<Rightarrow> HyperLogLog \<Rightarrow> float64" where
  "Count Log h =
     (let (raw, zeros) = count_loop (registers h) 0 0;
          m = fl (of_nat (hll_m h));
          estimate = fl (fl (fl (hll_alpha h * m) * m) / raw)
      in if estimate \<le> fl (5 / 2 * m) \<and> zeros > 0
         then fl (m * Log (fl (m / fl (of_nat zeros)))) else estimate)"

definition Clone :: "HyperLogLog \<Rightarrow> HyperLogLog" where
  "Clone h = \<lparr>hll_p = hll_p h, hll_m = hll_m h, hll_alpha = hll_alpha h, hll_bits = hll_bits h,
     registers = take (length (registers h)) (registers h)\<rparr>"

subsection \<open>The algebra of registers\<close>

text \<open>The index and the rank a key maps to, at precision \<open>p\<close>; the invariant of a sketch.\<close>

definition hll_index :: "nat \<Rightarrow> string \<Rightarrow> nat" where
  "hll_index p key = unat (drop_bit (64 - p) (hash64 key))"

definition hll_rank :: "nat \<Rightarrow> string \<Rightarrow> nat" where
  "hll_rank p key =
     (let w = hash64 key AND (push_bit (64 - p) 1 - 1)
      in if w = 0 then 64 - p + 1 else 64 - p - Len64 w + 1)"

definition add_key :: "nat \<Rightarrow> string \<Rightarrow> bytes \<Rightarrow> bytes" where
  "add_key p key rs =
     rs[hll_index p key := max (rs ! hll_index p key) (of_nat (hll_rank p key))]"

definition merge_regs :: "bytes \<Rightarrow> bytes \<Rightarrow> bytes" where
  "merge_regs rs qs = map2 max rs qs"

definition regs_ok :: "nat \<Rightarrow> bytes \<Rightarrow> bool" where
  "regs_ok p rs \<longleftrightarrow> length rs = 2 ^ p \<and> (\<forall>r \<in> set rs. unat r \<le> 64 - p + 1)"

definition hll_ok :: "HyperLogLog \<Rightarrow> bool" where
  "hll_ok h \<longleftrightarrow> 4 \<le> hll_p h \<and> hll_p h \<le> 16 \<and> hll_m h = 2 ^ hll_p h \<and> hll_bits h = 64 - hll_p h
     \<and> 0 < hll_alpha h \<and> hll_alpha h \<le> 1 \<and> regs_ok (hll_p h) (registers h)"

text \<open>What the client of a sketch relies on: merging is a join, and adding commutes with it.\<close>

locale sketch =
  fixes empty :: 's
    and add :: "'k \<Rightarrow> 's \<Rightarrow> 's"
    and merge :: "'s \<Rightarrow> 's \<Rightarrow> 's"
    and ok :: "'s \<Rightarrow> bool"
  assumes ok_empty: "ok empty"
    and ok_add: "ok s \<Longrightarrow> ok (add k s)"
    and ok_merge: "ok s \<Longrightarrow> ok t \<Longrightarrow> ok (merge s t)"
    and merge_commute: "ok s \<Longrightarrow> ok t \<Longrightarrow> merge s t = merge t s"
    and merge_assoc: "ok s \<Longrightarrow> ok t \<Longrightarrow> ok u \<Longrightarrow> merge (merge s t) u = merge s (merge t u)"
    and merge_idem: "ok s \<Longrightarrow> merge s s = s"
    and merge_empty: "ok s \<Longrightarrow> merge empty s = s"
    and add_merge: "ok s \<Longrightarrow> ok t \<Longrightarrow> add k (merge s t) = merge (add k s) t"
begin

lemma ok_fold: "ok s \<Longrightarrow> ok (fold add ks s)"
  by (induction ks arbitrary: s) (simp_all add: ok_add)

lemma add_as_merge: "ok s \<Longrightarrow> add k s = merge (add k empty) s"
  using add_merge [of empty s k] by (simp add: ok_empty merge_empty)

lemma fold_merge_left: "ok s \<Longrightarrow> ok t \<Longrightarrow> fold add ks (merge s t) = merge (fold add ks s) t"
  by (induction ks arbitrary: s) (simp_all add: add_merge ok_add)

lemma fold_as_merge: "ok s \<Longrightarrow> fold add ks s = merge (fold add ks empty) s"
  using fold_merge_left [of empty s ks] by (simp add: ok_empty merge_empty)

lemma fold_append_merge:
  "fold add (xs @ ys) empty = merge (fold add xs empty) (fold add ys empty)"
proof -
  have "fold add (xs @ ys) empty = merge (fold add ys empty) (fold add xs empty)"
    using fold_as_merge [OF ok_fold [OF ok_empty], of ys xs] by simp
  then show ?thesis
    using merge_commute [OF ok_fold [OF ok_empty] ok_fold [OF ok_empty], of ys xs] by simp
qed

lemma add_absorb: "ok s \<Longrightarrow> k \<in> set ks \<Longrightarrow> add k (fold add ks s) = fold add ks s"
proof (induction ks arbitrary: s)
  case (Cons j ks)
  have ok: "ok (add j s)" using Cons.prems by (simp add: ok_add)
  show ?case
  proof (cases "k = j")
    case True
    let ?F = "fold add ks empty" and ?j = "add j empty"
    have oks: "ok ?F" "ok ?j" "ok s" "ok (add j s)"
      using Cons.prems by (simp_all add: ok_fold ok_add ok_empty)
    have F: "fold add ks (add j s) = merge (add j s) ?F"
      using oks fold_as_merge merge_commute by metis
    have "add j (merge (add j s) ?F) = merge (add j (add j s)) ?F"
      using oks by (simp add: add_merge)
    also have "add j (add j s) = merge (merge ?j ?j) s"
      using oks add_as_merge [of "add j s" j] add_as_merge [of s j] merge_assoc [of ?j ?j s] by simp
    also have "\<dots> = add j s"
      using oks add_as_merge [of s j] by (simp add: merge_idem)
    finally show ?thesis using True F by simp
  next
    case False
    then show ?thesis using Cons.IH [OF ok] Cons.prems by simp
  qed
qed simp

lemma fold_absorb: "ok s \<Longrightarrow> set js \<subseteq> set ks \<Longrightarrow> fold add js (fold add ks s) = fold add ks s"
  by (induction js) (simp_all add: add_absorb)

text \<open>The sketch of a list of keys is a function of its set.\<close>

lemma fold_set_cong:
  assumes "set xs = set ys"
  shows "fold add xs empty = fold add ys empty"
proof -
  have "fold add xs empty = fold add ys (fold add xs empty)"
    using fold_absorb [OF ok_empty, of ys xs] assms by simp
  also have "\<dots> = merge (fold add xs empty) (fold add ys empty)"
    using fold_append_merge [of xs ys] by simp
  also have "\<dots> = merge (fold add ys empty) (fold add xs empty)"
    by (rule merge_commute) (simp_all add: ok_fold ok_empty)
  also have "\<dots> = fold add xs (fold add ys empty)"
    using fold_append_merge [of ys xs] by simp
  also have "\<dots> = fold add ys empty"
    using fold_absorb [OF ok_empty, of xs ys] assms by simp
  finally show ?thesis .
qed

end

lemma hll_rank_bounds: "1 \<le> hll_rank p key" "hll_rank p key \<le> 64 - p + 1"
  by (auto simp: hll_rank_def Let_def)

lemma unat_hll_rank: "unat (of_nat (hll_rank p key) :: byte) = hll_rank p key"
proof -
  have "hll_rank p key < 2 ^ 8"
    using hll_rank_bounds(2) [of p key] by (rule le_less_trans) simp
  then show ?thesis by (simp add: unat_of_nat take_bit_nat_eq_self)
qed

lemma hll_index_less: "p \<le> 64 \<Longrightarrow> hll_index p key < 2 ^ p"
proof -
  assume p: "p \<le> 64"
  have u: "unat (hash64 key) < 2 ^ 64"
    using unsigned_less [of "hash64 key", where ?'a = nat] by simp
  then have "unat (hash64 key) < 2 ^ (64 - p) * 2 ^ p"
    using p by (simp flip: power_add)
  with u show ?thesis
    by (subst hll_index_def, subst unsigned_drop_bit_eq, subst drop_bit_eq_div)
      (simp add: take_bit_nat_eq_self less_mult_imp_div_less mult.commute)
qed

lemma length_merge_regs [simp]: "length (merge_regs rs qs) = min (length rs) (length qs)"
  by (simp add: merge_regs_def)

lemma nth_merge_regs [simp]:
  "i < length rs \<Longrightarrow> i < length qs \<Longrightarrow> merge_regs rs qs ! i = max (rs ! i) (qs ! i)"
  by (simp add: merge_regs_def)

lemma length_add_key [simp]: "length (add_key p key rs) = length rs"
  by (simp add: add_key_def)

lemma nth_add_key:
  "i < length rs \<Longrightarrow> add_key p key rs ! i =
     (if i = hll_index p key then max (rs ! i) (of_nat (hll_rank p key)) else rs ! i)"
  by (cases "i = hll_index p key") (auto simp: add_key_def)

lemma unat_max: "unat (max (a :: byte) b) = max (unat a) (unat b)"
  by (simp add: max_def word_le_nat_alt)

lemma regs_ok_add_key: "regs_ok p rs \<Longrightarrow> regs_ok p (add_key p key rs)"
  using hll_rank_bounds [of p key]
  by (auto simp: regs_ok_def all_set_conv_all_nth nth_add_key unat_max unat_hll_rank)

lemma length_regs: "regs_ok p rs \<Longrightarrow> length rs = 2 ^ p"
  by (simp add: regs_ok_def)

lemma regs_ok_merge: "regs_ok p rs \<Longrightarrow> regs_ok p qs \<Longrightarrow> regs_ok p (merge_regs rs qs)"
  by (auto simp: regs_ok_def all_set_conv_all_nth unat_max)

lemma merge_add_key:
  assumes "length rs = length qs"
  shows "add_key p k (merge_regs rs qs) = merge_regs (add_key p k rs) qs"
proof (rule nth_equalityI)
  fix i assume "i < length (add_key p k (merge_regs rs qs))"
  then have i: "i < length rs" "i < length qs" using assms by simp_all
  then show "add_key p k (merge_regs rs qs) ! i = merge_regs (add_key p k rs) qs ! i"
    using assms by (simp add: nth_add_key ac_simps)
qed (simp add: assms)

interpretation hs: sketch "replicate (2 ^ p) 0" "add_key p" merge_regs "regs_ok p" for p
proof
  show "regs_ok p (replicate (2 ^ p) 0)"
    by (simp add: regs_ok_def)
  show "add_key p k (merge_regs s t) = merge_regs (add_key p k s) t" if "regs_ok p s" "regs_ok p t" for k s t
    using that by (simp add: regs_ok_def merge_add_key)
qed (auto simp: regs_ok_add_key regs_ok_merge length_regs ac_simps intro!: nth_equalityI)

subsection \<open>The operations on a sketch\<close>

lemma Add_eq:
  assumes "hll_ok h"
  shows "Add h key = Some (h\<lparr>registers := add_key (hll_p h) key (registers h)\<rparr>)"
proof -
  let ?p = "hll_p h" and ?rs = "registers h"
  have i: "hll_index ?p key < length ?rs"
    using assms hll_index_less [of ?p key] by (simp add: hll_ok_def regs_ok_def)
  have bits: "hll_bits h = 64 - ?p" using assms by (simp add: hll_ok_def)
  have "?rs[hll_index ?p key := max (?rs ! hll_index ?p key) (of_nat (hll_rank ?p key))] =
      (if of_nat (hll_rank ?p key) > ?rs ! hll_index ?p key
       then ?rs[hll_index ?p key := of_nat (hll_rank ?p key)] else ?rs)"
    using i by (auto simp: max_def not_less)
  then show ?thesis
    using i unfolding Add_def add_key_def Let_def bits hll_rank_def hll_index_def by auto
qed

lemma hll_ok_add_key:
  "hll_ok h \<Longrightarrow> hll_ok (h\<lparr>registers := add_key (hll_p h) key (registers h)\<rparr>)"
  by (simp add: hll_ok_def regs_ok_add_key)

lemma Merge_eq:
  assumes "hll_ok h" "hll_ok other" "hll_p other = hll_p h"
  shows "Merge h other = Some (h\<lparr>registers := merge_regs (registers h) (registers other)\<rparr>)"
proof -
  have "(\<lambda>r q :: byte. if q > r then q else r) = max"
    by (auto simp: fun_eq_iff max_def)
  then show ?thesis
    using assms by (simp add: Merge_def merge_regs_def hll_ok_def regs_ok_def)
qed

lemma hll_ok_merge:
  "hll_ok h \<Longrightarrow> hll_ok other \<Longrightarrow> hll_p other = hll_p h \<Longrightarrow>
   hll_ok (h\<lparr>registers := merge_regs (registers h) (registers other)\<rparr>)"
  by (simp add: hll_ok_def regs_ok_merge)

lemma Clone_eq [simp]: "Clone h = h"
  by (simp add: Clone_def)

lemma fl_1 [simp]: "fl 1 = 1"
  using fl_of_nat [of 1] by simp

lemma fl_le_1: "0 \<le> x \<Longrightarrow> x \<le> 1 \<Longrightarrow> fl x \<le> 1"
  using fl_mono [of x 1] by simp

lemma fl_ge_1: "1 \<le> x \<Longrightarrow> 1 \<le> fl x"
  using fl_mono [of 1 x] by simp

lemma alpha_bounds:
  fixes m :: rat
  assumes "0 < m"
  defines "a \<equiv> fl (fl (7213 / 10000) / fl (1 + fl (fl (1079 / 1000) / m)))"
  shows "0 < a" "a \<le> 1"
proof -
  let ?d = "fl (1 + fl (fl (1079 / 1000) / m))"
  have d: "1 \<le> ?d"
    using assms by (auto intro!: fl_ge_1 fl_nonneg divide_nonneg_pos)
  have n: "0 < fl (7213 / 10000)" "fl (7213 / 10000) \<le> 1"
    by (auto intro!: fl_pos fl_le_1)
  then have "0 < fl (7213 / 10000) / ?d" "fl (7213 / 10000) / ?d \<le> 1"
    using d by (auto simp: divide_le_eq)
  then show "0 < a" "a \<le> 1"
    unfolding a_def by (auto intro!: fl_pos fl_le_1)
qed

lemma hll_New_ok: "hll_New p = Some h \<Longrightarrow> hll_ok h \<and> hll_p h = p \<and> registers h = replicate (2 ^ p) 0"
  using alpha_bounds [of "fl (2 ^ p)"]
  by (auto simp: hll_New_def hll_ok_def regs_ok_def Let_def fl_pos split: if_splits)

text \<open>\<open>for _, key := range keys { h.Add(key) }\<close>\<close>

fun add_all :: "HyperLogLog \<Rightarrow> string list \<Rightarrow> HyperLogLog option" where
  "add_all h [] = Some h"
| "add_all h (k # ks) = Option.bind (Add h k) (\<lambda>h'. add_all h' ks)"

lemma add_all_eq:
  "hll_ok h \<Longrightarrow> add_all h ks = Some (h\<lparr>registers := fold (add_key (hll_p h)) ks (registers h)\<rparr>)"
  by (induction ks arbitrary: h) (simp_all add: Add_eq hll_ok_add_key)

subsection \<open>The estimate\<close>

lemma zeros_loop: "snd (count_loop rs raw z) = z + length (filter (\<lambda>r. r = 0) rs)"
  by (induction rs raw z rule: count_loop.induct) auto

text \<open>The summand of a register.\<close>

definition reg_term :: "byte \<Rightarrow> float64" where
  "reg_term r = fl (1 / fl (of_nat (unat (push_bit (unat r) 1 :: u64))))"

lemma count_loop_Cons:
  "count_loop (r # rs) raw z = count_loop rs (fl (raw + reg_term r)) (if r = 0 then z + 1 else z)"
  by (simp only: count_loop.simps reg_term_def)

lemma reg_term_nonneg: "0 \<le> reg_term r"
  unfolding reg_term_def by (intro fl_nonneg divide_nonneg_nonneg of_nat_0_le_iff zero_le_one)

lemma unat_shift_1: "n < 64 \<Longrightarrow> unat (push_bit n 1 :: u64) = 2 ^ n"
  by (subst unsigned_push_bit_eq) (simp add: take_bit_nat_eq_self)

lemma reg_term_pos: "unat r < 64 \<Longrightarrow> 0 < reg_term r"
  unfolding reg_term_def by (subst unat_shift_1) (auto intro!: fl_pos divide_pos_pos)

lemma raw_loop_pos: "0 < raw \<Longrightarrow> 0 < fst (count_loop rs raw z)"
proof (induction rs arbitrary: raw z)
  case (Cons r rs)
  have "0 < fl (raw + reg_term r)"
    using Cons.prems reg_term_nonneg by (intro fl_pos add_pos_nonneg)
  then show ?case unfolding count_loop_Cons by (rule Cons.IH)
qed simp

lemma raw_pos: "rs \<noteq> [] \<Longrightarrow> \<forall>r \<in> set rs. unat r < 64 \<Longrightarrow> 0 < fst (count_loop rs 0 z)"
  by (cases rs) (auto simp: count_loop_Cons reg_term_pos simp del: count_loop.simps
      intro!: raw_loop_pos fl_pos)

lemma hll_ok_raw_pos:
  assumes "hll_ok h"
  shows "0 < fst (count_loop (registers h) 0 0)"
proof (rule raw_pos)
  show "registers h \<noteq> []"
    using assms by (auto simp: hll_ok_def regs_ok_def)
  show "\<forall>r \<in> set (registers h). unat r < 64"
    using assms by (fastforce simp: hll_ok_def regs_ok_def)
qed

lemma hll_m_bounds: "hll_ok h \<Longrightarrow> 0 < hll_m h \<and> hll_m h \<le> 2 ^ 16"
  using power_increasing [of "hll_p h" 16 "2 :: nat"] by (simp add: hll_ok_def)

lemma fl_m: "hll_ok h \<Longrightarrow> fl (of_nat (hll_m h)) = of_nat (hll_m h)"
  using hll_m_bounds [of h] by (intro fl_of_nat) simp

lemma count_loop_replicate_0:
  "k + n < 2 ^ 53 \<Longrightarrow> count_loop (replicate n 0) (of_nat k) z = (of_nat (k + n), z + n)"
proof (induction n arbitrary: k z)
  case (Suc n)
  have "fl (of_nat k + 1) = of_nat (Suc k)"
    using fl_of_nat [of "Suc k"] Suc.prems by (simp add: add.commute)
  then show ?case
    using Suc.IH [of "Suc k" "z + 1"] Suc.prems by simp
qed simp

lemma small_estimate:
  fixes m a :: rat
  assumes "0 < m" "fl m = m" "fl (m * m) = m * m" "0 < a" "a \<le> 1"
  shows "fl (fl (fl (a * m) * m) / m) \<le> fl (5 / 2 * m)"
proof -
  have 1: "0 \<le> fl (a * m)" "fl (a * m) \<le> m"
    using fl_mono [of "a * m" m] assms by (auto intro!: fl_nonneg simp: mult_le_cancel_right1)
  have 2: "0 \<le> fl (fl (a * m) * m)" "fl (fl (a * m) * m) \<le> m * m"
    using fl_mono [of "fl (a * m) * m" "m * m"] 1 assms
    by (auto intro!: fl_nonneg simp: mult_right_mono)
  have "fl (fl (a * m) * m) / m \<le> 5 / 2 * m"
    using 2 assms by (simp add: divide_le_eq)
  then show ?thesis
    using 2 assms by (intro fl_mono divide_nonneg_pos) auto
qed

text \<open>Adding a key to a well-formed sketch never panics, keeps it well formed and raises exactly
  one register, the one the top \<open>p\<close> bits of the hash select, to the rank of the remaining bits.\<close>

lemma Add_registers:
  assumes "hll_ok h" "i < length (registers h)"
  shows "\<exists>h'. Add h key = Some h' \<and> hll_ok h' \<and> hll_p h' = hll_p h \<and>
    registers h' ! i = (if i = hll_index (hll_p h) key
      then max (registers h ! i) (of_nat (hll_rank (hll_p h) key)) else registers h ! i)"
  using assms by (simp add: Add_eq hll_ok_add_key nth_add_key)

text \<open>A sketch is a function of the set of keys: two sequences of additions with the same keys, in
  any order and with any repetitions, end in the same sketch.\<close>

lemma add_all_set:
  assumes "hll_New p = Some h" "set xs = set ys"
  shows "\<exists>h'. add_all h xs = Some h' \<and> add_all h ys = Some h'"
  using hll_New_ok [OF assms(1)] hs.fold_set_cong [OF assms(2), of p] by (auto simp: add_all_eq)

text \<open>C22: merging is union: merging the sketches of two sequences of keys gives the sketch of both
  sequences together, so the daily estimate counts a client seen in several hours once.\<close>

theorem Merge_union:
  assumes "hll_New p = Some h" "add_all h xs = Some a" "add_all h ys = Some b"
  shows "Merge a b = add_all h (xs @ ys)"
proof -
  note h = hll_New_ok [OF assms(1)]
  then have a: "a = h\<lparr>registers := fold (add_key p) xs (replicate (2 ^ p) 0)\<rparr>"
    and b: "b = h\<lparr>registers := fold (add_key p) ys (replicate (2 ^ p) 0)\<rparr>"
    using assms(2,3) by (simp_all add: add_all_eq)
  have "hll_ok a" "hll_ok b"
    using h hs.ok_fold [OF hs.ok_empty, of p] unfolding a b by (simp_all add: hll_ok_def)
  then show ?thesis
    using h hs.fold_append_merge [of p xs ys] by (simp add: Merge_eq add_all_eq a b)
qed

theorem Merge_union_witness:
  "\<exists>h a b. hll_New 4 = Some h \<and> add_all h [''a''] = Some a \<and> add_all h [''b''] = Some b
     \<and> Merge a b = add_all h [''a'', ''b'']"
proof -
  obtain h where h: "hll_New 4 = Some h" by (simp add: hll_New_def)
  then obtain a b where ab: "add_all h [''a''] = Some a" "add_all h [''b''] = Some b"
    using hll_New_ok [OF h] by (auto simp: add_all_eq simp del: add_all.simps)
  show ?thesis
    using Merge_union [OF h ab] h ab by auto
qed

text \<open>The estimate of a well-formed sketch divides by no zero (its harmonic sum is positive) and
  is not negative, for any logarithm that is not negative from 1 on; and the estimate of a new sketch
  is 0 when \<open>math.Log(1) = 0\<close>.\<close>

lemma Count_nonneg:
  assumes "hll_ok h" "\<forall>x \<ge> 1. 0 \<le> Log x" "Log 1 = 0"
  shows "0 < fst (count_loop (registers h) 0 0) \<and> 0 \<le> Count Log h
    \<and> (registers h = replicate (hll_m h) 0 \<longrightarrow> Count Log h = 0)"
proof (intro conjI impI)
  let ?raw = "fst (count_loop (registers h) 0 0)" and ?z = "snd (count_loop (registers h) 0 0)"
  let ?m = "of_nat (hll_m h) :: rat"
  show raw: "0 < ?raw" by (rule hll_ok_raw_pos) fact
  note mb = hll_m_bounds [OF assms(1)]
  have "length (registers h) = hll_m h"
    using assms(1) by (simp add: hll_ok_def regs_ok_def)
  then have z: "?z \<le> hll_m h"
    using zeros_loop [of "registers h" 0 0] length_filter_le [of "\<lambda>r. r = 0" "registers h"] by simp
  have "0 \<le> fl (?m * Log (fl (?m / fl (of_nat ?z))))" if "0 < ?z"
  proof -
    have "1 \<le> ?m / of_nat ?z" using that z by simp
    moreover have "fl (of_nat ?z) = of_nat ?z" using z mb by (intro fl_of_nat) simp
    ultimately show ?thesis
      using assms(2) by (auto intro!: fl_nonneg mult_nonneg_nonneg fl_ge_1)
  qed
  moreover have "0 \<le> fl (fl (fl (hll_alpha h * ?m) * ?m) / ?raw)"
    using raw assms(1) by (intro fl_nonneg divide_nonneg_pos mult_nonneg_nonneg)
      (auto simp: hll_ok_def intro!: fl_nonneg)
  ultimately show "0 \<le> Count Log h"
    by (cases "count_loop (registers h) 0 0") (simp add: Count_def fl_m [OF assms(1)] Let_def)
next
  let ?m = "of_nat (hll_m h) :: rat"
  assume reg: "registers h = replicate (hll_m h) 0"
  note mb = hll_m_bounds [OF assms(1)]
  have loop: "count_loop (registers h) 0 0 = (?m, hll_m h)"
    using count_loop_replicate_0 [of 0 "hll_m h" 0] mb reg by simp
  have "hll_m h * hll_m h \<le> 2 ^ 16 * 2 ^ 16"
    using mb by (intro mult_le_mono) auto
  then have "fl (?m * ?m) = ?m * ?m"
    using fl_of_nat [of "hll_m h * hll_m h"] by simp
  then have "fl (fl (fl (hll_alpha h * ?m) * ?m) / ?m) \<le> fl (5 / 2 * ?m)"
    using mb assms(1) fl_m [OF assms(1)] by (intro small_estimate) (auto simp: hll_ok_def)
  then show "Count Log h = 0"
    using mb assms(3) by (simp add: Count_def loop fl_m [OF assms(1)] Let_def)
qed

end
