(* ===== verification/Asn.thy ===== *)
theory Asn
  imports Prelude
begin

section \<open>internal/aggregate/asn.go: ranking autonomous systems\<close>

text \<open>
  The cumulative totals per AS number, their pruning, the top-\<open>n\<close> set and the folding of everything
  else to \<open>other\<close> (\<open>internal/aggregate/asn.go\<close>). \<open>sort.Slice\<close> is modelled by the insertion sort
  it runs on short slices. On longer ones it only promises some sorted permutation, and as the
  order of the entries of a map is open too, no result is lost: every sorted permutation is the
  insertion sort of itself (\<open>sort_Slice_sorted\<close> below). What a \<open>less\<close> function has to satisfy is
  the locale \<open>slice_less\<close>, extended by \<open>slice_total\<close> for an order without ties.
\<close>

subsection \<open>sort.Slice\<close>

text \<open>The sorted prefix is kept in reverse: a new element moves left past every element it is less
  than.\<close>

fun slice_insert :: "('a \<Rightarrow> 'a \<Rightarrow> bool) \<Rightarrow> 'a \<Rightarrow> 'a list \<Rightarrow> 'a list" where
  "slice_insert lessf x [] = [x]"
| "slice_insert lessf x (y # ys) = (if lessf x y then y # slice_insert lessf x ys else x # y # ys)"

definition sort_Slice :: "('a \<Rightarrow> 'a \<Rightarrow> bool) \<Rightarrow> 'a list \<Rightarrow> 'a list" where
  "sort_Slice lessf xs = rev (fold (slice_insert lessf) xs [])"

lemma mset_slice_insert [simp]: "mset (slice_insert lessf x ys) = add_mset x (mset ys)"
  by (induction ys) auto

lemma mset_sort_Slice [simp]: "mset (sort_Slice lessf xs) = mset xs"
proof -
  have "mset (fold (slice_insert lessf) xs acc) = mset xs + mset acc" for acc
    by (induction xs arbitrary: acc) auto
  then show ?thesis by (simp add: sort_Slice_def)
qed

lemma set_sort_Slice [simp]: "set (sort_Slice lessf xs) = set xs"
  by (rule mset_eq_setD) simp

lemma length_sort_Slice [simp]: "length (sort_Slice lessf xs) = length xs"
  by (rule mset_eq_length) simp

lemma distinct_sort_Slice [simp]: "distinct (sort_Slice lessf xs) \<longleftrightarrow> distinct xs"
  by (rule mset_eq_imp_distinct_iff) simp

locale slice_less =
  fixes lessf :: "'a \<Rightarrow> 'a \<Rightarrow> bool"
  assumes irrefl: "\<not> lessf a a"
    and trans: "lessf a b \<Longrightarrow> lessf b c \<Longrightarrow> lessf a c"
    and weak: "\<not> lessf a b \<Longrightarrow> \<not> lessf b c \<Longrightarrow> \<not> lessf a c"
begin

lemma asym: "lessf a b \<Longrightarrow> \<not> lessf b a"
  using irrefl trans by blast

abbreviation sorted :: "'a list \<Rightarrow> bool" where
  "sorted \<equiv> sorted_wrt (\<lambda>a b. \<not> lessf b a)"

lemma set_slice_insert: "set (slice_insert lessf x ys) = insert x (set ys)"
  by (induction ys) auto

lemma sorted_slice_insert:
  "sorted_wrt (\<lambda>a b. \<not> lessf a b) ys \<Longrightarrow> sorted_wrt (\<lambda>a b. \<not> lessf a b) (slice_insert lessf x ys)"
  by (induction ys) (auto simp: set_slice_insert dest: asym weak)

lemma sorted_sort_Slice: "sorted (sort_Slice lessf xs)"
proof -
  have "sorted_wrt (\<lambda>a b. \<not> lessf a b) acc \<Longrightarrow>
      sorted_wrt (\<lambda>a b. \<not> lessf a b) (fold (slice_insert lessf) xs acc)" for acc
    by (induction xs arbitrary: acc) (auto intro: sorted_slice_insert)
  from this [of "[]"] show ?thesis
    by (simp add: sort_Slice_def sorted_wrt_rev)
qed

lemma sort_Slice_sorted: "sorted xs \<Longrightarrow> sort_Slice lessf xs = xs"
proof -
  have "sorted (rev acc @ xs) \<Longrightarrow> fold (slice_insert lessf) xs acc = rev xs @ acc" for acc
  proof (induction xs arbitrary: acc)
    case (Cons x xs)
    have "\<not> lessf x (hd acc)" if "acc \<noteq> []"
      using Cons.prems hd_in_set [OF that] by (auto simp: sorted_wrt_append)
    then have "slice_insert lessf x acc = x # acc"
      by (cases acc) auto
    then show ?case using Cons.IH [of "x # acc"] Cons.prems by simp
  qed simp
  from this [of "[]"] show "sorted xs \<Longrightarrow> ?thesis" by (simp add: sort_Slice_def)
qed

text \<open>Nothing after position \<open>n\<close> comes before anything in the first \<open>n\<close> positions.\<close>

lemma take_before_drop:
  "x \<in> set (take n (sort_Slice lessf xs)) \<Longrightarrow> y \<in> set (drop n (sort_Slice lessf xs)) \<Longrightarrow> \<not> lessf y x"
proof -
  assume xy: "x \<in> set (take n (sort_Slice lessf xs))" "y \<in> set (drop n (sort_Slice lessf xs))"
  have "sorted (take n (sort_Slice lessf xs) @ drop n (sort_Slice lessf xs))"
    by (simp add: sorted_sort_Slice)
  then show "\<not> lessf y x"
    using xy unfolding sorted_wrt_append by blast
qed

end

locale slice_total = slice_less +
  assumes total: "a \<noteq> b \<Longrightarrow> lessf a b \<or> lessf b a"
begin

lemma sorted_nth_less_iff:
  assumes "sorted s" "distinct s" "i < length s" "j < length s"
  shows "lessf (s ! j) (s ! i) \<longleftrightarrow> j < i"
proof
  assume "lessf (s ! j) (s ! i)"
  then show "j < i"
    using sorted_wrt_nth_less [OF assms(1), of i j] assms(4) irrefl [of "s ! i"]
    by (cases j i rule: linorder_cases) auto
next
  assume "j < i"
  then have "\<not> lessf (s ! i) (s ! j)" "s ! j \<noteq> s ! i"
    using sorted_wrt_nth_less [OF assms(1), of j i] assms by (auto simp: nth_eq_iff_index_eq)
  then show "lessf (s ! j) (s ! i)" using total by blast
qed

lemma sorted_rank:
  assumes "sorted s" "distinct s" "i < length s"
  shows "card {y \<in> set s. lessf y (s ! i)} = i"
proof -
  have "{y \<in> set s. lessf y (s ! i)} = (!) s ` {j. j < i}"
  proof (intro equalityI subsetI)
    fix y assume "y \<in> {y \<in> set s. lessf y (s ! i)}"
    then obtain j where "j < length s" "y = s ! j" "lessf (s ! j) (s ! i)"
      by (auto simp: in_set_conv_nth)
    then show "y \<in> (!) s ` {j. j < i}"
      using sorted_nth_less_iff [OF assms, of j] by blast
  next
    fix y assume "y \<in> (!) s ` {j. j < i}"
    then obtain j where "j < i" "y = s ! j" by blast
    then show "y \<in> {y \<in> set s. lessf y (s ! i)}"
      using sorted_nth_less_iff [OF assms, of j] assms(3) by simp
  qed
  moreover have "inj_on ((!) s) {j. j < i}"
    using assms by (auto simp: inj_on_def nth_eq_iff_index_eq)
  ultimately show ?thesis by (simp add: card_image)
qed

text \<open>Without ties the first \<open>n\<close> elements are those with fewer than \<open>n\<close> elements before them.\<close>

lemma in_take_iff:
  assumes "distinct xs"
  shows "x \<in> set (take n (sort_Slice lessf xs)) \<longleftrightarrow> x \<in> set xs \<and> card {y \<in> set xs. lessf y x} < n"
proof -
  let ?s = "sort_Slice lessf xs"
  have s: "sorted ?s" "distinct ?s" "set ?s = set xs"
    using assms by (simp_all add: sorted_sort_Slice)
  have rank: "card {y \<in> set xs. lessf y (?s ! i)} = i" if "i < length ?s" for i
    using sorted_rank [OF s(1,2) that] by simp
  show ?thesis
  proof
    assume "x \<in> set (take n ?s)"
    then obtain i where "i < n" "i < length ?s" "x = ?s ! i"
      by (auto simp: in_set_conv_nth)
    then show "x \<in> set xs \<and> card {y \<in> set xs. lessf y x} < n"
      using rank [of i] s(3) nth_mem [of i ?s] by simp
  next
    assume x: "x \<in> set xs \<and> card {y \<in> set xs. lessf y x} < n"
    then obtain i where "i < length ?s" "x = ?s ! i"
      using s(3) by (metis in_set_conv_nth)
    then show "x \<in> set (take n ?s)"
      using x rank [of i] by (auto simp: in_set_conv_nth)
  qed
qed

text \<open>Leaving out elements after the first \<open>n\<close> does not change the first \<open>n\<close>.\<close>

lemma take_sort_subset:
  assumes "distinct xs" "distinct ys" "set ys \<subseteq> set xs" "set (take n (sort_Slice lessf xs)) \<subseteq> set ys"
  shows "set (take n (sort_Slice lessf ys)) = set (take n (sort_Slice lessf xs))"
proof (rule sym, rule card_seteq)
  have "card {z \<in> set ys. lessf z x} \<le> card {z \<in> set xs. lessf z x}" for x
    using assms(3) by (intro card_mono) auto
  then show "set (take n (sort_Slice lessf xs)) \<subseteq> set (take n (sort_Slice lessf ys))"
    using assms(4) in_take_iff [OF assms(1)] in_take_iff [OF assms(2)] by (meson le_less_trans subset_iff)
  have "length ys \<le> length xs"
    using assms by (metis distinct_card card_mono List.finite_set)
  then show "card (set (take n (sort_Slice lessf ys))) \<le> card (set (take n (sort_Slice lessf xs)))"
    using assms(1,2) by (simp add: distinct_card)
qed simp

end

subsection \<open>The operations\<close>

definition asn_less :: "int \<times> int \<Rightarrow> int \<times> int \<Rightarrow> bool" where
  "asn_less x y = (if snd x \<noteq> snd y then snd x > snd y else FormatInt (fst x) < FormatInt (fst y))"

definition count_less :: "int \<times> int \<Rightarrow> int \<times> int \<Rightarrow> bool" where
  "count_less x y \<longleftrightarrow> snd x > snd y"

definition topNASNs :: "(int, int) gomap \<Rightarrow> int \<Rightarrow> (int, bool) gomap" where
  "topNASNs totals n =
     (let items = sort_Slice asn_less totals;
          n = (if n > int (length items) then int (length items) else n)
      in foldl (\<lambda>out i. AList.update (fst (items ! i)) True out) [] [0..<nat n])"

definition pruneToLargest :: "(int, int) gomap \<Rightarrow> int \<Rightarrow> (int, int) gomap" where
  "pruneToLargest totals maxn =
     (let items = sort_Slice count_less totals;
          maxn = (if maxn > int (length items) then int (length items) else maxn)
      in foldl (\<lambda>out i. AList.update (fst (items ! i)) (snd (items ! i)) out) [] [0..<nat maxn])"

text \<open>A missing key of a Go \<open>map[int64]bool\<close> reads as \<open>false\<close>.\<close>

definition in_top :: "(int, bool) gomap \<Rightarrow> int \<Rightarrow> bool" where
  "in_top topASNs asn = (case map_of topASNs asn of None \<Rightarrow> False | Some b \<Rightarrow> b)"

definition foldASN :: "int \<Rightarrow> bool \<Rightarrow> string \<Rightarrow> (int, bool) gomap \<Rightarrow> string \<times> string" where
  "foldASN asn hasASN asOrg topASNs =
     (if \<not> hasASN then (''unknown'', ''unknown'')
      else if in_top topASNs asn then (FormatInt asn, asOrg)
      else (''other'', ''other''))"

interpretation asn: slice_total asn_less
  by unfold_locales (auto simp: asn_less_def split: if_splits)

interpretation cnt: slice_less count_less
  by unfold_locales (auto simp: count_less_def)

subsection \<open>Lemmas\<close>

lemma update_new: "k \<notin> fst ` set m \<Longrightarrow> AList.update k v m = m @ [(k, v)]"
  by (induction m) auto

text \<open>A loop that stores the first \<open>n\<close> entries of a slice with distinct keys.\<close>

lemma foldl_update_nth:
  assumes "n \<le> length items" "distinct (map fst items)"
  shows "foldl (\<lambda>out i. AList.update (fst (items ! i)) (f (items ! i)) out) [] [0..<n] =
    map (\<lambda>it. (fst it, f it)) (take n items)"
  using assms(1)
proof (induction n)
  case (Suc n)
  have keys: "fst ` set (map (\<lambda>it. (fst it, f it)) (take n items)) = set (take n (map fst items))"
    by (force simp: take_map)
  have "fst (items ! n) \<notin> fst ` set (map (\<lambda>it. (fst it, f it)) (take n items))"
    using distinct_take [OF assms(2), of "Suc n"] Suc.prems
    unfolding keys by (simp add: take_Suc_conv_app_nth)
  then have "AList.update (fst (items ! n)) (f (items ! n)) (map (\<lambda>it. (fst it, f it)) (take n items))
      = map (\<lambda>it. (fst it, f it)) (take n items) @ [(fst (items ! n), f (items ! n))]"
    by (rule update_new)
  then show ?case using Suc by (simp add: take_Suc_conv_app_nth)
qed simp

lemma map_ok_take: "map_ok m \<Longrightarrow> map_ok (map (\<lambda>it. (fst it, f it)) (take n m))"
  by (simp add: map_ok_def comp_def flip: take_map)

lemma map_ok_sort_Slice: "map_ok (sort_Slice lt m) \<longleftrightarrow> map_ok m"
  unfolding map_ok_def by (rule mset_eq_imp_distinct_iff) simp

lemma clamp_nat: "nat (if k > int l then int l else k) = min l (nat k)"
  by auto

lemma take_min_length: "take (min (length xs) k) xs = take k xs"
  by (simp add: min_def)

lemma topNASNs_eq:
  assumes "map_ok totals"
  shows "topNASNs totals n = map (\<lambda>it. (fst it, True)) (take (nat n) (sort_Slice asn_less totals))"
proof -
  let ?items = "sort_Slice asn_less totals"
  have ok: "distinct (map fst ?items)"
    using assms by (simp add: map_ok_sort_Slice flip: map_ok_def)
  show ?thesis
    using foldl_update_nth [OF _ ok, of "min (length ?items) (nat n)" "\<lambda>_. True"]
    unfolding topNASNs_def Let_def clamp_nat take_min_length by simp
qed

lemma pruneToLargest_eq:
  assumes "map_ok totals"
  shows "pruneToLargest totals k = take (nat k) (sort_Slice count_less totals)"
proof -
  let ?items = "sort_Slice count_less totals"
  have ok: "distinct (map fst ?items)"
    using assms by (simp add: map_ok_sort_Slice flip: map_ok_def)
  show ?thesis
    using foldl_update_nth [OF _ ok, of "min (length ?items) (nat k)" snd]
    unfolding pruneToLargest_def Let_def clamp_nat take_min_length by simp
qed

lemma in_top_map: "in_top (map (\<lambda>it. (fst it, True)) its) asn \<longleftrightarrow> asn \<in> fst ` set its"
  by (induction its) (auto simp: in_top_def)

lemma map_ok_set_fst:
  "map_ok m \<Longrightarrow> asn \<in> fst ` {x \<in> set m. P x} \<longleftrightarrow> (\<exists>c. map_of m asn = Some c \<and> P (asn, c))"
  by (force simp: map_ok_def map_of_eq_Some_iff)

text \<open>The rank of an entry: how many entries come before it.\<close>

definition asn_rank :: "(int, int) gomap \<Rightarrow> int \<times> int \<Rightarrow> nat" where
  "asn_rank totals x = card {y \<in> set totals. asn_less y x}"

lemma map_ok_distinct: "map_ok m \<Longrightarrow> distinct m"
  by (simp add: map_ok_def distinct_map)

lemma in_topNASNs:
  assumes "map_ok totals"
  shows "in_top (topNASNs totals n) asn \<longleftrightarrow>
    (\<exists>c. map_of totals asn = Some c \<and> asn_rank totals (asn, c) < nat n)"
proof -
  have "set (take (nat n) (sort_Slice asn_less totals)) = {x \<in> set totals. asn_rank totals x < nat n}"
    using asn.in_take_iff [OF map_ok_distinct [OF assms]] by (auto simp: asn_rank_def)
  then show ?thesis
    using map_ok_set_fst [OF assms] by (simp add: topNASNs_eq [OF assms] in_top_map)
qed

lemma card_less_count_le:
  "finite S \<Longrightarrow> card {y \<in> S. asn_less y x} \<le> card {y \<in> S. snd x \<le> snd y}"
  by (rule card_mono) (auto simp: asn_less_def split: if_splits)

text \<open>C24: \<open>topNASNs\<close> selects exactly the AS numbers with fewer than \<open>n\<close> entries before them in the
  order of descending totals, ties broken by the decimal string: at most \<open>n\<close> of them, whatever the
  order in which the map is visited.\<close>

theorem topNASNs_ranks:
  assumes "map_ok totals" "mset totals' = mset totals"
  shows "(in_top (topNASNs totals n) asn \<longleftrightarrow>
      (\<exists>c. map_of totals asn = Some c \<and> card {y \<in> set totals. asn_less y (asn, c)} < nat n))
    \<and> in_top (topNASNs totals' n) asn = in_top (topNASNs totals n) asn
    \<and> length (topNASNs totals n) = min (nat n) (length totals)"
proof -
  have ok': "map_ok totals'"
    using assms mset_eq_imp_distinct_iff [of "map fst totals'" "map fst totals"] by (simp add: map_ok_def)
  have "set totals' = set totals" using assms(2) by (rule mset_eq_setD)
  moreover from this have "map_of totals' = map_of totals"
    using assms(1) ok' by (intro map_of_eqI) (auto simp: map_ok_def map_of_eq_Some_iff)
  ultimately show ?thesis
    using in_topNASNs [OF assms(1), of n asn] in_topNASNs [OF ok', of n asn]
      topNASNs_eq [OF assms(1), of n] by (simp add: asn_rank_def min.commute)
qed

theorem topNASNs_ranks_witness:
  "in_top (topNASNs [(10, 5), (7, 9), (9, 5)] 2) 10
     \<and> \<not> in_top (topNASNs [(9, 5), (10, 5), (7, 9)] 2) 9"
proof -
  have ok: "map_ok [(10, 5), (7, 9), (9 :: int, 5 :: int)]" by (simp add: map_ok_def)
  have perm: "mset [(9, 5), (10, 5), (7, 9)] = mset [(10, 5), (7, 9), (9 :: int, 5 :: int)]"
    by simp
  have "in_top (topNASNs [(10, 5), (7, 9), (9, 5)] 2) 10"
    "\<not> in_top (topNASNs [(10, 5), (7, 9), (9, 5)] 2) 9" by code_simp+
  then show ?thesis
    using topNASNs_ranks [OF ok perm, of 2 9] by simp
qed

lemma pruneToLargest_subset: "map_ok totals \<Longrightarrow> set (pruneToLargest totals k) \<subseteq> set totals"
  using set_take_subset [of "nat k" "sort_Slice count_less totals"] by (simp add: pruneToLargest_eq)

lemma map_ok_pruneToLargest: "map_ok totals \<Longrightarrow> map_ok (pruneToLargest totals k)"
  using map_ok_sort_Slice [of count_less totals] by (simp add: pruneToLargest_eq map_ok_def flip: take_map)

lemma length_pruneToLargest:
  "map_ok totals \<Longrightarrow> length (pruneToLargest totals k) = min (nat k) (length totals)"
  by (simp add: pruneToLargest_eq min.commute)

lemma pruned_is_smaller:
  assumes "map_ok totals" "x \<in> set (pruneToLargest totals k)" "y \<in> set totals"
    "y \<notin> set (pruneToLargest totals k)"
  shows "snd y \<le> snd x"
proof -
  let ?s = "sort_Slice count_less totals"
  have "set ?s = set (take (nat k) ?s) \<union> set (drop (nat k) ?s)"
    by (metis append_take_drop_id set_append)
  then have "y \<in> set (drop (nat k) ?s)" "x \<in> set (take (nat k) ?s)"
    using assms by (auto simp: pruneToLargest_eq)
  then show ?thesis
    using cnt.take_before_drop [of x "nat k" totals y] by (simp add: count_less_def)
qed

text \<open>An entry survives when at most \<open>k\<close> entries have a total as large as its own.\<close>

lemma pruneToLargest_keeps:
  assumes "map_ok totals" "x \<in> set totals" "card {y \<in> set totals. snd x \<le> snd y} \<le> nat k"
  shows "x \<in> set (pruneToLargest totals k)"
proof (rule ccontr)
  let ?p = "pruneToLargest totals k"
  assume out: "x \<notin> set ?p"
  have d: "distinct ?p" by (rule map_ok_distinct [OF map_ok_pruneToLargest [OF assms(1)]])
  have "length ?p = nat k"
  proof (rule ccontr)
    assume "length ?p \<noteq> nat k"
    then have "card (set totals) \<le> card (set ?p)"
      using length_pruneToLargest [OF assms(1), of k] d map_ok_distinct [OF assms(1)]
      by (simp add: distinct_card min_def split: if_splits)
    then have "set ?p = set totals"
      using pruneToLargest_subset [OF assms(1), of k] by (intro card_seteq) auto
    with out assms(2) show False by simp
  qed
  moreover have "insert x (set ?p) \<subseteq> {y \<in> set totals. snd x \<le> snd y}"
    using pruned_is_smaller [OF assms(1) _ assms(2) out] pruneToLargest_subset [OF assms(1), of k]
      assms(2) by auto
  then have "card (insert x (set ?p)) \<le> card {y \<in> set totals. snd x \<le> snd y}"
    by (intro card_mono) auto
  ultimately show False
    using out d assms(3) by (simp add: distinct_card)
qed

text \<open>Pruning keeps the \<open>k\<close> largest totals unchanged: it returns \<open>min k len\<close> entries of the map,
  and no entry it drops is larger than one it keeps.\<close>

lemma pruneToLargest_largest:
  assumes "map_ok totals"
  shows "length (pruneToLargest totals k) = min (nat k) (length totals)
    \<and> map_ok (pruneToLargest totals k) \<and> set (pruneToLargest totals k) \<subseteq> set totals
    \<and> (\<forall>x \<in> set (pruneToLargest totals k). \<forall>y \<in> set totals - set (pruneToLargest totals k). snd y \<le> snd x)"
  using assms pruned_is_smaller [OF assms]
  by (simp add: length_pruneToLargest map_ok_pruneToLargest pruneToLargest_subset)

text \<open>C36: pruning does not change the top-\<open>n\<close> set as long as the totals at the cut do not tie: if for
  every selected AS number at most \<open>k\<close> entries have a total as large as its own, the top \<open>n\<close> of the
  pruned totals are the top \<open>n\<close> of all totals.\<close>

theorem prune_preserves_top:
  assumes ok: "map_ok totals"
    and no_tie: "\<forall>x \<in> set totals. asn_rank totals x < nat n \<longrightarrow>
      card {y \<in> set totals. snd x \<le> snd y} \<le> nat k"
  shows "in_top (topNASNs (pruneToLargest totals k) n) asn = in_top (topNASNs totals n) asn"
proof -
  let ?p = "pruneToLargest totals k"
  have okp: "map_ok ?p" using ok by (rule map_ok_pruneToLargest)
  have "set (take (nat n) (sort_Slice asn_less totals)) \<subseteq> set ?p"
    using no_tie pruneToLargest_keeps [OF ok] asn.in_take_iff [OF map_ok_distinct [OF ok]]
    by (auto simp: asn_rank_def)
  then have "set (take (nat n) (sort_Slice asn_less ?p)) = set (take (nat n) (sort_Slice asn_less totals))"
    using ok okp by (intro asn.take_sort_subset) (simp_all add: map_ok_distinct pruneToLargest_subset)
  then show ?thesis
    using ok okp by (simp add: topNASNs_eq in_top_map)
qed

theorem prune_preserves_top_witness:
  "in_top (topNASNs (pruneToLargest [(10, 5), (7, 9), (9, 5)] 1) 1) 7"
proof -
  have ok: "map_ok [(10, 5), (7, 9), (9 :: int, 5 :: int)]" by (simp add: map_ok_def)
  have no_tie: "\<forall>x \<in> set [(10, 5), (7, 9), (9 :: int, 5 :: int)]. asn_rank [(10, 5), (7, 9), (9, 5)] x < nat 1 \<longrightarrow>
      card {y \<in> set [(10, 5), (7, 9), (9 :: int, 5 :: int)]. snd x \<le> snd y} \<le> nat 1" by code_simp
  show ?thesis
    using prune_preserves_top [OF ok no_tie, of 7] by code_simp
qed

lemma top_any_order:
  "map_ok a \<Longrightarrow> map_ok b \<Longrightarrow> set a = set b \<Longrightarrow> in_top (topNASNs a n) asn = in_top (topNASNs b n) asn"
  by (simp add: in_topNASNs asn_rank_def map_ok_def)

lemma mset_split_at:
  assumes "distinct xs" "x \<in> set xs"
  shows "mset xs = mset (filter (\<lambda>y. P y \<and> y \<noteq> x) xs) + {#x#} + mset (filter (\<lambda>y. \<not> P y \<and> y \<noteq> x) xs)"
proof -
  have "mset xs = add_mset x (mset (remove1 x xs))" using assms(2) by simp
  moreover have "mset ys = mset (filter P ys) + mset (filter (\<lambda>y. \<not> P y) ys)" for ys by (induction ys) auto
  then have "mset (remove1 x xs) = mset (filter P (remove1 x xs)) + mset (filter (\<lambda>y. \<not> P y) (remove1 x xs))" .
  moreover have "filter Q (remove1 x xs) = filter (\<lambda>y. Q y \<and> y \<noteq> x) xs" for Q
    using assms(1) by (simp add: distinct_remove1_removeAll removeAll_filter_not_eq conj_commute eq_commute)
  ultimately show ?thesis by simp
qed

text \<open>C37: the condition of the previous property is exact: ties at the cut do lose entries of the top \<open>n\<close>. If an AS
  number is among the top \<open>n\<close> and more than \<open>k\<close> entries have a total as large as its own, then for some
  order in which the map may be visited pruning to \<open>k\<close> entries takes it out of the top \<open>n\<close>.\<close>

theorem prune_ties_change_top:
  assumes ok: "map_ok totals" and top: "in_top (topNASNs totals n) asn"
    and tie: "map_of totals asn = Some v" "nat k < card {y \<in> set totals. v \<le> snd y}"
  shows "\<exists>visit. mset visit = mset totals \<and> in_top (topNASNs visit n) asn
    \<and> \<not> in_top (topNASNs (pruneToLargest visit k) n) asn"
proof -
  let ?x = "(asn, v)"
  let ?big = "filter (\<lambda>y. v \<le> snd y \<and> y \<noteq> ?x) totals" and ?small = "filter (\<lambda>y. \<not> v \<le> snd y \<and> y \<noteq> ?x) totals"
  let ?visit = "sort_Slice count_less ?big @ ?x # sort_Slice count_less ?small"
  have x: "?x \<in> set totals" using tie(1) by (rule map_of_SomeD)
  have ms: "mset ?visit = mset totals" using mset_split_at [OF map_ok_distinct [OF ok] x, of "\<lambda>y. v \<le> snd y"] by simp
  then have "mset (map fst ?visit) = mset (map fst totals)" by (simp only: mset_map)
  from mset_eq_imp_distinct_iff [OF this] mset_eq_setD [OF ms] ok
  have ok': "map_ok ?visit" "set ?visit = set totals" unfolding map_ok_def by blast+
  have "cnt.sorted ?visit"
    using cnt.sorted_sort_Slice by (auto simp: sorted_wrt_append count_less_def)
  then have p: "pruneToLargest ?visit k = take (nat k) ?visit"
    using ok'(1) by (simp only: pruneToLargest_eq cnt.sort_Slice_sorted)
  have "{y \<in> set totals. v \<le> snd y} = insert ?x (set ?big)" using x by auto
  then have "card {y \<in> set totals. v \<le> snd y} = Suc (length ?big)"
    using distinct_card [of ?big] map_ok_distinct [OF ok] by simp
  then have "take (nat k) ?visit = take (nat k) (sort_Slice count_less ?big)" using tie(2) by simp
  then have "?x \<notin> set (pruneToLargest ?visit k)" unfolding p by (auto dest: in_set_takeD)
  then have "map_of (pruneToLargest ?visit k) asn \<noteq> Some v" by (auto dest: map_of_SomeD)
  moreover have "map_of (pruneToLargest ?visit k) asn = Some w \<Longrightarrow> w = v" for w
  proof -
    assume "map_of (pruneToLargest ?visit k) asn = Some w"
    then have "(asn, w) \<in> set totals" using pruneToLargest_subset [OF ok'(1), of k] ok'(2) map_of_SomeD by fast
    then show "w = v" using map_of_is_SomeI [of totals asn w] ok tie(1) by (simp add: map_ok_def)
  qed
  ultimately have "\<not> in_top (topNASNs (pruneToLargest ?visit k) n) asn"
    using in_topNASNs [OF map_ok_pruneToLargest [OF ok'(1)]] by auto
  moreover have "in_top (topNASNs ?visit n) asn"
    using top top_any_order [OF ok'(1) ok ok'(2)] by blast
  ultimately show ?thesis using ms by blast
qed

theorem prune_ties_change_top_witness:
  "\<exists>visit. mset visit = {#(9, 5), (8, 5), (10, 5)#} \<and> in_top (topNASNs visit 1) 10
    \<and> \<not> in_top (topNASNs (pruneToLargest visit 2) 1) 10"
proof -
  let ?t = "[(9, 5), (8, 5), (10, 5)] :: (int, int) gomap"
  have "map_ok ?t" "in_top (topNASNs ?t 1) 10" "map_of ?t 10 = Some 5" "nat 2 < card {y \<in> set ?t. 5 \<le> snd y}" by code_simp+
  from prune_ties_change_top [OF this] show ?thesis by simp
qed

end
