(* ===== verification/Metrics.thy ===== *)
theory Metrics
  imports Float64
begin

section \<open>internal/metrics: the exporter's collectors\<close>

text \<open>
  The table of collectors of \<open>internal/metrics/metrics.go\<close> (their help strings aside) and the calls
  the other components make on them. The Prometheus client library is not modelled: an operation of
  a component returns the list of calls it makes, in order, and \<open>event_ok\<close> states when such a call
  is one the library accepts without a panic (the number of label values matches, counters only grow,
  each kind of collector is used through its own methods).
\<close>

datatype metric_kind = Counter | CounterVec | Gauge | GaugeVec | Histogram

datatype bucket = Le float64 | PosInf

record metric =
  kind :: metric_kind
  Name :: string
  labels :: "string list"
  Buckets :: "bucket list"

definition mk :: "metric_kind \<Rightarrow> string \<Rightarrow> string list \<Rightarrow> metric" where
  "mk k n ls = \<lparr>kind = k, Name = n, labels = ls, Buckets = []\<rparr>"

definition mk_hist :: "string \<Rightarrow> float64 list \<Rightarrow> metric" where
  "mk_hist n bs = \<lparr>kind = Histogram, Name = n, labels = [], Buckets = map (\<lambda>b. Le (fl b)) bs @ [PosInf]\<rparr>"

named_theorems metric_defs

definition NtpClientRequestsTotal where [metric_defs]:
  "NtpClientRequestsTotal = mk CounterVec ''ntp_client_requests_total'' [''country'', ''continent'']"
definition NtpClientDropsTotal where [metric_defs]:
  "NtpClientDropsTotal = mk CounterVec ''ntp_client_drops_total'' [''country'', ''continent'']"
definition NtpClientRequestsByASNTotal where [metric_defs]:
  "NtpClientRequestsByASNTotal = mk CounterVec ''ntp_client_requests_by_asn_total'' [''asn'', ''as_org'']"
definition NtpClientsActive where [metric_defs]:
  "NtpClientsActive = mk Gauge ''ntp_clients_active'' []"
definition NtpClientsUniqueDaily where [metric_defs]:
  "NtpClientsUniqueDaily = mk Gauge ''ntp_clients_unique_daily'' []"
definition NtpClientsScrapeSuccess where [metric_defs]:
  "NtpClientsScrapeSuccess = mk Gauge ''ntp_clients_scrape_success'' []"
definition NtpCapturePacketsTotal where [metric_defs]:
  "NtpCapturePacketsTotal = mk CounterVec ''ntp_capture_packets_total'' [''direction'']"
definition NtpCaptureParseErrorsTotal where [metric_defs]:
  "NtpCaptureParseErrorsTotal = mk Counter ''ntp_capture_parse_errors_total'' []"
definition NtpCaptureLoopErrorsTotal where [metric_defs]:
  "NtpCaptureLoopErrorsTotal = mk Counter ''ntp_capture_loop_errors_total'' []"
definition NtpCaptureKernelDropsTotal where [metric_defs]:
  "NtpCaptureKernelDropsTotal = mk Counter ''ntp_capture_kernel_drops_total'' []"
definition NtpCapturePendingOverflowTotal where [metric_defs]:
  "NtpCapturePendingOverflowTotal = mk Counter ''ntp_capture_pending_overflow_total'' []"
definition NtpCaptureRcvbufBytes where [metric_defs]:
  "NtpCaptureRcvbufBytes = mk Gauge ''ntp_capture_rcvbuf_bytes'' []"
definition NtpClientRequestsByVersionTotal where [metric_defs]:
  "NtpClientRequestsByVersionTotal = mk CounterVec ''ntp_client_requests_by_version_total'' [''version'']"
definition NtpClientRequestsByFamilyTotal where [metric_defs]:
  "NtpClientRequestsByFamilyTotal = mk CounterVec ''ntp_client_requests_by_family_total'' [''family'']"
definition NtpClientRequestIntervalSeconds where [metric_defs]:
  "NtpClientRequestIntervalSeconds = mk_hist ''ntp_client_request_interval_seconds''
     [1 / 2, 1, 2, 4, 8, 16, 32, 64, 128, 256, 512]"
definition NtpResponseLatencySeconds where [metric_defs]:
  "NtpResponseLatencySeconds = mk_hist ''ntp_response_latency_seconds''
     [20 / 10 ^ 6, 50 / 10 ^ 6, 100 / 10 ^ 6, 200 / 10 ^ 6, 500 / 10 ^ 6,
      1 / 10 ^ 3, 2 / 10 ^ 3, 5 / 10 ^ 3, 10 / 10 ^ 3, 25 / 10 ^ 3, 50 / 10 ^ 3]"
definition NtppoolScore where [metric_defs]:
  "NtppoolScore = mk GaugeVec ''ntppool_score'' [''ip'']"
definition NtppoolMonitorScore where [metric_defs]:
  "NtppoolMonitorScore = mk GaugeVec ''ntppool_monitor_score'' [''ip'', ''monitor'']"
definition NtppoolMonitorOffsetSeconds where [metric_defs]:
  "NtppoolMonitorOffsetSeconds = mk GaugeVec ''ntppool_monitor_offset_seconds'' [''ip'', ''monitor'']"
definition NtppoolMonitorRttSeconds where [metric_defs]:
  "NtppoolMonitorRttSeconds = mk GaugeVec ''ntppool_monitor_rtt_seconds'' [''ip'', ''monitor'']"
definition NtppoolScrapeSuccess where [metric_defs]:
  "NtppoolScrapeSuccess = mk Gauge ''ntppool_scrape_success'' []"
definition NtpGeoipDatabaseLoaded where [metric_defs]:
  "NtpGeoipDatabaseLoaded = mk GaugeVec ''ntp_geoip_database_loaded'' [''db'']"

text \<open>A call on a collector: \<open>WithLabelValues(...)\<close> alone (which creates the child), \<open>Inc\<close>/\<open>Add\<close>,
  \<open>Set\<close> and \<open>Observe\<close>.\<close>

datatype event =
    WithLabelValues metric "string list"
  | CounterAdd metric "string list" float64
  | GaugeSet metric "string list" float64
  | HistObserve metric float64

abbreviation Inc :: "metric \<Rightarrow> string list \<Rightarrow> event" where
  "Inc m ls \<equiv> CounterAdd m ls 1"

definition metrics_init :: "event list \<times> metric list" where
  "metrics_init =
     ([WithLabelValues NtpCapturePacketsTotal [''request''],
       WithLabelValues NtpCapturePacketsTotal [''response''],
       WithLabelValues NtpGeoipDatabaseLoaded [''country''],
       WithLabelValues NtpGeoipDatabaseLoaded [''asn'']],
      [NtpClientRequestsTotal, NtpClientDropsTotal, NtpClientRequestsByASNTotal, NtpClientsActive,
       NtpClientsUniqueDaily, NtpClientsScrapeSuccess, NtpCapturePacketsTotal,
       NtpCaptureParseErrorsTotal, NtpCaptureLoopErrorsTotal, NtpCaptureKernelDropsTotal,
       NtpCapturePendingOverflowTotal, NtpCaptureRcvbufBytes, NtpClientRequestsByVersionTotal,
       NtpClientRequestsByFamilyTotal, NtpClientRequestIntervalSeconds, NtpResponseLatencySeconds,
       NtppoolScore, NtppoolMonitorScore, NtppoolMonitorOffsetSeconds, NtppoolMonitorRttSeconds,
       NtppoolScrapeSuccess, NtpGeoipDatabaseLoaded])"

definition Registry :: "metric list" where
  "Registry = snd metrics_init"

text \<open>The calls the client library accepts.\<close>

fun event_ok :: "event \<Rightarrow> bool" where
  "event_ok (WithLabelValues m ls) \<longleftrightarrow>
     m \<in> set Registry \<and> (kind m = CounterVec \<or> kind m = GaugeVec) \<and> length ls = length (labels m)"
| "event_ok (CounterAdd m ls v) \<longleftrightarrow>
     m \<in> set Registry \<and> (kind m = CounterVec \<or> kind m = Counter) \<and> length ls = length (labels m) \<and> 0 \<le> v"
| "event_ok (GaugeSet m ls v) \<longleftrightarrow>
     m \<in> set Registry \<and> (kind m = GaugeVec \<or> kind m = Gauge) \<and> length ls = length (labels m)"
| "event_ok (HistObserve m v) \<longleftrightarrow> m \<in> set Registry \<and> kind m = Histogram"

fun bucket_less :: "bucket \<Rightarrow> bucket \<Rightarrow> bool" where
  "bucket_less (Le a) (Le b) \<longleftrightarrow> a < b"
| "bucket_less (Le a) PosInf \<longleftrightarrow> True"
| "bucket_less PosInf b \<longleftrightarrow> False"

text \<open>What \<open>NewHistogram\<close> and \<open>MustRegister\<close> demand of the table.\<close>

definition metric_ok :: "metric \<Rightarrow> bool" where
  "metric_ok m \<longleftrightarrow> distinct (labels m) \<and> sorted_wrt bucket_less (Buckets m)
     \<and> (kind m = CounterVec \<or> kind m = GaugeVec \<longleftrightarrow> labels m \<noteq> [])"

text \<open>The sum of the \<open>Add\<close> calls on one child of a counter, and the observations of a histogram.\<close>

definition counted :: "metric \<Rightarrow> string list \<Rightarrow> event list \<Rightarrow> float64" where
  "counted m ls es = sum_list (map (\<lambda>e. case e of CounterAdd m' ls' v \<Rightarrow>
     (if m' = m \<and> ls' = ls then v else 0) | _ \<Rightarrow> 0) es)"

definition observations :: "metric \<Rightarrow> event list \<Rightarrow> float64 list" where
  "observations m es = concat (map (\<lambda>e. case e of HistObserve m' v \<Rightarrow> (if m' = m then [v] else []) | _ \<Rightarrow> []) es)"

lemma in_Registry [simp]:
  "NtpClientRequestsTotal \<in> set Registry" "NtpClientDropsTotal \<in> set Registry"
  "NtpClientRequestsByASNTotal \<in> set Registry" "NtpClientsActive \<in> set Registry"
  "NtpClientsUniqueDaily \<in> set Registry" "NtpClientsScrapeSuccess \<in> set Registry"
  "NtpCapturePacketsTotal \<in> set Registry" "NtpCaptureParseErrorsTotal \<in> set Registry"
  "NtpCaptureLoopErrorsTotal \<in> set Registry" "NtpCaptureKernelDropsTotal \<in> set Registry"
  "NtpCapturePendingOverflowTotal \<in> set Registry" "NtpCaptureRcvbufBytes \<in> set Registry"
  "NtpClientRequestsByVersionTotal \<in> set Registry" "NtpClientRequestsByFamilyTotal \<in> set Registry"
  "NtpClientRequestIntervalSeconds \<in> set Registry" "NtpResponseLatencySeconds \<in> set Registry"
  "NtppoolScore \<in> set Registry" "NtppoolMonitorScore \<in> set Registry"
  "NtppoolMonitorOffsetSeconds \<in> set Registry" "NtppoolMonitorRttSeconds \<in> set Registry"
  "NtppoolScrapeSuccess \<in> set Registry" "NtpGeoipDatabaseLoaded \<in> set Registry"
  by (simp_all add: Registry_def metrics_init_def)

lemma metric_kinds [simp]:
  "kind NtpClientRequestsTotal = CounterVec" "labels NtpClientRequestsTotal = [''country'', ''continent'']"
  "kind NtpClientDropsTotal = CounterVec" "labels NtpClientDropsTotal = [''country'', ''continent'']"
  "kind NtpClientRequestsByASNTotal = CounterVec" "labels NtpClientRequestsByASNTotal = [''asn'', ''as_org'']"
  "kind NtpClientsActive = Gauge" "labels NtpClientsActive = []"
  "kind NtpClientsUniqueDaily = Gauge" "labels NtpClientsUniqueDaily = []"
  "kind NtpClientsScrapeSuccess = Gauge" "labels NtpClientsScrapeSuccess = []"
  "kind NtpCapturePacketsTotal = CounterVec" "labels NtpCapturePacketsTotal = [''direction'']"
  "kind NtpCaptureParseErrorsTotal = Counter" "labels NtpCaptureParseErrorsTotal = []"
  "kind NtpCaptureLoopErrorsTotal = Counter" "labels NtpCaptureLoopErrorsTotal = []"
  "kind NtpCaptureKernelDropsTotal = Counter" "labels NtpCaptureKernelDropsTotal = []"
  "kind NtpCapturePendingOverflowTotal = Counter" "labels NtpCapturePendingOverflowTotal = []"
  "kind NtpCaptureRcvbufBytes = Gauge" "labels NtpCaptureRcvbufBytes = []"
  "kind NtpClientRequestsByVersionTotal = CounterVec" "labels NtpClientRequestsByVersionTotal = [''version'']"
  "kind NtpClientRequestsByFamilyTotal = CounterVec" "labels NtpClientRequestsByFamilyTotal = [''family'']"
  "kind NtpClientRequestIntervalSeconds = Histogram" "labels NtpClientRequestIntervalSeconds = []"
  "kind NtpResponseLatencySeconds = Histogram" "labels NtpResponseLatencySeconds = []"
  "kind NtppoolScore = GaugeVec" "labels NtppoolScore = [''ip'']"
  "kind NtppoolMonitorScore = GaugeVec" "labels NtppoolMonitorScore = [''ip'', ''monitor'']"
  "kind NtppoolMonitorOffsetSeconds = GaugeVec" "labels NtppoolMonitorOffsetSeconds = [''ip'', ''monitor'']"
  "kind NtppoolMonitorRttSeconds = GaugeVec" "labels NtppoolMonitorRttSeconds = [''ip'', ''monitor'']"
  "kind NtppoolScrapeSuccess = Gauge" "labels NtppoolScrapeSuccess = []"
  "kind NtpGeoipDatabaseLoaded = GaugeVec" "labels NtpGeoipDatabaseLoaded = [''db'']"
  by (simp_all add: metric_defs mk_def mk_hist_def)

lemma counted_append [simp]: "counted m ls (es @ fs) = counted m ls es + counted m ls fs"
  by (simp add: counted_def)

lemma counted_Nil [simp]: "counted m ls [] = 0"
  by (simp add: counted_def)

lemma observations_append [simp]: "observations m (es @ fs) = observations m es @ observations m fs"
  by (simp add: observations_def)

lemma observations_Nil [simp]: "observations m [] = []"
  by (simp add: observations_def)

lemma distinct_names: "distinct (map Name Registry)"
  by (simp add: Registry_def metrics_init_def metric_defs mk_def mk_hist_def)

lemma metric_ok_mk: "metric_ok (mk k n ls) \<longleftrightarrow> distinct ls \<and> (k = CounterVec \<or> k = GaugeVec \<longleftrightarrow> ls \<noteq> [])"
  by (simp add: metric_ok_def mk_def)

fun doubling :: "float64 list \<Rightarrow> bool" where
  "doubling (a # b # bs) \<longleftrightarrow> 0 < a \<and> 2 * a \<le> b \<and> doubling (b # bs)"
| "doubling [a] \<longleftrightarrow> 0 < a"
| "doubling [] \<longleftrightarrow> True"

lemma doubling_buckets: "doubling bs \<Longrightarrow> sorted_wrt bucket_less (map (\<lambda>b. Le (fl b)) bs @ [PosInf])"
proof (induction bs rule: doubling.induct)
  case (1 a b bs)
  then have s: "sorted_wrt bucket_less (map (\<lambda>b. Le (fl b)) (b # bs) @ [PosInf])" and "fl a < fl b"
    using fl_less by simp_all
  then have "bucket_less (Le (fl a)) x" if "x \<in> set (map (\<lambda>b. Le (fl b)) (b # bs) @ [PosInf])" for x
    using that by (fastforce intro: less_trans)
  with s show ?case by auto
qed auto

lemma metric_ok_hist: "metric_ok NtpClientRequestIntervalSeconds" "metric_ok NtpResponseLatencySeconds"
  unfolding metric_ok_def NtpClientRequestIntervalSeconds_def NtpResponseLatencySeconds_def mk_hist_def
  by (simp_all add: doubling_buckets del: list.map append.simps)

text \<open>The table of collectors registers without a panic: no two collectors share a name, every
  vector and only a vector has labels, all distinct, the buckets of the two histograms, as doubles,
  are strictly increasing, and the children seeded at start-up have the right number of labels.\<close>

lemma Registry_registers:
  "distinct (map Name Registry) \<and> list_all metric_ok Registry \<and> list_all event_ok (fst metrics_init)"
proof (intro conjI)
  show "distinct (map Name Registry)" by (rule distinct_names)
  show "list_all metric_ok Registry"
    using metric_ok_hist unfolding Registry_def metrics_init_def
    by (simp add: NtpClientRequestsTotal_def NtpClientDropsTotal_def NtpClientRequestsByASNTotal_def
        NtpClientsActive_def NtpClientsUniqueDaily_def NtpClientsScrapeSuccess_def
        NtpCapturePacketsTotal_def NtpCaptureParseErrorsTotal_def NtpCaptureLoopErrorsTotal_def
        NtpCaptureKernelDropsTotal_def NtpCapturePendingOverflowTotal_def NtpCaptureRcvbufBytes_def
        NtpClientRequestsByVersionTotal_def NtpClientRequestsByFamilyTotal_def NtppoolScore_def
        NtppoolMonitorScore_def NtppoolMonitorOffsetSeconds_def NtppoolMonitorRttSeconds_def
        NtppoolScrapeSuccess_def NtpGeoipDatabaseLoaded_def metric_ok_mk)
  show "list_all event_ok (fst metrics_init)"
    by (simp add: metrics_init_def)
qed

end
