(* ===== verification/Aggregate.thy ===== *)
theory Aggregate
  imports GoNet Hll Asn Metrics
begin

section \<open>internal/aggregate: the collector\<close>

text \<open>
  The hot path of the passive capture (\<open>internal/aggregate/aggregate.go\<close>): per-worker counters,
  sharded tables of pending requests and active clients, a ring of 24 hourly sketches, and the
  periodic \<open>Flush\<close> that publishes them. Every critical section of the Go code (the code between
  \<open>Lock\<close> and \<open>Unlock\<close>, or one atomic instruction) is a function of its own; \<open>HandleFrame\<close> and
  \<open>Flush\<close> compose them in program order, and the theory \<open>Interleaving\<close> runs them interleaved.

  A panic is \<open>None\<close>; the calls on collectors are returned as a list of events. The GeoIP resolver,
  the two clocks, the kernel drop counter and \<open>math.Log\<close> are arguments: the resolver as a function,
  a clock as the time its call returns.
\<close>

definition ActiveWindow :: duration where "ActiveWindow = 300 * Second"
definition PendingMax :: nat where "PendingMax = 50000"
definition PendingTTL :: duration where "PendingTTL = 2 * Second"
definition PendingSweepEvery :: int where "PendingSweepEvery = 1024"
definition ASNTotalsMax :: int where "ASNTotalsMax = 4096"
definition NumShards :: nat where "NumShards = 16"

record GeoResult =
  Country :: string
  Continent :: string
  ASN :: int
  HasASN :: bool
  ASOrg :: string

record countryKey =
  country :: string
  continent :: string

record asnKey =
  asn :: int
  hasASN :: bool
  asOrg :: string

record workerCounters =
  requests :: "(countryKey, int) gomap"
  responses :: "(countryKey, int) gomap"
  asnRequests :: "(asnKey, int) gomap"
  versionRequests :: "(string, int) gomap"
  familyRequests :: "(string, int) gomap"

definition newWorkerCounters :: workerCounters where
  "newWorkerCounters = \<lparr>requests = [], responses = [], asnRequests = [], versionRequests = [],
     familyRequests = []\<rparr>"

record pendingEntry =
  reqTS :: time

record shard =
  pending :: "(string, pendingEntry) gomap"
  active :: "(string, time) gomap"

definition shardIndex :: "string \<Rightarrow> nat" where
  "shardIndex ip = unat (fnv32a (bytes_of_string ip) mod of_nat NumShards)"

definition pendingKey :: "string \<Rightarrow> bytes \<Rightarrow> string" where
  "pendingKey ip xid = ip @ ''|'' @ string_of_bytes xid"

record Collector =
  asnTopN :: int
  workers :: "workerCounters list"
  shards :: "shard list"
  framesSinceSweep :: int
  asnTotals :: "(int, int) gomap"
  hourly :: "HyperLogLog list"
  hour :: nat
  hourSet :: bool

definition Collector_New :: "int \<Rightarrow> int \<Rightarrow> Collector option" where
  "Collector_New topN numWorkers =
     do {
       let numWorkers = (if numWorkers < 1 then 1 else numWorkers);
       sketch \<leftarrow> NewDefault;
       Some \<lparr>asnTopN = topN, workers = replicate (nat numWorkers) newWorkerCounters,
         shards = replicate NumShards \<lparr>pending = [], active = []\<rparr>, framesSinceSweep = 0,
         asnTotals = [], hourly = replicate 24 sketch, hour = 0, hourSet = False\<rparr>
     }"

subsection \<open>The ring of hourly sketches\<close>

text \<open>The loop that clears the skipped hours, from \<open>h\<close> around the ring up to \<open>hr\<close>.\<close>

partial_function (option) clear_hours :: "nat \<Rightarrow> nat \<Rightarrow> HyperLogLog list \<Rightarrow> HyperLogLog list option" where
  "clear_hours hr h ring =
     Option.bind NewDefault (\<lambda>fresh.
       if h \<ge> length ring then None
       else if h = hr then Some (ring[h := fresh])
       else clear_hours hr ((h + 1) mod 24) (ring[h := fresh]))"

declare clear_hours.simps [code]

text \<open>The bucket is returned as its index in the ring.\<close>

definition currentBucketLocked :: "time \<Rightarrow> Collector \<Rightarrow> (Collector \<times> nat) option" where
  "currentBucketLocked wallNow c =
     (let hr = UTC_Hour wallNow in
      if \<not> hourSet c then Some (c\<lparr>hour := hr, hourSet := True\<rparr>, hr)
      else if hr \<noteq> hour c then
        do {
          ring \<leftarrow> clear_hours hr ((hour c + 1) mod 24) (hourly c);
          Some (c\<lparr>hourly := ring, hour := hr\<rparr>, hr)
        }
      else Some (c, hr))"

subsection \<open>The critical sections of HandleFrame\<close>

definition tick :: "Collector \<Rightarrow> Collector \<times> int" where
  "tick c = (c\<lparr>framesSinceSweep := framesSinceSweep c + 1\<rparr>, framesSinceSweep c + 1)"

definition cas_reset :: "int \<Rightarrow> Collector \<Rightarrow> Collector \<times> bool" where
  "cas_reset n c =
     (if framesSinceSweep c = n then (c\<lparr>framesSinceSweep := 0\<rparr>, True) else (c, False))"

definition upd_shard :: "nat \<Rightarrow> (shard \<Rightarrow> shard) \<Rightarrow> Collector \<Rightarrow> Collector" where
  "upd_shard i f c = c\<lparr>shards := (shards c)[i := f (shards c ! i)]\<rparr>"

definition upd_worker :: "nat \<Rightarrow> (workerCounters \<Rightarrow> workerCounters) \<Rightarrow> Collector \<Rightarrow> Collector" where
  "upd_worker i f c = c\<lparr>workers := (workers c)[i := f (workers c ! i)]\<rparr>"

definition sweep_shard :: "time \<Rightarrow> shard \<Rightarrow> shard" where
  "sweep_shard cutoff sh = sh\<lparr>pending := sweep (\<lambda>e. reqTS e < cutoff) (pending sh)\<rparr>"

definition sweep_pending :: "time \<Rightarrow> Collector \<Rightarrow> Collector" where
  "sweep_pending cutoff c = foldl (\<lambda>c i. upd_shard i (sweep_shard cutoff) c) c [0..<length (shards c)]"

definition maybe_sweep :: "time \<Rightarrow> Collector \<Rightarrow> Collector" where
  "maybe_sweep ts c =
     (let (c, n) = tick c;
          (c, doSweep) = (if n \<ge> PendingSweepEvery then cas_reset n c else (c, False))
      in if doSweep then sweep_pending (ts - PendingTTL) c else c)"

definition ckey :: "GeoResult \<Rightarrow> countryKey" where
  "ckey geo = \<lparr>country = Country geo, continent = Continent geo\<rparr>"

definition akey :: "GeoResult \<Rightarrow> asnKey" where
  "akey geo = \<lparr>asn = ASN geo, hasASN = HasASN geo, asOrg = ASOrg geo\<rparr>"

definition vlabel :: "string \<Rightarrow> string" where
  "vlabel version = (if version = '''' then ''other'' else version)"

definition count_request :: "GeoResult \<Rightarrow> string \<Rightarrow> string \<Rightarrow> workerCounters \<Rightarrow> workerCounters" where
  "count_request geo family version wc =
     wc\<lparr>requests := bump (ckey geo) 1 (requests wc),
        asnRequests := bump (akey geo) 1 (asnRequests wc),
        versionRequests := bump (vlabel version) 1 (versionRequests wc),
        familyRequests := bump family 1 (familyRequests wc)\<rparr>"

definition count_response :: "GeoResult \<Rightarrow> workerCounters \<Rightarrow> workerCounters" where
  "count_response geo wc = wc\<lparr>responses := bump (ckey geo) 1 (responses wc)\<rparr>"

definition touch_active :: "string \<Rightarrow> time \<Rightarrow> shard \<Rightarrow> shard \<times> event list" where
  "touch_active ip now sh =
     (sh\<lparr>active := AList.update ip now (active sh)\<rparr>,
      case map_of (active sh) ip of
        None \<Rightarrow> []
      | Some prev \<Rightarrow> [HistObserve NtpClientRequestIntervalSeconds (dur_Seconds (time_Sub now prev))])"

definition add_unique :: "string \<Rightarrow> time \<Rightarrow> Collector \<Rightarrow> Collector option" where
  "add_unique ip wallNow c =
     do {
       (c, h) \<leftarrow> currentBucketLocked wallNow c;
       b \<leftarrow> Add (hourly c ! h) ip;
       Some (c\<lparr>hourly := (hourly c)[h := b]\<rparr>)
     }"

definition put_pending :: "string \<Rightarrow> bytes \<Rightarrow> time \<Rightarrow> shard \<Rightarrow> shard \<times> event list" where
  "put_pending ip xid ts sh =
     (let pk = pendingKey ip xid in
      if map_of (pending sh) pk = None \<and> length (pending sh) \<ge> PendingMax
      then (sh, [Inc NtpCapturePendingOverflowTotal []])
      else (sh\<lparr>pending := AList.update pk \<lparr>reqTS = ts\<rparr> (pending sh)\<rparr>, []))"

definition take_pending :: "string \<Rightarrow> bytes \<Rightarrow> time \<Rightarrow> shard \<Rightarrow> shard \<times> event list" where
  "take_pending ip xid ts sh =
     (let pk = pendingKey ip xid in
      case map_of (pending sh) pk of
        None \<Rightarrow> (sh, [])
      | Some e \<Rightarrow>
          (sh\<lparr>pending := AList.delete pk (pending sh)\<rparr>,
           let delta = dur_Seconds (time_Sub ts (reqTS e)) in
           if delta \<ge> 0 then [HistObserve NtpResponseLatencySeconds delta] else []))"

text \<open>A critical section of the client's shard that also makes metric calls.\<close>

definition on_shard :: "string \<Rightarrow> (shard \<Rightarrow> shard \<times> event list) \<Rightarrow> Collector \<Rightarrow> Collector \<times> event list" where
  "on_shard ip f c =
     (upd_shard (shardIndex ip) (\<lambda>sh. fst (f sh)) c, snd (f (shards c ! shardIndex ip)))"

definition HandleFrame ::
    "(string \<Rightarrow> GeoResult) \<Rightarrow> time \<Rightarrow> time \<Rightarrow> nat \<Rightarrow> string \<Rightarrow> string \<Rightarrow> string \<Rightarrow> string \<Rightarrow> bytes option \<Rightarrow> time
      \<Rightarrow> Collector \<Rightarrow> (Collector \<times> event list) option" where
  "HandleFrame Resolve now wallNow workerIdx direction ip family version xid ts c =
     (if workerIdx \<ge> length (workers c) then None
      else let
        c = maybe_sweep ts c;
        ev = [Inc NtpCapturePacketsTotal [direction]];
        geo = Resolve ip
      in if direction = ''request'' then do {
           let c = upd_worker workerIdx (count_request geo family version) c;
           let (c, ev1) = on_shard ip (touch_active ip now) c;
           c \<leftarrow> add_unique ip wallNow c;
           let (c, ev2) = (case xid of None \<Rightarrow> (c, []) | Some x \<Rightarrow> on_shard ip (put_pending ip x ts) c);
           Some (c, ev @ ev1 @ ev2)
         }
         else do {
           let c = upd_worker workerIdx (count_response geo) c;
           let (c, ev1) = (case xid of None \<Rightarrow> (c, []) | Some x \<Rightarrow> on_shard ip (take_pending ip x ts) c);
           Some (c, ev @ ev1)
         })"

subsection \<open>Flush\<close>

text \<open>One worker's counters are added to the snapshot and reset.\<close>

definition drain :: "workerCounters \<Rightarrow> workerCounters \<Rightarrow> workerCounters" where
  "drain wc acc =
     \<lparr>requests = addall (requests wc) (requests acc),
      responses = addall (responses wc) (responses acc),
      asnRequests = addall (asnRequests wc) (asnRequests acc),
      versionRequests = addall (versionRequests wc) (versionRequests acc),
      familyRequests = addall (familyRequests wc) (familyRequests acc)\<rparr>"

definition drain_worker :: "nat \<Rightarrow> Collector \<times> workerCounters \<Rightarrow> Collector \<times> workerCounters" where
  "drain_worker i = (\<lambda>(c, acc).
     (upd_worker i (\<lambda>_. newWorkerCounters) c, drain (workers c ! i) acc))"

definition flush_snapshot :: "Collector \<Rightarrow> Collector \<times> workerCounters" where
  "flush_snapshot c = foldl (\<lambda>s i. drain_worker i s) (c, newWorkerCounters) [0..<length (workers c)]"

text \<open>\<open>readDrops\<close> and \<open>lastDrops\<close> are \<open>None\<close> when nil.\<close>

definition flush_drops :: "u64 option \<Rightarrow> u64 option \<Rightarrow> u64 option \<times> event list" where
  "flush_drops readDrops lastDrops =
     (case readDrops of
        None \<Rightarrow> (lastDrops, [])
      | Some cur \<Rightarrow>
          (case lastDrops of
             None \<Rightarrow> (None, [])
           | Some prev \<Rightarrow>
               (Some cur,
                if cur \<ge> prev \<and> cur - prev > 0
                then [CounterAdd NtpCaptureKernelDropsTotal [] (fl (of_nat (unat (cur - prev))))] else [])))"

definition publish_requests :: "workerCounters \<Rightarrow> event list" where
  "publish_requests s = concat (map (\<lambda>(k, n).
     CounterAdd NtpClientRequestsTotal [country k, continent k] (fl (of_int n)) #
     (let drops = n - getz (responses s) k in
      if drops > 0 then [CounterAdd NtpClientDropsTotal [country k, continent k] (fl (of_int drops))] else []))
     (requests s))"

definition flush_asn :: "workerCounters \<Rightarrow> Collector \<Rightarrow> Collector \<times> (int, bool) gomap" where
  "flush_asn s c =
     (let totals = foldl (\<lambda>t (k, n). if hasASN k then bump (asn k) n t else t) (asnTotals c) (asnRequests s);
          totals = (if int (length totals) > ASNTotalsMax then pruneToLargest totals ASNTotalsMax else totals)
      in (c\<lparr>asnTotals := totals\<rparr>, topNASNs totals (asnTopN c)))"

definition publish_asn :: "(int, bool) gomap \<Rightarrow> workerCounters \<Rightarrow> event list" where
  "publish_asn topASNs s = map (\<lambda>(k, n).
     let (fasn, forg) = foldASN (asn k) (hasASN k) (asOrg k) topASNs
     in CounterAdd NtpClientRequestsByASNTotal [fasn, forg] (fl (of_int n))) (asnRequests s)"

definition publish_version :: "workerCounters \<Rightarrow> event list" where
  "publish_version s = map (\<lambda>(v, n).
     CounterAdd NtpClientRequestsByVersionTotal [v] (fl (of_int n))) (versionRequests s)"

definition publish_family :: "workerCounters \<Rightarrow> event list" where
  "publish_family s = map (\<lambda>(f, n).
     CounterAdd NtpClientRequestsByFamilyTotal [f] (fl (of_int n))) (familyRequests s)"

definition evict_shard :: "time \<Rightarrow> shard \<Rightarrow> shard" where
  "evict_shard cutoff sh = sh\<lparr>active := sweep (\<lambda>seen. seen < cutoff) (active sh)\<rparr>"

definition evict_one :: "time \<Rightarrow> nat \<Rightarrow> Collector \<times> nat \<Rightarrow> Collector \<times> nat" where
  "evict_one cutoff i = (\<lambda>(c, n).
     let c = upd_shard i (evict_shard cutoff) c in (c, n + length (active (shards c ! i))))"

definition evict_active :: "time \<Rightarrow> Collector \<Rightarrow> Collector \<times> nat" where
  "evict_active cutoff c = foldl (\<lambda>s i. evict_one cutoff i s) (c, 0) [0..<length (shards c)]"

fun merge_all :: "HyperLogLog \<Rightarrow> HyperLogLog list \<Rightarrow> HyperLogLog option" where
  "merge_all merged [] = Some merged"
| "merge_all merged (s # ss) = Option.bind (Merge merged s) (\<lambda>m. merge_all m ss)"

definition flush_unique :: "(float64 \<Rightarrow> float64) \<Rightarrow> time \<Rightarrow> Collector \<Rightarrow> (Collector \<times> event list) option" where
  "flush_unique Log wallNow c =
     do {
       (c, _) \<leftarrow> currentBucketLocked wallNow c;
       let snapshot = map Clone (hourly c);
       merged \<leftarrow> NewDefault;
       merged \<leftarrow> merge_all merged snapshot;
       Some (c, [GaugeSet NtpClientsUniqueDaily [] (Count Log merged)])
     }"

definition Flush ::
    "(float64 \<Rightarrow> float64) \<Rightarrow> time \<Rightarrow> time \<Rightarrow> time \<Rightarrow> u64 option \<Rightarrow> u64 option \<Rightarrow> Collector
      \<Rightarrow> (Collector \<times> u64 option \<times> event list) option" where
  "Flush Log now wall1 wall2 readDrops lastDrops c =
     (let (c, s) = flush_snapshot c;
          (lastDrops, ev1) = flush_drops readDrops lastDrops;
          ev2 = publish_requests s;
          (c, topASNs) = flush_asn s c;
          ev3 = publish_asn topASNs s @ publish_version s @ publish_family s;
          (c, activeCount) = evict_active (now - ActiveWindow) c;
          ev4 = [GaugeSet NtpClientsActive [] (fl (of_nat activeCount))];
          c = sweep_pending (wall1 - PendingTTL) c
      in do {
        (c, ev5) \<leftarrow> flush_unique Log wall2 c;
        Some (c, lastDrops, ev1 @ ev2 @ ev3 @ ev4 @ ev5)
      })"

subsection \<open>Accessors for tests\<close>

definition PendingLen :: "Collector \<Rightarrow> nat" where
  "PendingLen c = foldl (\<lambda>n sh. n + length (pending sh)) 0 (shards c)"

definition ActiveLen :: "Collector \<Rightarrow> nat" where
  "ActiveLen c = foldl (\<lambda>n sh. n + length (active sh)) 0 (shards c)"

definition HourBucketCount :: "(float64 \<Rightarrow> float64) \<Rightarrow> nat \<Rightarrow> Collector \<Rightarrow> float64 option" where
  "HourBucketCount Log h c =
     (if h < length (hourly c) then Some (Count Log (hourly c ! h)) else None)"

definition AddToHourBucket :: "nat \<Rightarrow> string \<Rightarrow> Collector \<Rightarrow> Collector option" where
  "AddToHourBucket h key c =
     (if h < length (hourly c)
      then do { b \<leftarrow> Add (hourly c ! h) key; Some (c\<lparr>hourly := (hourly c)[h := b]\<rparr>) } else None)"

definition CurrentHour :: "Collector \<Rightarrow> nat \<times> bool" where
  "CurrentHour c = (hour c, hourSet c)"

subsection \<open>The invariant\<close>

definition pos_map :: "('k, int) gomap \<Rightarrow> bool" where
  "pos_map m \<longleftrightarrow> map_ok m \<and> (\<forall>(k, n) \<in> set m. 0 < n)"

definition counters_ok :: "workerCounters \<Rightarrow> bool" where
  "counters_ok wc \<longleftrightarrow> pos_map (requests wc) \<and> pos_map (responses wc) \<and> pos_map (asnRequests wc)
     \<and> pos_map (versionRequests wc) \<and> pos_map (familyRequests wc)"

definition pending_in :: "nat \<Rightarrow> string \<Rightarrow> bool" where
  "pending_in i k \<longleftrightarrow> (\<exists>ip xid. k = pendingKey ip xid \<and> shardIndex ip = i)"

text \<open>Shard \<open>i\<close> holds only clients that hash to it, and at most \<open>PendingMax\<close> pending requests.\<close>

definition shard_ok :: "nat \<Rightarrow> shard \<Rightarrow> bool" where
  "shard_ok i sh \<longleftrightarrow> map_ok (pending sh) \<and> length (pending sh) \<le> PendingMax \<and> map_ok (active sh)
     \<and> (\<forall>ip. map_of (active sh) ip \<noteq> None \<longrightarrow> shardIndex ip = i)
     \<and> (\<forall>k. map_of (pending sh) k \<noteq> None \<longrightarrow> pending_in i k)"

definition ring_ok :: "HyperLogLog list \<Rightarrow> bool" where
  "ring_ok ring \<longleftrightarrow> length ring = 24 \<and> (\<forall>s \<in> set ring. hll_ok s \<and> hll_p s = 14)"

definition Collector_ok :: "Collector \<Rightarrow> bool" where
  "Collector_ok c \<longleftrightarrow> workers c \<noteq> [] \<and> (\<forall>wc \<in> set (workers c). counters_ok wc)
     \<and> length (shards c) = NumShards \<and> (\<forall>i < NumShards. shard_ok i (shards c ! i))
     \<and> 0 \<le> framesSinceSweep c \<and> pos_map (asnTotals c) \<and> int (length (asnTotals c)) \<le> ASNTotalsMax
     \<and> ring_ok (hourly c) \<and> hour c < 24"

lemma shardIndex_less [simp]: "shardIndex ip < NumShards"
proof -
  have "fnv32a (bytes_of_string ip) mod 16 < 16" by (rule word_mod_less_divisor) simp
  then show ?thesis by (simp add: shardIndex_def NumShards_def word_less_nat_alt)
qed

lemma NewDefault_Some: "NewDefault = Some (the NewDefault)" "hll_ok (the NewDefault)" "hll_p (the NewDefault) = 14"
  "registers (the NewDefault) = replicate (2 ^ 14) 0"
proof -
  obtain h where "NewDefault = Some h" by (simp add: NewDefault_def hll_New_def Let_def)
  then show "NewDefault = Some (the NewDefault)" "hll_ok (the NewDefault)" "hll_p (the NewDefault) = 14"
    "registers (the NewDefault) = replicate (2 ^ 14) 0"
    using hll_New_ok [of 14 h] by (simp_all add: NewDefault_def)
qed

lemma pos_map_Nil [simp]: "pos_map []"
  by (simp add: pos_map_def)

lemma getz_pos_map: "pos_map m \<Longrightarrow> 0 \<le> getz m k"
  by (auto simp: pos_map_def getz_def split: option.splits dest!: map_of_SomeD)

lemma set_update_subset: "set (AList.update k v m) \<subseteq> insert (k, v) (set m)"
  by (induction m) auto

lemma pos_map_bump: "pos_map m \<Longrightarrow> 0 < n \<Longrightarrow> pos_map (bump k n m)"
  using getz_pos_map [of m k] set_update_subset [of k "getz m k + n" m]
  by (fastforce simp: pos_map_def bump_def gm.ok_put)

lemma pos_map_addall: "pos_map src \<Longrightarrow> pos_map dst \<Longrightarrow> pos_map (addall src dst)"
proof (induction src arbitrary: dst)
  case (Cons kv src)
  obtain k n where kv: "kv = (k, n)" by (cases kv)
  have "pos_map src" "0 < n" using Cons.prems by (auto simp: pos_map_def map_ok_def kv)
  then show ?case
    using Cons.IH [of "bump k n dst"] Cons.prems by (simp add: addall_def kv pos_map_bump)
qed (simp add: addall_def)

lemma counters_ok_new [simp]: "counters_ok newWorkerCounters"
  by (simp add: counters_ok_def newWorkerCounters_def)

lemma counters_ok_count_request: "counters_ok wc \<Longrightarrow> counters_ok (count_request geo family version wc)"
  by (simp add: counters_ok_def count_request_def pos_map_bump)

lemma counters_ok_count_response: "counters_ok wc \<Longrightarrow> counters_ok (count_response geo wc)"
  by (simp add: counters_ok_def count_response_def pos_map_bump)

lemma counters_ok_drain: "counters_ok wc \<Longrightarrow> counters_ok acc \<Longrightarrow> counters_ok (drain wc acc)"
  by (simp add: counters_ok_def drain_def pos_map_addall)

text \<open>A step that touches one worker's counters, or one shard, keeps the invariant if it keeps that
  of the part.\<close>

lemma Collector_ok_upd_worker:
  assumes "Collector_ok c" "i < length (workers c)" "counters_ok (workers c ! i) \<Longrightarrow> counters_ok (f (workers c ! i))"
  shows "Collector_ok (upd_worker i f c)"
  using assms set_update_subset_insert [of "workers c" i "f (workers c ! i)"]
  by (fastforce simp: Collector_ok_def upd_worker_def)

lemma Collector_ok_upd_shard:
  assumes "Collector_ok c" "i < NumShards" "shard_ok i (shards c ! i) \<Longrightarrow> shard_ok i (f (shards c ! i))"
  shows "Collector_ok (upd_shard i f c)"
  using assms by (auto simp: Collector_ok_def upd_shard_def nth_list_update)

lemma pending_in_key [simp]: "pending_in (shardIndex ip) (pendingKey ip xid)"
  by (auto simp: pending_in_def)

lemma shard_ok_sweep: "shard_ok i sh \<Longrightarrow> shard_ok i (sweep_shard cutoff sh)"
  using length_sweep_le [of "\<lambda>e. reqTS e < cutoff" "pending sh"]
  by (auto simp: shard_ok_def sweep_shard_def map_of_sweep split: option.splits if_splits)

lemma shard_ok_evict: "shard_ok i sh \<Longrightarrow> shard_ok i (evict_shard cutoff sh)"
  by (auto simp: shard_ok_def evict_shard_def map_of_sweep split: option.splits if_splits)

text \<open>The contract of a critical section on the shard of one client.\<close>

locale shard_op =
  fixes ip :: string and f :: "shard \<Rightarrow> shard \<times> event list"
  assumes keeps: "shard_ok (shardIndex ip) sh \<Longrightarrow> shard_ok (shardIndex ip) (fst (f sh))"
    and emits: "list_all event_ok (snd (f sh))"
begin

lemma Collector_ok_on_shard: "Collector_ok c \<Longrightarrow> Collector_ok (fst (on_shard ip f c))"
  by (auto simp: on_shard_def intro!: Collector_ok_upd_shard keeps)

lemma events_ok: "list_all event_ok (snd (on_shard ip f c))"
  by (simp add: on_shard_def emits)

end

lemma event_ok_hist [simp]:
  "event_ok (HistObserve NtpClientRequestIntervalSeconds v)" "event_ok (HistObserve NtpResponseLatencySeconds v)"
  "event_ok (Inc NtpCapturePendingOverflowTotal [])" "event_ok (Inc NtpCapturePacketsTotal [d])"
  by simp_all

interpretation touch: shard_op ip "touch_active ip now" for ip now
  by unfold_locales
    (auto simp: shard_ok_def touch_active_def gm.ok_put gm.look_put split: option.splits if_splits)

interpretation put: shard_op ip "put_pending ip xid ts" for ip xid ts
proof
  fix sh
  assume ok: "shard_ok (shardIndex ip) sh"
  have "length (AList.update (pendingKey ip xid) \<lparr>reqTS = ts\<rparr> (pending sh)) \<le> PendingMax"
    if "map_of (pending sh) (pendingKey ip xid) \<noteq> None \<or> length (pending sh) < PendingMax"
    using ok that by (intro gm.len_put_guarded) (auto simp: shard_ok_def)
  then show "shard_ok (shardIndex ip) (fst (put_pending ip xid ts sh))"
    using ok by (auto simp: shard_ok_def put_pending_def Let_def gm.ok_put gm.look_put not_le)
qed (simp add: put_pending_def Let_def)

interpretation take_op: shard_op ip "take_pending ip xid ts" for ip xid ts
proof
  fix sh
  assume ok: "shard_ok (shardIndex ip) sh"
  then show "shard_ok (shardIndex ip) (fst (take_pending ip xid ts sh))"
    using gm.len_del_le [of "pending sh" "pendingKey ip xid"]
    by (auto simp: shard_ok_def take_pending_def Let_def gm.ok_del gm.look_del split: option.splits)
qed (simp add: take_pending_def Let_def split: option.splits)

subsection \<open>Rotation of the ring\<close>

text \<open>How many hours after \<open>h\<close> the hour \<open>i\<close> comes next; \<open>i\<close> lies on the way from \<open>h\<close> up to \<open>hr\<close>.\<close>

definition ring_dist :: "nat \<Rightarrow> nat \<Rightarrow> nat" where
  "ring_dist h i = (if h \<le> i then i - h else i + 24 - h)"

definition on_way :: "nat \<Rightarrow> nat \<Rightarrow> nat \<Rightarrow> bool" where
  "on_way hr h i \<longleftrightarrow> ring_dist h i \<le> ring_dist h hr"

lemma Suc_mod24: "h < 24 \<Longrightarrow> (h + 1) mod 24 = (if h = 23 then 0 else h + 1)" for h :: nat
  by (simp add: mod_if)

lemma on_way_same: "h < 24 \<Longrightarrow> i < 24 \<Longrightarrow> on_way h h i \<longleftrightarrow> i = h"
  by (auto simp: on_way_def ring_dist_def split: if_splits)

lemma on_way_step:
  assumes "hr < 24" "h < 24" "i < 24" "h \<noteq> hr"
  shows "on_way hr h i \<longleftrightarrow> i = h \<or> on_way hr ((h + 1) mod 24) i"
  using assms by (cases "h = 23"; cases "h < i"; cases "h < hr") (auto simp: on_way_def ring_dist_def Suc_mod24)

lemma ring_dist_step:
  "hr < 24 \<Longrightarrow> h < 24 \<Longrightarrow> h \<noteq> hr \<Longrightarrow> ring_dist ((h + 1) mod 24) hr < ring_dist h hr"
  by (cases "h = 23"; cases "h < hr") (auto simp: ring_dist_def Suc_mod24)

text \<open>The loop returns, and replaces exactly the sketches on its way.\<close>

lemma clear_hours_eq:
  assumes "hr < 24" "h < 24" "length ring = 24"
  shows "clear_hours hr h ring =
    Some (map (\<lambda>i. if on_way hr h i then the NewDefault else ring ! i) [0..<24])"
  using assms(2,3)
proof (induction "ring_dist h hr" arbitrary: h ring rule: less_induct)
  case less
  let ?fresh = "the NewDefault"
  show ?case
  proof (cases "h = hr")
    case True
    have "ring[h := ?fresh] = map (\<lambda>i. if on_way hr h i then ?fresh else ring ! i) [0..<24]"
      using less.prems True by (intro nth_equalityI) (auto simp: on_way_same nth_list_update)
    then show ?thesis
      using less.prems True by (subst clear_hours.simps, subst NewDefault_Some(1)) auto
  next
    case False
    let ?h = "(h + 1) mod 24" and ?r = "ring[h := ?fresh]"
    have "clear_hours hr h ring = clear_hours hr ?h ?r"
      using less.prems False by (subst clear_hours.simps, subst NewDefault_Some(1)) auto
    also have "\<dots> = Some (map (\<lambda>i. if on_way hr ?h i then ?fresh else ?r ! i) [0..<24])"
      using less.prems ring_dist_step [OF assms(1) less.prems(1) False] by (intro less.hyps) auto
    also have "map (\<lambda>i. if on_way hr ?h i then ?fresh else ?r ! i) [0..<24] =
        map (\<lambda>i. if on_way hr h i then ?fresh else ring ! i) [0..<24]"
      using on_way_step [OF assms(1) less.prems(1) _ False] less.prems
      by (intro map_cong) (auto simp: nth_list_update)
    finally show ?thesis .
  qed
qed

lemma ring_ok_map:
  assumes "ring_ok ring"
  shows "ring_ok (map (\<lambda>i. if P i then the NewDefault else ring ! i) [0..<24])"
  using assms NewDefault_Some(2,3) by (auto simp: ring_ok_def)

lemma currentBucketLocked_ok:
  assumes "Collector_ok c"
  shows "\<exists>c'. currentBucketLocked wallNow c = Some (c', UTC_Hour wallNow) \<and> Collector_ok c'
    \<and> workers c' = workers c \<and> shards c' = shards c \<and> asnTotals c' = asnTotals c
    \<and> asnTopN c' = asnTopN c"
proof -
  have "length (hourly c) = 24" "ring_ok (hourly c)" "hour c < 24"
    using assms by (auto simp: Collector_ok_def ring_ok_def)
  then show ?thesis
    using assms clear_hours_eq [of "UTC_Hour wallNow" "(hour c + 1) mod 24" "hourly c"]
      ring_ok_map [of "hourly c" "on_way (UTC_Hour wallNow) ((hour c + 1) mod 24)"]
    by (auto simp: currentBucketLocked_def Let_def Collector_ok_def)
qed

lemma ring_ok_add:
  assumes "ring_ok ring" "h < 24"
  shows "\<exists>b. Add (ring ! h) key = Some b \<and> ring_ok (ring[h := b])"
proof -
  have "hll_ok (ring ! h)" "hll_p (ring ! h) = 14" using assms by (auto simp: ring_ok_def)
  then show ?thesis
    using assms set_update_subset_insert [of ring h "(ring ! h)\<lparr>registers := add_key 14 key (registers (ring ! h))\<rparr>"]
      hll_ok_add_key [of "ring ! h" key] by (fastforce simp: Add_eq ring_ok_def)
qed

lemma add_unique_ok:
  assumes "Collector_ok c"
  shows "\<exists>c'. add_unique ip wallNow c = Some c' \<and> Collector_ok c'
    \<and> workers c' = workers c \<and> shards c' = shards c \<and> asnTotals c' = asnTotals c
    \<and> asnTopN c' = asnTopN c"
proof -
  obtain c1 where c1: "currentBucketLocked wallNow c = Some (c1, UTC_Hour wallNow)" "Collector_ok c1"
    "workers c1 = workers c" "shards c1 = shards c" "asnTotals c1 = asnTotals c" "asnTopN c1 = asnTopN c"
    using currentBucketLocked_ok [OF assms] by blast
  obtain b where "Add (hourly c1 ! UTC_Hour wallNow) ip = Some b"
    "ring_ok ((hourly c1)[UTC_Hour wallNow := b])"
    using ring_ok_add [of "hourly c1" "UTC_Hour wallNow" ip] c1(2) by (auto simp: Collector_ok_def)
  then show ?thesis
    using c1 by (auto simp: add_unique_def Collector_ok_def)
qed

subsection \<open>HandleFrame keeps the invariant\<close>

text \<open>A sweep over all shards.\<close>

lemma foldl_upd_shard:
  "n \<le> length (shards c) \<Longrightarrow> foldl (\<lambda>c i. upd_shard i f c) c [0..<n] =
     c\<lparr>shards := map f (take n (shards c)) @ drop n (shards c)\<rparr>"
proof (induction n)
  case (Suc n)
  then have n: "n < length (shards c)" by simp
  then have "(map f (take n (shards c)) @ drop n (shards c))[n := f (shards c ! n)] =
      map f (take (Suc n) (shards c)) @ drop (Suc n) (shards c)"
    by (intro nth_equalityI) (auto simp: nth_append nth_list_update)
  then show ?case using Suc n by (simp add: upd_shard_def nth_append)
qed simp

lemma sweep_pending_eq: "sweep_pending cutoff c = c\<lparr>shards := map (sweep_shard cutoff) (shards c)\<rparr>"
  by (simp add: sweep_pending_def foldl_upd_shard)

lemma sweep_pending_ok: "Collector_ok c \<Longrightarrow> Collector_ok (sweep_pending cutoff c)"
  by (auto simp: sweep_pending_eq Collector_ok_def shard_ok_sweep)

lemma maybe_sweep_eq:
  "maybe_sweep ts c =
     (if framesSinceSweep c + 1 < PendingSweepEvery
      then c\<lparr>framesSinceSweep := framesSinceSweep c + 1\<rparr>
      else sweep_pending (ts - PendingTTL) (c\<lparr>framesSinceSweep := 0\<rparr>))"
  by (simp add: maybe_sweep_def tick_def cas_reset_def not_le)

lemma maybe_sweep_ok: "Collector_ok c \<Longrightarrow> Collector_ok (maybe_sweep ts c)"
  by (auto simp: maybe_sweep_eq intro!: sweep_pending_ok) (auto simp: Collector_ok_def)

lemma maybe_sweep_simps [simp]:
  "workers (maybe_sweep ts c) = workers c" "hourly (maybe_sweep ts c) = hourly c"
  "hour (maybe_sweep ts c) = hour c" "hourSet (maybe_sweep ts c) = hourSet c"
  "asnTotals (maybe_sweep ts c) = asnTotals c" "asnTopN (maybe_sweep ts c) = asnTopN c"
  by (simp_all add: maybe_sweep_eq sweep_pending_eq)

lemma on_shard_simps [simp]:
  "workers (fst (on_shard ip f c)) = workers c" "hourly (fst (on_shard ip f c)) = hourly c"
  "hour (fst (on_shard ip f c)) = hour c" "hourSet (fst (on_shard ip f c)) = hourSet c"
  "asnTotals (fst (on_shard ip f c)) = asnTotals c" "asnTopN (fst (on_shard ip f c)) = asnTopN c"
  by (simp_all add: on_shard_def upd_shard_def)

lemma upd_worker_simps [simp]:
  "shards (upd_worker i g c) = shards c" "hourly (upd_worker i g c) = hourly c"
  "hour (upd_worker i g c) = hour c" "hourSet (upd_worker i g c) = hourSet c"
  "asnTotals (upd_worker i g c) = asnTotals c" "asnTopN (upd_worker i g c) = asnTopN c"
  "length (workers (upd_worker i g c)) = length (workers c)"
  by (simp_all add: upd_worker_def)

text \<open>The two branches of \<open>HandleFrame\<close> on a well-formed collector.\<close>

lemma HandleFrame_request:
  fixes Resolve :: "string \<Rightarrow> GeoResult" and ip family version :: string and now wallNow ts :: time
    and xid :: "bytes option" and c :: Collector
  assumes "Collector_ok c" "wi < length (workers c)"
  defines "c1 \<equiv> upd_worker wi (count_request (Resolve ip) family version) (maybe_sweep ts c)"
  defines "c2 \<equiv> fst (on_shard ip (touch_active ip now) c1)"
  defines "e2 \<equiv> snd (on_shard ip (touch_active ip now) c1)"
  shows "\<exists>c3. add_unique ip wallNow c2 = Some c3 \<and> Collector_ok c3
    \<and> workers c3 = workers c2 \<and> shards c3 = shards c2 \<and> asnTotals c3 = asnTotals c2 \<and> asnTopN c3 = asnTopN c2
    \<and> HandleFrame Resolve now wallNow wi ''request'' ip family version xid ts c =
       (case xid of None \<Rightarrow> Some (c3, Inc NtpCapturePacketsTotal [''request''] # e2)
        | Some x \<Rightarrow> Some (fst (on_shard ip (put_pending ip x ts) c3),
            Inc NtpCapturePacketsTotal [''request''] # e2 @ snd (on_shard ip (put_pending ip x ts) c3)))"
proof -
  have c1: "Collector_ok c1"
    unfolding c1_def using assms(1,2)
    by (auto intro!: Collector_ok_upd_worker maybe_sweep_ok counters_ok_count_request)
  have c2: "Collector_ok c2"
    unfolding c2_def by (rule touch.Collector_ok_on_shard [OF c1])
  obtain c3 where c3: "add_unique ip wallNow c2 = Some c3" "Collector_ok c3"
    "workers c3 = workers c2" "shards c3 = shards c2" "asnTotals c3 = asnTotals c2" "asnTopN c3 = asnTopN c2"
    using add_unique_ok [OF c2] by blast
  moreover have "(c2, e2) = on_shard ip (touch_active ip now) c1"
    by (simp add: c2_def e2_def)
  ultimately show ?thesis
    using assms(2) by (auto simp: HandleFrame_def Let_def c1_def split: prod.splits option.splits)
qed

lemma HandleFrame_response:
  fixes Resolve :: "string \<Rightarrow> GeoResult" and ip family version :: string and now wallNow ts :: time
    and xid :: "bytes option" and c :: Collector
  assumes "wi < length (workers c)" "direction \<noteq> ''request''"
  defines "c1 \<equiv> upd_worker wi (count_response (Resolve ip)) (maybe_sweep ts c)"
  shows "HandleFrame Resolve now wallNow wi direction ip family version xid ts c =
       (case xid of None \<Rightarrow> Some (c1, [Inc NtpCapturePacketsTotal [direction]])
        | Some x \<Rightarrow> Some (fst (on_shard ip (take_pending ip x ts) c1),
            Inc NtpCapturePacketsTotal [direction] # snd (on_shard ip (take_pending ip x ts) c1)))"
  using assms by (auto simp: HandleFrame_def Let_def split: option.splits prod.splits)

lemma HandleFrame_keeps:
  assumes "Collector_ok c" "wi < length (workers c)"
  shows "\<exists>c' ev. HandleFrame Resolve now wallNow wi direction ip family version xid ts c = Some (c', ev)
    \<and> Collector_ok c' \<and> list_all event_ok ev \<and> length (workers c') = length (workers c)"
proof (cases "direction = ''request''")
  case True
  from HandleFrame_request [OF assms, of ip wallNow now Resolve family version ts xid]
  obtain c3 where "Collector_ok c3" "length (workers c3) = length (workers c)"
    "HandleFrame Resolve now wallNow wi ''request'' ip family version xid ts c =
       (case xid of None \<Rightarrow> Some (c3, Inc NtpCapturePacketsTotal [''request''] #
          snd (on_shard ip (touch_active ip now)
            (upd_worker wi (count_request (Resolve ip) family version) (maybe_sweep ts c))))
        | Some x \<Rightarrow> Some (fst (on_shard ip (put_pending ip x ts) c3),
            Inc NtpCapturePacketsTotal [''request''] #
            snd (on_shard ip (touch_active ip now)
              (upd_worker wi (count_request (Resolve ip) family version) (maybe_sweep ts c)))
            @ snd (on_shard ip (put_pending ip x ts) c3)))"
    by auto
  then show ?thesis
    using True touch.events_ok put.events_ok put.Collector_ok_on_shard by (cases xid) auto
next
  case False
  have "Collector_ok (upd_worker wi (count_response (Resolve ip)) (maybe_sweep ts c))"
    using assms by (auto intro!: Collector_ok_upd_worker maybe_sweep_ok counters_ok_count_response)
  then show ?thesis
    using HandleFrame_response [OF assms(2) False]
      take_op.events_ok take_op.Collector_ok_on_shard by (cases xid) auto
qed

subsection \<open>Flush keeps the invariant\<close>

definition snapshot :: "workerCounters list \<Rightarrow> workerCounters" where
  "snapshot wcs = foldl (\<lambda>acc wc. drain wc acc) newWorkerCounters wcs"

lemma flush_snapshot_eq:
  "flush_snapshot c =
     (c\<lparr>workers := replicate (length (workers c)) newWorkerCounters\<rparr>, snapshot (workers c))"
proof -
  have "n \<le> length (workers c) \<Longrightarrow>
      foldl (\<lambda>s i. drain_worker i s) (c, newWorkerCounters) [0..<n] =
      (c\<lparr>workers := replicate n newWorkerCounters @ drop n (workers c)\<rparr>, snapshot (take n (workers c)))" for n
  proof (induction n)
    case (Suc n)
    then have n: "n < length (workers c)" by simp
    then have "(replicate n newWorkerCounters @ drop n (workers c))[n := newWorkerCounters] =
        replicate (Suc n) newWorkerCounters @ drop (Suc n) (workers c)"
      by (simp add: list_update_append replicate_app_Cons_same flip: Cons_nth_drop_Suc)
    moreover have "snapshot (take (Suc n) (workers c)) = drain (workers c ! n) (snapshot (take n (workers c)))"
      using n by (simp add: snapshot_def take_Suc_conv_app_nth)
    ultimately show ?case
      using Suc n by (simp add: drain_worker_def upd_worker_def nth_append)
  qed (simp add: snapshot_def)
  from this [of "length (workers c)"] show ?thesis
    by (simp add: flush_snapshot_def)
qed

lemma counters_ok_snapshot: "\<forall>wc \<in> set wcs. counters_ok wc \<Longrightarrow> counters_ok (snapshot wcs)"
proof -
  have "counters_ok acc \<Longrightarrow> \<forall>wc \<in> set wcs. counters_ok wc \<Longrightarrow>
      counters_ok (foldl (\<lambda>acc wc. drain wc acc) acc wcs)" for acc
    by (induction wcs arbitrary: acc) (auto simp: counters_ok_drain)
  then show "\<forall>wc \<in> set wcs. counters_ok wc \<Longrightarrow> ?thesis" by (simp add: snapshot_def)
qed

lemma pos_map_asn_totals:
  "pos_map t \<Longrightarrow> pos_map m \<Longrightarrow>
   pos_map (foldl (\<lambda>t (k, n). if hasASN k then bump (asn k) n t else t) t m)"
proof (induction m arbitrary: t)
  case (Cons kv m)
  obtain k n where kv: "kv = (k, n)" by (cases kv)
  have "pos_map m" "0 < n" using Cons.prems by (auto simp: pos_map_def map_ok_def kv)
  then show ?case using Cons by (simp add: kv pos_map_bump)
qed simp

lemma pos_map_prune: "pos_map m \<Longrightarrow> pos_map (pruneToLargest m k)"
  using pruneToLargest_subset [of m k] by (auto simp: pos_map_def map_ok_pruneToLargest)

lemma flush_asn_totals:
  assumes "pos_map (asnTotals c)" "pos_map (asnRequests s)"
  shows "pos_map (asnTotals (fst (flush_asn s c))) \<and> int (length (asnTotals (fst (flush_asn s c)))) \<le> ASNTotalsMax"
  using pos_map_asn_totals [OF assms] pos_map_prune length_pruneToLargest
  by (auto simp: flush_asn_def Let_def pos_map_def ASNTotalsMax_def)

lemma flush_asn_simps [simp]:
  "workers (fst (flush_asn s c)) = workers c" "shards (fst (flush_asn s c)) = shards c"
  "framesSinceSweep (fst (flush_asn s c)) = framesSinceSweep c" "hourly (fst (flush_asn s c)) = hourly c"
  "hour (fst (flush_asn s c)) = hour c" "hourSet (fst (flush_asn s c)) = hourSet c"
  by (simp_all add: flush_asn_def Let_def)

lemma evict_active_eq:
  "evict_active cutoff c = (c\<lparr>shards := map (evict_shard cutoff) (shards c)\<rparr>,
     sum_list (map (\<lambda>sh. length (active (evict_shard cutoff sh))) (shards c)))"
proof -
  have "n \<le> length (shards c) \<Longrightarrow> foldl (\<lambda>s i. evict_one cutoff i s) (c, 0) [0..<n] =
      (foldl (\<lambda>c i. upd_shard i (evict_shard cutoff) c) c [0..<n],
       sum_list (map (\<lambda>sh. length (active (evict_shard cutoff sh))) (take n (shards c))))" for n
  proof (induction n)
    case (Suc n)
    then show ?case
      by (simp add: evict_one_def Let_def foldl_upd_shard take_Suc_conv_app_nth)
        (simp add: upd_shard_def nth_append)
  qed simp
  from this [of "length (shards c)"] show ?thesis
    by (simp add: evict_active_def foldl_upd_shard)
qed

text \<open>Merging well-formed sketches of one precision.\<close>

lemma merge_all_eq:
  "hll_ok m \<Longrightarrow> hll_p m = p \<Longrightarrow> \<forall>s \<in> set ss. hll_ok s \<and> hll_p s = p \<Longrightarrow>
   merge_all m ss = Some (m\<lparr>registers := foldl merge_regs (registers m) (map registers ss)\<rparr>)"
proof (induction ss arbitrary: m)
  case (Cons s ss)
  let ?m = "m\<lparr>registers := merge_regs (registers m) (registers s)\<rparr>"
  have s: "hll_ok s" "hll_p s = hll_p m" using Cons.prems by simp_all
  have "merge_all ?m ss = Some (?m\<lparr>registers := foldl merge_regs (registers ?m) (map registers ss)\<rparr>)"
    using Cons.prems hll_ok_merge [OF Cons.prems(1) s] by (intro Cons.IH) simp_all
  then show ?case
    using Merge_eq [OF Cons.prems(1) s] by simp
qed simp

lemma map_Clone: "map Clone ss = ss"
  by (rule map_idI) simp

lemma flush_unique_eq:
  assumes "Collector_ok c"
  shows "\<exists>c'. currentBucketLocked wallNow c = Some (c', UTC_Hour wallNow) \<and> Collector_ok c'
    \<and> workers c' = workers c \<and> shards c' = shards c \<and> asnTotals c' = asnTotals c \<and> asnTopN c' = asnTopN c
    \<and> flush_unique Log wallNow c = Some (c', [GaugeSet NtpClientsUniqueDaily []
        (Count Log ((the NewDefault)\<lparr>registers :=
          foldl merge_regs (replicate (2 ^ 14) 0) (map registers (hourly c'))\<rparr>))])"
proof -
  obtain c' where c': "currentBucketLocked wallNow c = Some (c', UTC_Hour wallNow)" "Collector_ok c'"
    "workers c' = workers c" "shards c' = shards c" "asnTotals c' = asnTotals c" "asnTopN c' = asnTopN c"
    using currentBucketLocked_ok [OF assms] by blast
  have "\<forall>s \<in> set (hourly c'). hll_ok s \<and> hll_p s = 14"
    using c'(2) by (simp add: Collector_ok_def ring_ok_def)
  from merge_all_eq [OF NewDefault_Some(2,3) this] show ?thesis
    using c' by (subst flush_unique_def, subst NewDefault_Some(1)) (simp add: NewDefault_Some(4) map_Clone)
qed

lemma fl_of_int_nonneg: "0 \<le> n \<Longrightarrow> 0 \<le> fl (of_int n)"
  by (simp add: fl_nonneg)

lemma publish_ok:
  assumes "counters_ok s"
  shows "list_all event_ok (publish_requests s)" "list_all event_ok (publish_asn t s)"
    "list_all event_ok (publish_version s)" "list_all event_ok (publish_family s)"
proof -
  have pos: "\<forall>(k, n) \<in> set (requests s). 0 < n" "\<forall>(k, n) \<in> set (asnRequests s). 0 < n"
    "\<forall>(k, n) \<in> set (versionRequests s). 0 < n" "\<forall>(k, n) \<in> set (familyRequests s). 0 < n"
    using assms by (simp_all add: counters_ok_def pos_map_def)
  show "list_all event_ok (publish_requests s)"
    by (auto simp: publish_requests_def list_all_iff Let_def intro!: fl_nonneg dest!: bspec [OF pos(1)])
  show "list_all event_ok (publish_asn t s)"
    using pos(2) by (auto simp: publish_asn_def list_all_iff case_prod_beta fl_of_int_nonneg less_imp_le)
  show "list_all event_ok (publish_version s)"
    using pos(3) by (auto simp: publish_version_def list_all_iff fl_of_int_nonneg less_imp_le)
  show "list_all event_ok (publish_family s)"
    using pos(4) by (auto simp: publish_family_def list_all_iff fl_of_int_nonneg less_imp_le)
qed

lemma flush_drops_ok: "list_all event_ok (snd (flush_drops r l))"
  by (auto simp: flush_drops_def fl_nonneg split: option.splits simp del: of_nat_unat)

text \<open>\<open>Flush\<close> on a well-formed collector, with its intermediate states named.\<close>

definition flushed :: "time \<Rightarrow> time \<Rightarrow> Collector \<Rightarrow> Collector" where
  "flushed now wall1 c =
     (let c1 = fst (flush_asn (snapshot (workers c))
           (c\<lparr>workers := replicate (length (workers c)) newWorkerCounters\<rparr>))
      in c1\<lparr>shards := map (\<lambda>sh. sweep_shard (wall1 - PendingTTL) (evict_shard (now - ActiveWindow) sh)) (shards c)\<rparr>)"

lemma flushed_ok: "Collector_ok c \<Longrightarrow> Collector_ok (flushed now wall1 c)"
proof -
  assume ok: "Collector_ok c"
  then have "pos_map (asnTotals c)" "pos_map (asnRequests (snapshot (workers c)))"
    using counters_ok_snapshot [of "workers c"] by (auto simp: Collector_ok_def counters_ok_def)
  from flush_asn_totals [of "c\<lparr>workers := replicate (length (workers c)) newWorkerCounters\<rparr>"] this
  show ?thesis
    using ok by (auto simp: flushed_def Let_def Collector_ok_def shard_ok_sweep shard_ok_evict)
qed

lemma Flush_eq:
  "Flush Log now wall1 wall2 r l c =
     (case flush_unique Log wall2 (flushed now wall1 c) of
        None \<Rightarrow> None
      | Some (c', ev5) \<Rightarrow> Some (c', fst (flush_drops r l),
          snd (flush_drops r l) @ publish_requests (snapshot (workers c))
          @ (publish_asn (snd (flush_asn (snapshot (workers c))
               (c\<lparr>workers := replicate (length (workers c)) newWorkerCounters\<rparr>))) (snapshot (workers c))
             @ publish_version (snapshot (workers c)) @ publish_family (snapshot (workers c)))
          @ [GaugeSet NtpClientsActive [] (fl (of_nat (sum_list
               (map (\<lambda>sh. length (active (evict_shard (now - ActiveWindow) sh))) (shards c)))))]
          @ ev5))"
  by (simp add: Flush_def flush_snapshot_eq evict_active_eq sweep_pending_eq flushed_def comp_def
      Let_def case_prod_beta split: option.split)

lemma Flush_keeps:
  assumes "Collector_ok c"
  shows "\<exists>c' l' ev. Flush Log now wall1 wall2 r l c = Some (c', l', ev)
    \<and> Collector_ok c' \<and> list_all event_ok ev \<and> length (workers c') = length (workers c)"
proof -
  obtain c' ev where "flush_unique Log wall2 (flushed now wall1 c) = Some (c', ev)" "Collector_ok c'"
    "list_all event_ok ev" "length (workers c') = length (workers c)"
    using flush_unique_eq [OF flushed_ok [OF assms], of wall2 now wall1 Log] by (auto simp: flushed_def Let_def)
  moreover have "counters_ok (snapshot (workers c))"
    using assms by (intro counters_ok_snapshot) (auto simp: Collector_ok_def)
  ultimately show ?thesis
    by (simp add: Flush_eq publish_ok flush_drops_ok)
qed

lemma Collector_New_ok: "\<exists>c. Collector_New topN n = Some c \<and> Collector_ok c \<and> workers c = replicate (nat (max 1 n)) newWorkerCounters"
proof -
  have "ring_ok (replicate 24 (the NewDefault))"
    using NewDefault_Some by (simp add: ring_ok_def)
  then show ?thesis
    by (subst Collector_New_def, subst NewDefault_Some(1))
      (auto simp: Collector_ok_def shard_ok_def PendingMax_def ASNTotalsMax_def max_def)
qed

subsection \<open>Properties\<close>

text \<open>C6: on a well-formed collector \<open>HandleFrame\<close> never panics for a valid worker index, whatever
  the frame, and leaves it well formed: counters stay positive, no shard holds more than
  \<open>PendingMax\<close> pending requests or a client that hashes elsewhere, the ring keeps 24 sketches of
  precision 14. Every metric call it makes is one the client library accepts.\<close>

theorem HandleFrame_safe:
  assumes "Collector_ok c" "workerIdx < length (workers c)"
  shows "\<exists>c' ev. HandleFrame Resolve now wallNow workerIdx direction ip family version xid ts c = Some (c', ev)
    \<and> Collector_ok c' \<and> list_all event_ok ev \<and> length (workers c') = length (workers c)"
  using assms by (rule HandleFrame_keeps)

theorem HandleFrame_safe_witness:
  "\<exists>c c' ev. Collector_New 20 4 = Some c \<and> HandleFrame (\<lambda>_. \<lparr>Country = ''SE'', Continent = ''EU'', ASN = 0,
     HasASN = False, ASOrg = ''unknown''\<rparr>) 5 7 3 ''request'' ''192.0.2.1'' ''ipv4'' ''4'' (Some [1, 2]) 9 c = Some (c', ev)
     \<and> Collector_ok c'"
proof -
  obtain c where c: "Collector_New 20 4 = Some c" "Collector_ok c" "workers c = replicate 4 newWorkerCounters"
    using Collector_New_ok [of 20 4] by auto
  show ?thesis
    using HandleFrame_safe [OF c(2), of 3 "\<lambda>_. \<lparr>Country = ''SE'', Continent = ''EU'', ASN = 0,
        HasASN = False, ASOrg = ''unknown''\<rparr>" 5 7 "''request''" "''192.0.2.1''" "''ipv4''" "''4''" "Some [1, 2]" 9] c by auto
qed

text \<open>C23: the rotation loop of \<open>currentBucketLocked\<close> always ends, and replaces exactly the buckets
  after the last hour seen up to and including the current one by empty sketches.\<close>

theorem rotation_clears:
  assumes "Collector_ok c" "hourSet c" "UTC_Hour wallNow \<noteq> hour c"
  shows "currentBucketLocked wallNow c = Some (c\<lparr>hour := UTC_Hour wallNow,
    hourly := map (\<lambda>i. if ring_dist ((hour c + 1) mod 24) i \<le> ring_dist ((hour c + 1) mod 24) (UTC_Hour wallNow)
      then the NewDefault else hourly c ! i) [0..<24]\<rparr>, UTC_Hour wallNow)"
proof -
  have "length (hourly c) = 24" "hour c < 24"
    using assms(1) by (auto simp: Collector_ok_def ring_ok_def)
  then show ?thesis
    using assms(2,3) clear_hours_eq [of "UTC_Hour wallNow" "(hour c + 1) mod 24" "hourly c"]
    by (simp add: currentBucketLocked_def Let_def on_way_def)
qed

theorem rotation_clears_witness:
  "\<exists>c c'. Collector_ok c \<and> hour c = 22 \<and> currentBucketLocked (3600 * Second) c = Some (c', 1)
     \<and> hourly c' ! 23 = the NewDefault \<and> hourly c' ! 0 = the NewDefault \<and> hourly c' ! 1 = the NewDefault
     \<and> hourly c' ! 2 = hourly c ! 2"
proof -
  obtain c0 where c0: "Collector_ok c0" using Collector_New_ok by blast
  let ?c = "c0\<lparr>hour := 22, hourSet := True\<rparr>"
  have ok: "Collector_ok ?c" using c0 by (simp add: Collector_ok_def)
  have h: "UTC_Hour (3600 * Second) = 1" by (simp add: UTC_Hour_def Second_def)
  let ?c' = "?c\<lparr>hour := 1, hourly := map (\<lambda>i. if ring_dist 23 i \<le> ring_dist 23 1
      then the NewDefault else hourly ?c ! i) [0..<24]\<rparr>"
  have e: "currentBucketLocked (3600 * Second) ?c = Some (?c', 1)"
    using rotation_clears [OF ok, of "3600 * Second"] h by simp
  show ?thesis
    by (rule exI [of _ ?c], rule exI [of _ ?c']) (use ok e in \<open>simp add: ring_dist_def numeral_2_eq_2\<close>)
qed

end
