(* ===== verification/Pairing.thy ===== *)
theory Pairing
  imports Aggregate
begin

section \<open>Runs of the collector and request/response pairing\<close>

text \<open>
  Sequences of calls of \<open>HandleFrame\<close> and \<open>Flush\<close> (\<open>run\<close>), the view of the sharded pending and
  active tables as one map each, and the pairing of a request with its response across workers.
\<close>

subsection \<open>Runs of the collector\<close>

text \<open>One call of a handler, with what the environment returns to it.\<close>

datatype op =
    Frame (frame_geo: "string \<Rightarrow> GeoResult") (frame_now: time) (frame_wall: time) (frame_worker: nat)
      (frame_dir: string) (frame_ip: string) (frame_family: string) (frame_version: string)
      (frame_xid: "bytes option") (frame_ts: time)
  | Flushing "float64 \<Rightarrow> float64" time time time "u64 option"

fun exec_op :: "op \<Rightarrow> Collector \<times> u64 option \<Rightarrow> ((Collector \<times> u64 option) \<times> event list) option" where
  "exec_op (Frame R now wall wi d ip fam ver xid ts) (c, l) =
     map_option (\<lambda>(c', ev). ((c', l), ev)) (HandleFrame R now wall wi d ip fam ver xid ts c)"
| "exec_op (Flushing Log now wall1 wall2 r) (c, l) =
     map_option (\<lambda>(c', l', ev). ((c', l'), ev)) (Flush Log now wall1 wall2 r l c)"

fun run :: "op list \<Rightarrow> Collector \<times> u64 option \<Rightarrow> ((Collector \<times> u64 option) \<times> event list) option" where
  "run [] st = Some (st, [])"
| "run (op # ops) st =
     (case exec_op op st of None \<Rightarrow> None
      | Some (st1, ev1) \<Rightarrow> (case run ops st1 of None \<Rightarrow> None | Some (st2, ev2) \<Rightarrow> Some (st2, ev1 @ ev2)))"

text \<open>The worker index of a frame is valid for \<open>n\<close> workers.\<close>

fun op_ok :: "nat \<Rightarrow> op \<Rightarrow> bool" where
  "op_ok n (Frame R now wall wi d ip fam ver xid ts) \<longleftrightarrow> wi < n"
| "op_ok n (Flushing Log now wall1 wall2 r) \<longleftrightarrow> True"

lemma HandleFrame_next:
  assumes "Collector_ok c" "wi < length (workers c)"
    "HandleFrame R now wall wi d ip fam ver xid ts c = Some (c', ev)"
  shows "Collector_ok c'" "length (workers c') = length (workers c)"
  using HandleFrame_keeps [OF assms(1,2), of R now wall d ip fam ver xid ts] assms(3) by simp_all

lemma exec_op_keeps:
  assumes "Collector_ok (fst st)" "op_ok (length (workers (fst st))) op"
  shows "\<exists>st' ev. exec_op op st = Some (st', ev) \<and> Collector_ok (fst st') \<and> list_all event_ok ev
    \<and> length (workers (fst st')) = length (workers (fst st))"
proof (cases op)
  case (Frame R now wall wi d ip fam ver xid ts)
  then show ?thesis
    using HandleFrame_keeps [of "fst st" wi R now wall d ip fam ver xid ts] assms by (cases st) auto
next
  case (Flushing Log now wall1 wall2 r)
  then show ?thesis
    using Flush_keeps [of "fst st" Log now wall1 wall2 r "snd st"] assms by (cases st) auto
qed

lemma run_keeps:
  assumes "Collector_ok (fst st)" "\<forall>op \<in> set ops. op_ok (length (workers (fst st))) op"
  shows "\<exists>st' ev. run ops st = Some (st', ev) \<and> Collector_ok (fst st') \<and> list_all event_ok ev
    \<and> length (workers (fst st')) = length (workers (fst st))"
  using assms
proof (induction ops arbitrary: st)
  case (Cons op ops)
  obtain st1 ev1 where 1: "exec_op op st = Some (st1, ev1)" "Collector_ok (fst st1)" "list_all event_ok ev1"
    "length (workers (fst st1)) = length (workers (fst st))"
    using exec_op_keeps [of st op] Cons.prems by auto
  then obtain st2 ev2 where "run ops st1 = Some (st2, ev2)" "Collector_ok (fst st2)" "list_all event_ok ev2"
    "length (workers (fst st2)) = length (workers (fst st1))"
    using Cons.IH [of st1] Cons.prems by auto
  with 1 show ?case by simp
qed simp

lemma run_next:
  assumes "Collector_ok (fst st)" "\<forall>op \<in> set ops. op_ok (length (workers (fst st))) op"
    "run ops st = Some (st', ev)"
  shows "Collector_ok (fst st')" "length (workers (fst st')) = length (workers (fst st))" "list_all event_ok ev"
  using run_keeps [OF assms(1,2)] assms(3) by simp_all

subsection \<open>The sharded tables as one map\<close>

definition abs_active :: "Collector \<Rightarrow> string \<Rightarrow> time option" where
  "abs_active c ip = map_of (active (shards c ! shardIndex ip)) ip"

definition abs_pending :: "Collector \<Rightarrow> string \<Rightarrow> bytes \<Rightarrow> time option" where
  "abs_pending c ip xid =
     map_option reqTS (map_of (pending (shards c ! shardIndex ip)) (pendingKey ip xid))"

lemma split_at_bar:
  "CHR ''|'' \<notin> set a \<Longrightarrow> CHR ''|'' \<notin> set b \<Longrightarrow> a @ ''|'' @ s = b @ ''|'' @ t \<Longrightarrow> a = b \<and> s = t"
proof (induction a arbitrary: b)
  case Nil
  then show ?case by (cases b) auto
next
  case (Cons x a)
  then show ?case by (cases b) auto
qed

text \<open>The key of the pending table identifies the client and the transaction.\<close>

lemma pendingKey_inject:
  assumes "CHR ''|'' \<notin> set ip" "CHR ''|'' \<notin> set ip'"
  shows "pendingKey ip xid = pendingKey ip' xid' \<longleftrightarrow> ip = ip' \<and> xid = xid'"
  using split_at_bar [OF assms, of "string_of_bytes xid" "string_of_bytes xid'"]
  by (auto simp: pendingKey_def)

lemma abs_cong: "shards c' = shards c \<Longrightarrow> abs_pending c' = abs_pending c \<and> abs_active c' = abs_active c"
  by (simp add: abs_pending_def abs_active_def fun_eq_iff)

lemma ok_shards: "Collector_ok c \<Longrightarrow> shardIndex ip < length (shards c)"
  by (simp add: Collector_ok_def)

lemma ok_shard: "Collector_ok c \<Longrightarrow> shard_ok (shardIndex ip) (shards c ! shardIndex ip)"
  by (simp add: Collector_ok_def)

lemma shards_on_shard:
  assumes "Collector_ok c"
  shows "shards (fst (on_shard ip f c)) ! shardIndex ip' =
    (if shardIndex ip' = shardIndex ip then fst (f (shards c ! shardIndex ip)) else shards c ! shardIndex ip')"
  using assms by (simp add: on_shard_def upd_shard_def ok_shards nth_list_update)

lemma snd_on_shard: "snd (on_shard ip f c) = snd (f (shards c ! shardIndex ip))"
  by (simp add: on_shard_def)

lemma abs_sweep_pending:
  assumes "Collector_ok c"
  shows "abs_pending (sweep_pending cutoff c) ip xid =
    (case abs_pending c ip xid of None \<Rightarrow> None | Some t \<Rightarrow> if t < cutoff then None else Some t)"
    and "abs_active (sweep_pending cutoff c) = abs_active c"
proof -
  have m: "map_ok (pending (shards c ! shardIndex ip))"
    using ok_shard [OF assms, of ip] unfolding shard_ok_def by blast
  show "abs_pending (sweep_pending cutoff c) ip xid =
    (case abs_pending c ip xid of None \<Rightarrow> None | Some t \<Rightarrow> if t < cutoff then None else Some t)"
    by (cases "map_of (pending (shards c ! shardIndex ip)) (pendingKey ip xid)")
      (simp_all add: abs_pending_def sweep_pending_eq sweep_shard_def ok_shards [OF assms] map_of_sweep [OF m])
  show "abs_active (sweep_pending cutoff c) = abs_active c"
    by (simp add: abs_active_def fun_eq_iff sweep_pending_eq sweep_shard_def ok_shards [OF assms])
qed

lemma abs_maybe_sweep:
  assumes "Collector_ok c"
  shows "abs_pending c ip xid = Some t \<Longrightarrow> ts - PendingTTL \<le> t \<Longrightarrow> abs_pending (maybe_sweep ts c) ip xid = Some t"
    and "abs_pending c ip xid = None \<Longrightarrow> abs_pending (maybe_sweep ts c) ip xid = None"
    and "abs_active (maybe_sweep ts c) = abs_active c"
proof -
  have ok: "Collector_ok (c\<lparr>framesSinceSweep := 0\<rparr>)" using assms by (simp add: Collector_ok_def)
  have eq: "abs_pending (c\<lparr>framesSinceSweep := n\<rparr>) = abs_pending c"
    "abs_active (c\<lparr>framesSinceSweep := n\<rparr>) = abs_active c" for n
    by (simp_all add: abs_pending_def abs_active_def fun_eq_iff)
  show "abs_pending c ip xid = Some t \<Longrightarrow> ts - PendingTTL \<le> t \<Longrightarrow> abs_pending (maybe_sweep ts c) ip xid = Some t"
    "abs_pending c ip xid = None \<Longrightarrow> abs_pending (maybe_sweep ts c) ip xid = None"
    "abs_active (maybe_sweep ts c) = abs_active c"
    by (auto simp: maybe_sweep_eq abs_sweep_pending [OF ok] eq)
qed

lemma abs_touch:
  assumes "Collector_ok c"
  shows "abs_pending (fst (on_shard ip (touch_active ip now) c)) = abs_pending c"
    and "abs_active (fst (on_shard ip (touch_active ip now) c)) = (abs_active c)(ip \<mapsto> now)"
  by (auto simp: abs_pending_def abs_active_def shards_on_shard [OF assms] touch_active_def gm.look_put fun_eq_iff)

lemma abs_put:
  assumes "Collector_ok c" "CHR ''|'' \<notin> set ip" "CHR ''|'' \<notin> set ip'"
  shows "abs_pending (fst (on_shard ip (put_pending ip xid ts) c)) ip' xid' =
      (if ip' = ip \<and> xid' = xid \<and> Inc NtpCapturePendingOverflowTotal [] \<notin> set (snd (on_shard ip (put_pending ip xid ts) c))
       then Some ts else abs_pending c ip' xid')"
    and "abs_active (fst (on_shard ip (put_pending ip xid ts) c)) = abs_active c"
  using pendingKey_inject [OF assms(2,3), of xid xid']
  by (auto simp: abs_pending_def abs_active_def shards_on_shard [OF assms(1)] snd_on_shard put_pending_def
      Let_def gm.look_put fun_eq_iff)

lemma abs_take:
  assumes "Collector_ok c" "CHR ''|'' \<notin> set ip" "CHR ''|'' \<notin> set ip'"
  shows "abs_pending (fst (on_shard ip (take_pending ip xid ts) c)) ip' xid' =
      (if ip' = ip \<and> xid' = xid then None else abs_pending c ip' xid')"
    and "abs_active (fst (on_shard ip (take_pending ip xid ts) c)) = abs_active c"
  using pendingKey_inject [OF assms(2,3), of xid xid']
  by (auto simp: abs_pending_def abs_active_def shards_on_shard [OF assms(1)] take_pending_def Let_def
      gm.look_del fun_eq_iff split: option.splits)

lemma take_events:
  "snd (on_shard ip (take_pending ip xid ts) c) =
     (case abs_pending c ip xid of None \<Rightarrow> []
      | Some t \<Rightarrow> if t \<le> ts then [HistObserve NtpResponseLatencySeconds (dur_Seconds (time_Sub ts t))] else [])"
  by (auto simp: on_shard_def take_pending_def abs_pending_def Let_def dur_Seconds_nonneg_iff
      time_Sub_nonneg_iff split: option.splits)

subsection \<open>Pairing requests and responses\<close>

text \<open>The frame belongs to another exchange than \<open>(ip, xid)\<close>, and no sweep of the call reaches
  entries as young as \<open>t\<close>.\<close>

fun spares :: "string \<Rightarrow> bytes \<Rightarrow> time \<Rightarrow> op \<Rightarrow> bool" where
  "spares ip xid t (Frame R now wall wi d ip' fam ver xid' ts) \<longleftrightarrow>
     CHR ''|'' \<notin> set ip' \<and> (ip', xid') \<noteq> (ip, Some xid) \<and> ts - PendingTTL \<le> t"
| "spares ip xid t (Flushing Log now wall1 wall2 r) \<longleftrightarrow> wall1 - PendingTTL \<le> t"

lemma abs_request:
  assumes "Collector_ok c" "wi < length (workers c)" "CHR ''|'' \<notin> set ip" "CHR ''|'' \<notin> set ip'"
    and H: "HandleFrame R now wall wi ''request'' ip fam ver xid ts c = Some (c', ev)"
  shows "abs_pending c' ip' xid' =
      (if ip' = ip \<and> xid = Some xid' \<and> Inc NtpCapturePendingOverflowTotal [] \<notin> set ev then Some ts
       else abs_pending (maybe_sweep ts c) ip' xid')"
    and "abs_active c' = (abs_active c)(ip \<mapsto> now)"
proof -
  let ?c1 = "upd_worker wi (count_request (R ip) fam ver) (maybe_sweep ts c)"
  let ?c2 = "fst (on_shard ip (touch_active ip now) ?c1)"
  have c1: "Collector_ok ?c1"
    using assms(1,2) by (auto intro!: Collector_ok_upd_worker maybe_sweep_ok counters_ok_count_request)
  obtain c3 where c3: "Collector_ok c3" "shards c3 = shards ?c2"
    and H': "HandleFrame R now wall wi ''request'' ip fam ver xid ts c =
       (case xid of None \<Rightarrow> Some (c3, Inc NtpCapturePacketsTotal [''request''] # snd (on_shard ip (touch_active ip now) ?c1))
        | Some x \<Rightarrow> Some (fst (on_shard ip (put_pending ip x ts) c3),
            Inc NtpCapturePacketsTotal [''request''] # snd (on_shard ip (touch_active ip now) ?c1)
            @ snd (on_shard ip (put_pending ip x ts) c3)))"
    using HandleFrame_request [OF assms(1,2), of ip wall now R fam ver ts xid] by blast
  have abs3: "abs_pending c3 = abs_pending (maybe_sweep ts c)" "abs_active c3 = (abs_active c)(ip \<mapsto> now)"
    using abs_cong [OF c3(2)] abs_touch [OF c1] abs_maybe_sweep(3) [OF assms(1)]
      abs_cong [of ?c1 "maybe_sweep ts c"] by simp_all
  have no: "Inc NtpCapturePendingOverflowTotal [] \<notin> set (Inc NtpCapturePacketsTotal [''request''] # snd (on_shard ip (touch_active ip now) ?c1))"
    by (auto simp: snd_on_shard touch_active_def NtpCapturePendingOverflowTotal_def NtpCapturePacketsTotal_def mk_def
        split: option.splits)
  show "abs_pending c' ip' xid' =
      (if ip' = ip \<and> xid = Some xid' \<and> Inc NtpCapturePendingOverflowTotal [] \<notin> set ev then Some ts
       else abs_pending (maybe_sweep ts c) ip' xid')"
    using H H' no abs3 abs_put(1) [OF c3(1) assms(3,4), of _ ts xid'] by (cases xid) auto
  show "abs_active c' = (abs_active c)(ip \<mapsto> now)"
    using H H' abs3 abs_put(2) [OF c3(1) assms(3,4)] by (cases xid) auto
qed

lemma abs_response:
  assumes "Collector_ok c" "wi < length (workers c)" "CHR ''|'' \<notin> set ip" "CHR ''|'' \<notin> set ip'" "d \<noteq> ''request''"
    and H: "HandleFrame R now wall wi d ip fam ver xid ts c = Some (c', ev)"
  shows "abs_pending c' ip' xid' =
      (if ip' = ip \<and> xid = Some xid' then None else abs_pending (maybe_sweep ts c) ip' xid')"
    and "abs_active c' = abs_active c"
    and "observations NtpResponseLatencySeconds ev =
      (case Option.bind xid (abs_pending (maybe_sweep ts c) ip) of None \<Rightarrow> []
       | Some t \<Rightarrow> if t \<le> ts then [dur_Seconds (time_Sub ts t)] else [])"
proof -
  let ?c1 = "upd_worker wi (count_response (R ip)) (maybe_sweep ts c)"
  have c1: "Collector_ok ?c1"
    using assms(1,2) by (auto intro!: Collector_ok_upd_worker maybe_sweep_ok counters_ok_count_response)
  have abs1: "abs_pending ?c1 = abs_pending (maybe_sweep ts c)" "abs_active ?c1 = abs_active c"
    using abs_cong [of ?c1 "maybe_sweep ts c"] abs_maybe_sweep(3) [OF assms(1)] by simp_all
  note H' = HandleFrame_response [OF assms(2,5), of R now wall ip fam ver xid ts]
  show "abs_pending c' ip' xid' =
      (if ip' = ip \<and> xid = Some xid' then None else abs_pending (maybe_sweep ts c) ip' xid')"
    using H H' abs1 abs_take(1) [OF c1 assms(3,4), of _ ts xid'] by (cases xid) auto
  show "abs_active c' = abs_active c"
    using H H' abs1 abs_take(2) [OF c1 assms(3,4)] by (cases xid) auto
  show "observations NtpResponseLatencySeconds ev =
      (case Option.bind xid (abs_pending (maybe_sweep ts c) ip) of None \<Rightarrow> []
       | Some t \<Rightarrow> if t \<le> ts then [dur_Seconds (time_Sub ts t)] else [])"
    using H H' abs1 by (cases xid) (auto simp: take_events observations_def split: option.splits)
qed

lemma abs_Flush:
  assumes "Collector_ok c" and H: "Flush Log now wall1 wall2 r l c = Some (c', l', ev)"
  shows "abs_pending c' ip xid = (case abs_pending c ip xid of None \<Rightarrow> None
      | Some t \<Rightarrow> if t < wall1 - PendingTTL then None else Some t)"
    and "abs_active c' ip = (case abs_active c ip of None \<Rightarrow> None
      | Some t \<Rightarrow> if t < now - ActiveWindow then None else Some t)"
proof -
  have "shards c' = map (\<lambda>sh. sweep_shard (wall1 - PendingTTL) (evict_shard (now - ActiveWindow) sh)) (shards c)"
    using H flush_unique_eq [OF flushed_ok [OF assms(1)], of wall2 now wall1 Log]
    by (auto simp: Flush_eq flushed_def Let_def)
  then have sh: "shards c' ! shardIndex ip =
      sweep_shard (wall1 - PendingTTL) (evict_shard (now - ActiveWindow) (shards c ! shardIndex ip))"
    by (simp add: ok_shards [OF assms(1)])
  have m: "map_ok (pending (shards c ! shardIndex ip))" "map_ok (active (shards c ! shardIndex ip))"
    using ok_shard [OF assms(1), of ip] unfolding shard_ok_def by blast+
  show "abs_pending c' ip xid = (case abs_pending c ip xid of None \<Rightarrow> None
      | Some t \<Rightarrow> if t < wall1 - PendingTTL then None else Some t)"
    by (cases "map_of (pending (shards c ! shardIndex ip)) (pendingKey ip xid)")
      (simp_all add: abs_pending_def sh sweep_shard_def evict_shard_def map_of_sweep [OF m(1)])
  show "abs_active c' ip = (case abs_active c ip of None \<Rightarrow> None
      | Some t \<Rightarrow> if t < now - ActiveWindow then None else Some t)"
    by (simp add: abs_active_def sh sweep_shard_def evict_shard_def map_of_sweep [OF m(2)])
qed

text \<open>A call that spares an entry keeps it.\<close>

lemma exec_op_spares:
  assumes "Collector_ok (fst st)" "op_ok (length (workers (fst st))) op" "CHR ''|'' \<notin> set ip"
    "spares ip xid t op" "abs_pending (fst st) ip xid = Some t" "exec_op op st = Some (st', ev)"
  shows "abs_pending (fst st') ip xid = Some t"
proof (cases op)
  case (Frame R now wall wi d ip' fam ver xid' ts)
  obtain c' where H: "HandleFrame R now wall wi d ip' fam ver xid' ts (fst st) = Some (c', ev)" "fst st' = c'"
    using assms(6) Frame by (cases st) auto
  have sp: "CHR ''|'' \<notin> set ip'" "ip = ip' \<Longrightarrow> xid' \<noteq> Some xid" "ts - PendingTTL \<le> t" "wi < length (workers (fst st))"
    using assms(2,4) Frame by auto
  have keep: "abs_pending (maybe_sweep ts (fst st)) ip xid = Some t"
    using assms(1,5) sp(3) by (intro abs_maybe_sweep(1))
  show ?thesis
  proof (cases "d = ''request''")
    case True
    then show ?thesis
      using abs_request(1) [OF assms(1) sp(4,1) assms(3), of R now wall fam ver xid' ts c' ev xid] H sp(2) keep by auto
  next
    case False
    then show ?thesis
      using abs_response(1) [OF assms(1) sp(4,1) assms(3) False, of R now wall fam ver xid' ts c' ev xid] H sp(2) keep by auto
  qed
next
  case (Flushing Log now wall1 wall2 r)
  obtain c' l' where H: "Flush Log now wall1 wall2 r (snd st) (fst st) = Some (c', l', ev)" "fst st' = c'"
    using assms(6) Flushing by (cases st) auto
  then show ?thesis
    using abs_Flush(1) [OF assms(1) H(1), of ip xid] assms(4,5) Flushing by simp
qed

lemma run_spares:
  assumes "Collector_ok (fst st)" "CHR ''|'' \<notin> set ip" "abs_pending (fst st) ip xid = Some t"
    "run ops st = Some (st', ev)"
    "\<forall>op \<in> set ops. op_ok (length (workers (fst st))) op \<and> spares ip xid t op"
  shows "abs_pending (fst st') ip xid = Some t"
  using assms
proof (induction ops arbitrary: st ev)
  case (Cons op ops)
  obtain st1 ev1 where 1: "exec_op op st = Some (st1, ev1)" "Collector_ok (fst st1)"
    "length (workers (fst st1)) = length (workers (fst st))"
    using exec_op_keeps [of st op] Cons.prems(1,5) by auto
  then obtain ev2 where 2: "run ops st1 = Some (st', ev2)"
    using Cons.prems(4) by (auto split: option.splits)
  have "abs_pending (fst st1) ip xid = Some t"
    using exec_op_spares [OF Cons.prems(1) _ Cons.prems(2) _ Cons.prems(3) 1(1)] Cons.prems(5) by simp
  then show ?case
    using Cons.IH [OF 1(2) Cons.prems(2) _ 2] Cons.prems(5) 1(3) by simp
qed simp

text \<open>C1: a request and its response are paired even when different workers see them: after a
  request for \<open>(ip, xid)\<close> at \<open>ts1\<close> that found room in the table, any calls for other exchanges and any
  flushes within the time-to-live leave the entry in place, and the response at \<open>ts2\<close> makes exactly
  one latency observation, of \<open>ts2 - ts1\<close>, and takes the entry out; a duplicate of the response
  observes nothing.\<close>

theorem pairing:
  assumes "Collector_ok c" "wi < length (workers c)" "wj < length (workers c)" "wk < length (workers c)"
    "CHR ''|'' \<notin> set ip"
    "HandleFrame R1 now1 wall1 wi ''request'' ip fam1 ver1 (Some xid) ts1 c = Some (c1, ev1)"
    "Inc NtpCapturePendingOverflowTotal [] \<notin> set ev1"
    "\<forall>op \<in> set ops. op_ok (length (workers c)) op \<and> spares ip xid ts1 op"
    "run ops (c1, l1) = Some ((c2, l2), ev2)"
    "HandleFrame R2 now2 wall2 wj ''response'' ip fam2 ver2 (Some xid) ts2 c2 = Some (c3, ev3)"
    "ts1 \<le> ts2" "ts2 \<le> ts1 + PendingTTL"
    "HandleFrame R3 now3 wall3 wk ''response'' ip fam3 ver3 (Some xid) ts3 c3 = Some (c4, ev4)"
  shows "observations NtpResponseLatencySeconds ev3 = [dur_Seconds (ts2 - ts1)]
    \<and> observations NtpResponseLatencySeconds ev4 = []"
proof -
  have c1: "Collector_ok c1" "length (workers c1) = length (workers c)"
    using HandleFrame_next [OF assms(1,2,6)] by simp_all
  have "abs_pending c1 ip xid = Some ts1"
    using abs_request(1) [OF assms(1,2,5,5,6), of xid] assms(7) by simp
  then have p2: "abs_pending c2 ip xid = Some ts1"
    using run_spares [of "(c1, l1)" ip xid ts1 ops "(c2, l2)" ev2] c1 assms(5,8,9) by simp
  have c2: "Collector_ok c2" "length (workers c2) = length (workers c)"
    using run_next [of "(c1, l1)" ops "(c2, l2)" ev2] c1 assms(8,9) by simp_all
  have wj: "wj < length (workers c2)" using assms(3) c2(2) by simp
  have c3: "Collector_ok c3" "length (workers c3) = length (workers c)"
    using HandleFrame_next [OF c2(1) wj assms(10)] c2(2) by simp_all
  have sub: "time_Sub ts2 ts1 = ts2 - ts1"
    using assms(11,12) by (intro time_Sub_exact) (simp add: PendingTTL_def Second_def)
  have m2: "abs_pending (maybe_sweep ts2 c2) ip xid = Some ts1"
    using abs_maybe_sweep(1) [OF c2(1) p2] assms(12) by simp
  have "abs_pending c3 ip xid = None"
    using abs_response(1) [OF c2(1) wj assms(5,5) _ assms(10), of xid] by simp
  then have "abs_pending (maybe_sweep ts3 c3) ip xid = None"
    by (rule abs_maybe_sweep(2) [OF c3(1)])
  then show ?thesis
    using abs_response(3) [OF c2(1) wj assms(5,5) _ assms(10)] m2 sub assms(11)
      abs_response(3) [OF c3(1) _ assms(5,5) _ assms(13)] assms(4) c3(2) by simp
qed

lemma no_overflow:
  assumes "Collector_ok c" "wi < length (workers c)" "length (pending (shards c ! shardIndex ip)) < PendingMax"
    and H: "HandleFrame R now wall wi ''request'' ip fam ver xid ts c = Some (c', ev)"
  shows "Inc NtpCapturePendingOverflowTotal [] \<notin> set ev"
proof -
  let ?c1 = "upd_worker wi (count_request (R ip) fam ver) (maybe_sweep ts c)"
  let ?c2 = "fst (on_shard ip (touch_active ip now) ?c1)"
  obtain c3 where c3: "shards c3 = shards ?c2"
    and H': "HandleFrame R now wall wi ''request'' ip fam ver xid ts c =
       (case xid of None \<Rightarrow> Some (c3, Inc NtpCapturePacketsTotal [''request''] # snd (on_shard ip (touch_active ip now) ?c1))
        | Some x \<Rightarrow> Some (fst (on_shard ip (put_pending ip x ts) c3),
            Inc NtpCapturePacketsTotal [''request''] # snd (on_shard ip (touch_active ip now) ?c1)
            @ snd (on_shard ip (put_pending ip x ts) c3)))"
    using HandleFrame_request [OF assms(1,2), of ip wall now R fam ver ts xid] by blast
  have c1: "Collector_ok ?c1"
    using assms(1,2) by (auto intro!: Collector_ok_upd_worker maybe_sweep_ok counters_ok_count_request)
  have "length (pending (shards (maybe_sweep ts c) ! shardIndex ip)) \<le> length (pending (shards c ! shardIndex ip))"
    using ok_shards [OF assms(1), of ip]
    by (simp add: maybe_sweep_eq sweep_pending_eq sweep_shard_def length_sweep_le)
  then have "length (pending (shards c3 ! shardIndex ip)) < PendingMax"
    using assms(3) by (simp add: c3 shards_on_shard [OF c1] touch_active_def)
  then have "snd (on_shard ip (put_pending ip x ts) c3) = []" for x
    by (simp add: snd_on_shard put_pending_def Let_def)
  then show ?thesis
    using H H' by (cases xid) (auto simp: snd_on_shard touch_active_def NtpCapturePendingOverflowTotal_def
      NtpCapturePacketsTotal_def mk_def split: option.splits)
qed

text \<open>A collector just created, for the witnesses.\<close>

lemma fresh_collector:
  "\<exists>c. Collector_New topN n = Some c \<and> Collector_ok c \<and> length (workers c) = nat (max 1 n)
     \<and> shards c = replicate 16 \<lparr>pending = [], active = []\<rparr> \<and> workers c = replicate (nat (max 1 n)) newWorkerCounters
     \<and> hourly c = replicate 24 (the NewDefault) \<and> \<not> hourSet c"
  using Collector_New_ok [of topN n]
  by (subst Collector_New_def, subst NewDefault_Some(1), subst (asm) Collector_New_def, subst (asm) NewDefault_Some(1))
    (auto simp: NumShards_def)

definition geo0 :: "string \<Rightarrow> GeoResult" where
  "geo0 ip = \<lparr>Country = ''SE'', Continent = ''EU'', ASN = 64496, HasASN = True, ASOrg = ''Example''\<rparr>"

theorem pairing_witness:
  "\<exists>c c1 ev1 c2 l2 ev2 c3 ev3 c4 ev4. Collector_New 20 2 = Some c
     \<and> HandleFrame geo0 0 0 0 ''request'' ''192.0.2.1'' ''ipv4'' ''4'' (Some [7]) 1000 c = Some (c1, ev1)
     \<and> run [Flushing (\<lambda>x. x - 1) 0 5000 0 None] (c1, None) = Some ((c2, l2), ev2)
     \<and> HandleFrame geo0 0 0 1 ''response'' ''192.0.2.1'' ''ipv4'' ''4'' (Some [7]) 1500 c2 = Some (c3, ev3)
     \<and> HandleFrame geo0 0 0 0 ''response'' ''192.0.2.1'' ''ipv4'' ''4'' (Some [7]) 1600 c3 = Some (c4, ev4)
     \<and> observations NtpResponseLatencySeconds ev3 = [dur_Seconds 500]
     \<and> observations NtpResponseLatencySeconds ev4 = []"
proof -
  obtain c where c: "Collector_New 20 2 = Some c" "Collector_ok c" "length (workers c) = 2"
    "shards c = replicate 16 \<lparr>pending = [], active = []\<rparr>"
    using fresh_collector [of 20 2] by auto
  let ?ip = "''192.0.2.1''" and ?ops = "[Flushing (\<lambda>x. x - 1) 0 5000 0 None]"
  obtain c1 ev1 where 1: "HandleFrame geo0 0 0 0 ''request'' ?ip ''ipv4'' ''4'' (Some [7]) 1000 c = Some (c1, ev1)"
    "Collector_ok c1" "length (workers c1) = 2"
    using HandleFrame_keeps [of c 0 geo0 0 0 "''request''" ?ip "''ipv4''" "''4''" "Some [7]" 1000] c by auto
  obtain c2 l2 ev2 where 2: "run ?ops (c1, None) = Some ((c2, l2), ev2)" "Collector_ok c2" "length (workers c2) = 2"
    using run_keeps [of "(c1, None)" ?ops] 1 by (auto simp del: run.simps)
  obtain c3 ev3 where 3: "HandleFrame geo0 0 0 1 ''response'' ?ip ''ipv4'' ''4'' (Some [7]) 1500 c2 = Some (c3, ev3)"
    "Collector_ok c3" "length (workers c3) = 2"
    using HandleFrame_keeps [of c2 1 geo0 0 0 "''response''" ?ip "''ipv4''" "''4''" "Some [7]" 1500] 2 by auto
  obtain c4 ev4 where 4: "HandleFrame geo0 0 0 0 ''response'' ?ip ''ipv4'' ''4'' (Some [7]) 1600 c3 = Some (c4, ev4)"
    using HandleFrame_keeps [of c3 0 geo0 0 0 "''response''" ?ip "''ipv4''" "''4''" "Some [7]" 1600] 3 by auto
  have "pending (shards c ! shardIndex ?ip) = []"
    using c(4) shardIndex_less [of ?ip] by (simp add: NumShards_def)
  then have "Inc NtpCapturePendingOverflowTotal [] \<notin> set ev1"
    using no_overflow [OF c(2) _ _ 1(1)] c(3) by (simp add: PendingMax_def)
  with pairing [of c 0 1 0 ?ip geo0 0 0 "''ipv4''" "''4''" "[7]" 1000 c1 ev1 ?ops None c2 l2 ev2 geo0 0 0
      "''ipv4''" "''4''" 1500 c3 ev3 geo0 0 0 "''ipv4''" "''4''" 1600 c4 ev4] c 1 2 3 4
  have "observations NtpResponseLatencySeconds ev3 = [dur_Seconds 500] \<and> observations NtpResponseLatencySeconds ev4 = []"
    by (simp add: PendingTTL_def Second_def del: run.simps)
  with c 1 2 3 4 show ?thesis by blast
qed

end
