(* ===== verification/Counting.thy ===== *)
theory Counting
  imports Pairing
begin

section \<open>Published counts\<close>

text \<open>
  What \<open>Flush\<close> publishes, and that over any run every request is published exactly once in each
  family of counters (locale \<open>published\<close>).
\<close>

subsection \<open>What a flush publishes\<close>

text \<open>The counts the workers hold between flushes.\<close>

definition held :: "(workerCounters \<Rightarrow> ('k, int) gomap) \<Rightarrow> Collector \<Rightarrow> 'k \<Rightarrow> int" where
  "held f c k = sum_list (map (\<lambda>wc. getz (f wc) k) (workers c))"

definition held_total :: "(workerCounters \<Rightarrow> ('k, int) gomap) \<Rightarrow> Collector \<Rightarrow> int" where
  "held_total f c = sum_list (map (\<lambda>wc. total (f wc)) (workers c))"

text \<open>The fields of a counter set that \<open>drain\<close> adds up.\<close>

definition summed :: "(workerCounters \<Rightarrow> ('k, int) gomap) \<Rightarrow> bool" where
  "summed f \<longleftrightarrow> f newWorkerCounters = [] \<and> (\<forall>wc acc. f (drain wc acc) = addall (f wc) (f acc))
     \<and> (\<forall>wc. counters_ok wc \<longrightarrow> pos_map (f wc))"

lemma summed_fields: "summed requests" "summed responses" "summed asnRequests" "summed versionRequests" "summed familyRequests"
  by (simp_all add: summed_def newWorkerCounters_def drain_def counters_ok_def)

lemma getz_foldl_drain:
  assumes "summed f" "\<forall>wc \<in> set wcs. counters_ok wc"
  shows "getz (f (foldl (\<lambda>acc wc. drain wc acc) acc wcs)) k = getz (f acc) k + sum_list (map (\<lambda>wc. getz (f wc) k) wcs)"
    "total (f (foldl (\<lambda>acc wc. drain wc acc) acc wcs)) = total (f acc) + sum_list (map (\<lambda>wc. total (f wc)) wcs)"
  using assms(2)
proof (induction wcs arbitrary: acc)
  case (Cons wc wcs)
  have f: "f (drain wc acc) = addall (f wc) (f acc)" for acc using assms(1) by (simp add: summed_def)
  {
    case 1
    then have "map_ok (f wc)" using assms(1) by (auto simp: summed_def pos_map_def)
    with 1 Cons.IH(1) show ?case by (simp add: f getz_addall)
  next
    case 2
    with Cons.IH(2) show ?case by (simp add: f total_addall)
  }
qed simp_all

lemma snapshot_held:
  assumes "summed f" "Collector_ok c"
  shows "getz (f (snapshot (workers c))) k = held f c k" "total (f (snapshot (workers c))) = held_total f c"
    "pos_map (f (snapshot (workers c)))"
proof -
  have wcs: "\<forall>wc \<in> set (workers c). counters_ok wc" using assms(2) by (simp add: Collector_ok_def)
  show "getz (f (snapshot (workers c))) k = held f c k" "total (f (snapshot (workers c))) = held_total f c"
    using getz_foldl_drain [OF assms(1) wcs, of newWorkerCounters] assms(1)
    by (simp_all add: snapshot_def held_def held_total_def summed_def getz_Nil total_Nil)
  show "pos_map (f (snapshot (workers c)))"
    using counters_ok_snapshot [OF wcs] assms(1) by (simp add: summed_def)
qed

text \<open>Summing the additions to one child over a map with distinct keys.\<close>

fun metric_of :: "event \<Rightarrow> metric" where
  "metric_of (WithLabelValues m ls) = m"
| "metric_of (CounterAdd m ls v) = m"
| "metric_of (GaugeSet m ls v) = m"
| "metric_of (HistObserve m v) = m"

lemma counted_other: "\<forall>e \<in> set es. Name (metric_of e) \<noteq> Name m \<Longrightarrow> counted m ls es = 0"
  by (induction es) (auto simp: counted_def split: event.splits)

lemma counted_concat: "counted m ls (concat (map g xs)) = sum_list (map (\<lambda>x. counted m ls (g x)) xs)"
  by (induction xs) simp_all

lemma counted_Cons:
  "counted m ls (e # es) = counted m ls [e] + counted m ls es"
  by (simp add: counted_def)

lemma counted_single: "counted m ls [CounterAdd m ls' v] = (if ls' = ls then v else 0)"
  by (simp add: counted_def)

lemma counted_concat_key:
  assumes "map_ok m" "h 0 = 0" "\<And>k' n. counted M ls (g (k', n)) = (if k' = k then h n else 0)"
  shows "counted M ls (concat (map g m)) = h (getz m k)"
  using assms(1)
proof (induction m)
  case (Cons kn m)
  obtain k' n where kn: "kn = (k', n)" by (cases kn)
  have "map_ok m" "k' \<notin> fst ` set m" using Cons.prems by (auto simp: map_ok_def kn)
  then show ?case
    using Cons.IH by (auto simp: kn getz_Cons getz_notin assms(2,3))
qed (simp add: getz_Nil assms(2))

lemma metric_names [simp]:
  "Name NtpClientRequestsTotal = ''ntp_client_requests_total''"
  "Name NtpClientDropsTotal = ''ntp_client_drops_total''"
  "Name NtpClientRequestsByASNTotal = ''ntp_client_requests_by_asn_total''"
  "Name NtpClientsActive = ''ntp_clients_active''"
  "Name NtpClientsUniqueDaily = ''ntp_clients_unique_daily''"
  "Name NtpCapturePacketsTotal = ''ntp_capture_packets_total''"
  "Name NtpCaptureKernelDropsTotal = ''ntp_capture_kernel_drops_total''"
  "Name NtpCapturePendingOverflowTotal = ''ntp_capture_pending_overflow_total''"
  "Name NtpClientRequestsByVersionTotal = ''ntp_client_requests_by_version_total''"
  "Name NtpClientRequestsByFamilyTotal = ''ntp_client_requests_by_family_total''"
  "Name NtpClientRequestIntervalSeconds = ''ntp_client_request_interval_seconds''"
  "Name NtpResponseLatencySeconds = ''ntp_response_latency_seconds''"
  by (simp_all add: metric_defs mk_def mk_hist_def)

lemma names_publish:
  "e \<in> set (publish_requests s) \<Longrightarrow> metric_of e \<in> {NtpClientRequestsTotal, NtpClientDropsTotal}"
  "e \<in> set (publish_asn t s) \<Longrightarrow> metric_of e = NtpClientRequestsByASNTotal"
  "e \<in> set (publish_version s) \<Longrightarrow> metric_of e = NtpClientRequestsByVersionTotal"
  "e \<in> set (publish_family s) \<Longrightarrow> metric_of e = NtpClientRequestsByFamilyTotal"
  "e \<in> set (snd (flush_drops r l)) \<Longrightarrow> metric_of e = NtpCaptureKernelDropsTotal"
  by (auto simp: publish_requests_def publish_asn_def publish_version_def publish_family_def
      flush_drops_def Let_def case_prod_beta split: if_splits option.splits)

lemma labels_eq: "[country k', continent k'] = [country k, continent k] \<longleftrightarrow> k' = k" for k k' :: countryKey
  by auto

lemma metric_neq:
  "NtpClientRequestsTotal \<noteq> NtpClientDropsTotal" "NtpClientDropsTotal \<noteq> NtpClientRequestsTotal"
  by (auto dest!: arg_cong [of _ _ Name])

lemma counted_publish_requests:
  assumes "map_ok (requests s)" "0 \<le> getz (responses s) k"
  shows "counted NtpClientRequestsTotal [country k, continent k] (publish_requests s) = fl (of_int (getz (requests s) k))"
    "counted NtpClientDropsTotal [country k, continent k] (publish_requests s)
       = fl (of_int (max 0 (getz (requests s) k - getz (responses s) k)))"
  unfolding publish_requests_def
proof -
  let ?g = "\<lambda>(k', n). CounterAdd NtpClientRequestsTotal [country k', continent k'] (fl (of_int n)) #
     (let drops = n - getz (responses s) k' in
      if drops > 0 then [CounterAdd NtpClientDropsTotal [country k', continent k'] (fl (of_int drops))] else [])"
  show "counted NtpClientRequestsTotal [country k, continent k] (concat (map ?g (requests s)))
      = fl (of_int (getz (requests s) k))"
    by (rule counted_concat_key [OF assms(1)])
      (use labels_eq [of _ k] in \<open>auto simp: counted_def Let_def metric_neq\<close>)
  show "counted NtpClientDropsTotal [country k, continent k] (concat (map ?g (requests s)))
      = fl (of_int (max 0 (getz (requests s) k - getz (responses s) k)))"
    by (rule counted_concat_key [OF assms(1), of "\<lambda>n. fl (of_int (max 0 (n - getz (responses s) k)))"])
      (use assms(2) labels_eq [of _ k] in \<open>auto simp: counted_def Let_def metric_neq\<close>)
qed

lemma counted_publish_map:
  assumes "map_ok m" "\<And>k k'. f k = f k' \<Longrightarrow> k = k'"
  shows "counted M (f k) (map (\<lambda>(k, n). CounterAdd M (f k) (fl (of_int n))) m) = fl (of_int (getz m k))"
proof -
  have "map (\<lambda>(k, n). CounterAdd M (f k) (fl (of_int n))) m =
      concat (map (\<lambda>(k, n). [CounterAdd M (f k) (fl (of_int n))]) m)"
    by (induction m) auto
  then show ?thesis
    using assms(2) by (auto simp: counted_single intro!: counted_concat_key [OF assms(1)])
qed

lemma workers_HandleFrame:
  assumes "Collector_ok c" "wi < length (workers c)"
    "HandleFrame R now wall wi d ip fam ver xid ts c = Some (c', ev)"
  shows "workers c' = (workers c)[wi := (if d = ''request'' then count_request (R ip) fam ver (workers c ! wi)
    else count_response (R ip) (workers c ! wi))]"
proof (cases "d = ''request''")
  case True
  obtain c3 where "workers c3 = workers (upd_worker wi (count_request (R ip) fam ver) (maybe_sweep ts c))"
    and "HandleFrame R now wall wi ''request'' ip fam ver xid ts c =
       (case xid of None \<Rightarrow> Some (c3, Inc NtpCapturePacketsTotal [''request''] # snd (on_shard ip (touch_active ip now)
            (upd_worker wi (count_request (R ip) fam ver) (maybe_sweep ts c))))
        | Some x \<Rightarrow> Some (fst (on_shard ip (put_pending ip x ts) c3),
            Inc NtpCapturePacketsTotal [''request''] # snd (on_shard ip (touch_active ip now)
              (upd_worker wi (count_request (R ip) fam ver) (maybe_sweep ts c)))
            @ snd (on_shard ip (put_pending ip x ts) c3)))"
    using HandleFrame_request [OF assms(1,2), of ip wall now R fam ver ts xid] by auto
  then show ?thesis
    using True assms(3) by (cases xid) (auto simp: upd_worker_def)
next
  case False
  then show ?thesis
    using HandleFrame_response [OF assms(2) False, of R now wall ip fam ver xid ts] assms(3)
    by (cases xid) (auto simp: upd_worker_def)
qed

lemma metric_of_HandleFrame:
  assumes "Collector_ok c" "wi < length (workers c)"
    "HandleFrame R now wall wi d ip fam ver xid ts c = Some (c', ev)" "e \<in> set ev"
  shows "metric_of e \<in> {NtpCapturePacketsTotal, NtpClientRequestIntervalSeconds,
    NtpCapturePendingOverflowTotal, NtpResponseLatencySeconds}"
proof -
  have touch: "metric_of e = NtpClientRequestIntervalSeconds" if "e \<in> set (snd (on_shard ip (touch_active ip now) c0))" for e c0
    using that by (auto simp: snd_on_shard touch_active_def split: option.splits)
  have put: "metric_of e = NtpCapturePendingOverflowTotal" if "e \<in> set (snd (on_shard ip (put_pending ip x ts) c0))" for e x c0
    using that by (auto simp: snd_on_shard put_pending_def Let_def split: if_splits)
  have tk: "metric_of e = NtpResponseLatencySeconds" if "e \<in> set (snd (on_shard ip (take_pending ip x ts) c0))" for e x c0
    using that by (auto simp: take_events split: option.splits if_splits)
  show ?thesis
  proof (cases "d = ''request''")
    case True
    then show ?thesis
      using HandleFrame_request [OF assms(1,2), of ip wall now R fam ver ts xid] assms(3,4)
      by (cases xid) (auto dest: touch put)
  next
    case False
    then show ?thesis
      using HandleFrame_response [OF assms(2) False, of R now wall ip fam ver xid ts] assms(3,4)
      by (cases xid) (auto dest: tk)
  qed
qed

lemma sum_list_replace:
  "i < length xs \<Longrightarrow> sum_list (map g (xs[i := x])) = sum_list (map g xs) - g (xs ! i) + (g x :: int)"
proof (induction xs arbitrary: i)
  case (Cons y ys)
  then show ?case by (cases i) auto
qed simp

lemma held_HandleFrame:
  assumes "Collector_ok c" "wi < length (workers c)"
    "HandleFrame R now wall wi d ip fam ver xid ts c = Some (c', ev)"
  shows "held requests c' k = held requests c k + (if d = ''request'' \<and> k = ckey (R ip) then 1 else 0)"
    "held responses c' k = held responses c k + (if d \<noteq> ''request'' \<and> k = ckey (R ip) then 1 else 0)"
    "held versionRequests c' v = held versionRequests c v + (if d = ''request'' \<and> v = vlabel ver then 1 else 0)"
    "held familyRequests c' v = held familyRequests c v + (if d = ''request'' \<and> v = fam then 1 else 0)"
    "held_total asnRequests c' = held_total asnRequests c + (if d = ''request'' then 1 else 0)"
  using assms(2) unfolding held_def held_total_def workers_HandleFrame [OF assms]
  by (simp_all add: sum_list_replace count_request_def count_response_def getz_bump total_bump)

lemma Flush_workers:
  assumes "Collector_ok c" "Flush Log now wall1 wall2 r l c = Some (c', l', ev)"
  shows "workers c' = replicate (length (workers c)) newWorkerCounters"
    "\<exists>ev5. set (map metric_of ev5) = {NtpClientsUniqueDaily} \<and>
       ev = snd (flush_drops r l) @ publish_requests (snapshot (workers c))
          @ (publish_asn (snd (flush_asn (snapshot (workers c))
               (c\<lparr>workers := replicate (length (workers c)) newWorkerCounters\<rparr>))) (snapshot (workers c))
             @ publish_version (snapshot (workers c)) @ publish_family (snapshot (workers c)))
          @ [GaugeSet NtpClientsActive [] (fl (of_nat (sum_list
               (map (\<lambda>sh. length (active (evict_shard (now - ActiveWindow) sh))) (shards c)))))]
          @ ev5"
  using assms(2) flush_unique_eq [OF flushed_ok [OF assms(1)], of wall2 now wall1 Log]
  by (auto simp: Flush_eq flushed_def Let_def)

lemma held_replicate: "summed f \<Longrightarrow> workers c = replicate n newWorkerCounters \<Longrightarrow> held f c k = 0 \<and> held_total f c = 0"
  by (simp add: held_def held_total_def summed_def sum_list_replicate getz_Nil total_Nil)

lemma Flush_counted:
  assumes "Collector_ok c" "Flush Log now wall1 wall2 r l c = Some (c', l', ev)"
  shows "counted NtpClientRequestsTotal [country k, continent k] ev = fl (of_int (held requests c k))"
    "counted NtpClientDropsTotal [country k, continent k] ev = fl (of_int (max 0 (held requests c k - held responses c k)))"
    "counted NtpClientRequestsByVersionTotal [v] ev = fl (of_int (held versionRequests c v))"
    "counted NtpClientRequestsByFamilyTotal [v] ev = fl (of_int (held familyRequests c v))"
proof -
  let ?s = "snapshot (workers c)"
  obtain ev5 t where e5: "set (map metric_of ev5) = {NtpClientsUniqueDaily}"
    and ev: "ev = snd (flush_drops r l) @ publish_requests ?s @ (publish_asn t ?s @ publish_version ?s @ publish_family ?s)
      @ [GaugeSet NtpClientsActive [] (fl (of_nat (sum_list
               (map (\<lambda>sh. length (active (evict_shard (now - ActiveWindow) sh))) (shards c)))))] @ ev5"
    using Flush_workers(2) [OF assms] by blast
  have e5': "metric_of e = NtpClientsUniqueDaily" if "e \<in> set ev5" for e
    using that e5 by auto
  have z: "counted M ls ev5 = 0" "counted M ls (snd (flush_drops r l)) = 0" "counted M ls (publish_asn t ?s) = 0"
    if "M \<in> {NtpClientRequestsTotal, NtpClientDropsTotal, NtpClientRequestsByVersionTotal, NtpClientRequestsByFamilyTotal}" for M ls
    using that by (auto intro!: counted_other dest: e5' names_publish)
  have y: "counted NtpClientRequestsTotal ls (publish_version ?s) = 0" "counted NtpClientRequestsTotal ls (publish_family ?s) = 0"
    "counted NtpClientDropsTotal ls (publish_version ?s) = 0" "counted NtpClientDropsTotal ls (publish_family ?s) = 0"
    "counted NtpClientRequestsByVersionTotal ls (publish_requests ?s) = 0"
    "counted NtpClientRequestsByVersionTotal ls (publish_family ?s) = 0"
    "counted NtpClientRequestsByFamilyTotal ls (publish_requests ?s) = 0"
    "counted NtpClientRequestsByFamilyTotal ls (publish_version ?s) = 0" for ls
    by (auto intro!: counted_other dest: names_publish)
  have g: "counted M ls (GaugeSet M' ls' v # es) = counted M ls es" for M ls M' ls' v es
    by (simp add: counted_def)
  note h = snapshot_held [OF summed_fields(1) assms(1)] snapshot_held [OF summed_fields(2) assms(1)]
    snapshot_held [OF summed_fields(4) assms(1)] snapshot_held [OF summed_fields(5) assms(1)]
  have ok: "map_ok (requests ?s)" "map_ok (versionRequests ?s)" "map_ok (familyRequests ?s)" "0 \<le> getz (responses ?s) k"
    using h getz_pos_map [of "responses ?s" k] by (simp_all add: pos_map_def)
  show "counted NtpClientRequestsTotal [country k, continent k] ev = fl (of_int (held requests c k))"
    "counted NtpClientDropsTotal [country k, continent k] ev = fl (of_int (max 0 (held requests c k - held responses c k)))"
    using counted_publish_requests [OF ok(1,4)] unfolding ev h by (simp_all add: z y g h)
  show "counted NtpClientRequestsByVersionTotal [v] ev = fl (of_int (held versionRequests c v))"
    using counted_publish_map [OF ok(2), of "\<lambda>v. [v]" NtpClientRequestsByVersionTotal v]
    unfolding ev by (simp add: z y g h publish_version_def)
  show "counted NtpClientRequestsByFamilyTotal [v] ev = fl (of_int (held familyRequests c v))"
    using counted_publish_map [OF ok(3), of "\<lambda>v. [v]" NtpClientRequestsByFamilyTotal v]
    unfolding ev by (simp add: z y g h publish_family_def)
qed

lemma Flush_drops:
  assumes "Collector_ok c" "Flush Log now wall1 wall2 r l c = Some (c', l', ev)"
  shows "l' = fst (flush_drops r l)"
    "counted NtpCaptureKernelDropsTotal ls ev = counted NtpCaptureKernelDropsTotal ls (snd (flush_drops r l))"
proof -
  let ?s = "snapshot (workers c)"
  show "l' = fst (flush_drops r l)"
    using assms(2) by (auto simp: Flush_def Let_def split: prod.splits bind_splits)
  obtain ev5 t where e5: "set (map metric_of ev5) = {NtpClientsUniqueDaily}"
    and ev: "ev = snd (flush_drops r l) @ publish_requests ?s @ (publish_asn t ?s @ publish_version ?s @ publish_family ?s)
      @ [GaugeSet NtpClientsActive [] (fl (of_nat (sum_list
               (map (\<lambda>sh. length (active (evict_shard (now - ActiveWindow) sh))) (shards c)))))] @ ev5"
    using Flush_workers(2) [OF assms] by blast
  have "metric_of e = NtpClientsUniqueDaily" if "e \<in> set ev5" for e using that e5 by auto
  then have "counted NtpCaptureKernelDropsTotal ls es = 0"
    if "es \<in> {publish_requests ?s, publish_asn t ?s, publish_version ?s, publish_family ?s, ev5}" for es
    using that by (auto intro!: counted_other dest: names_publish)
  then show "counted NtpCaptureKernelDropsTotal ls ev = counted NtpCaptureKernelDropsTotal ls (snd (flush_drops r l))"
    unfolding ev by (simp add: counted_def)
qed

subsection \<open>Conservation of counts over runs\<close>

text \<open>
  The contract of a counter family: a frame adds at most one to what the workers hold and publishes
  nothing, a flush publishes what they hold and resets it. Then nothing is lost or counted twice
  over any run. It is interpreted for the families by country, by NTP version and by IP family.
\<close>

locale published =
  fixes held_count :: "Collector \<Rightarrow> int" and published_sum :: "event list \<Rightarrow> float64" and key :: "op \<Rightarrow> bool"
  assumes frame: "Collector_ok c \<Longrightarrow> wi < length (workers c) \<Longrightarrow>
      HandleFrame R now wall wi d ip fam ver xid ts c = Some (c', ev) \<Longrightarrow>
      held_count c' = held_count c + (if key (Frame R now wall wi d ip fam ver xid ts) then 1 else 0)
      \<and> published_sum ev = 0"
    and flush: "Collector_ok c \<Longrightarrow> Flush Log now wall1 wall2 r l c = Some (c', l', ev) \<Longrightarrow>
      held_count c < 2 ^ 53 \<Longrightarrow> held_count c' = 0 \<and> published_sum ev = of_int (held_count c) \<and> 0 \<le> held_count c"
    and key_flush: "\<not> key (Flushing Log now wall1 wall2 r)"
    and sum_append: "published_sum (ev1 @ ev2) = published_sum ev1 + published_sum ev2"
    and sum_Nil: "published_sum [] = 0"
begin

lemma step:
  assumes "Collector_ok (fst st)" "op_ok (length (workers (fst st))) op" "exec_op op st = Some (st', ev)"
    "held_count (fst st) < 2 ^ 53"
  shows "published_sum ev + of_int (held_count (fst st')) = of_int (held_count (fst st)) + (if key op then 1 else 0)
      \<and> held_count (fst st') \<le> held_count (fst st) + 1"
proof (cases op)
  case (Frame R now wall wi d ip fam ver xid ts)
  then obtain c' where "HandleFrame R now wall wi d ip fam ver xid ts (fst st) = Some (c', ev)" "fst st' = c'"
    using assms(3) by (cases st) auto
  then show ?thesis
    using frame [OF assms(1), of wi R now wall d ip fam ver xid ts c' ev] assms(2) Frame by auto
next
  case (Flushing Log now wall1 wall2 r)
  then obtain c' l' where F: "Flush Log now wall1 wall2 r (snd st) (fst st) = Some (c', l', ev)" "fst st' = c'"
    using assms(3) by (cases st) auto
  then show ?thesis
    using flush [OF assms(1) F(1) assms(4)] Flushing key_flush by simp
qed

lemma conserved:
  assumes "Collector_ok (fst st)" "\<forall>op \<in> set ops. op_ok (length (workers (fst st))) op"
    "run ops st = Some (st', ev)" "held_count (fst st) + int (length ops) < 2 ^ 53"
  shows "published_sum ev + of_int (held_count (fst st')) = of_int (held_count (fst st)) + of_nat (length (filter key ops))"
  using assms
proof (induction ops arbitrary: st ev)
  case (Cons op ops)
  obtain st1 ev1 where 1: "exec_op op st = Some (st1, ev1)" "Collector_ok (fst st1)"
    "length (workers (fst st1)) = length (workers (fst st))"
    using exec_op_keeps [of st op] Cons.prems(1,2) by auto
  then obtain ev2 where 2: "run ops st1 = Some (st', ev2)" "ev = ev1 @ ev2"
    using Cons.prems(3) by (auto split: option.splits)
  have s: "published_sum ev1 + of_int (held_count (fst st1)) = of_int (held_count (fst st)) + (if key op then 1 else 0)"
    "held_count (fst st1) \<le> held_count (fst st) + 1"
    using step [OF Cons.prems(1) _ 1(1)] Cons.prems by auto
  have "published_sum ev2 + of_int (held_count (fst st')) =
    of_int (held_count (fst st1)) + of_nat (length (filter key ops))"
    using Cons.prems s(2) by (intro Cons.IH [OF 1(2) _ 2(1)]) (simp_all add: 1(3))
  then show ?case
    using s(1) by (auto simp: 2(2) sum_append)
qed (simp add: sum_Nil)

end

text \<open>The country, version and family a request is counted under.\<close>

fun req_country :: "op \<Rightarrow> countryKey option" where
  "req_country (Frame R now wall wi d ip fam ver xid ts) = (if d = ''request'' then Some (ckey (R ip)) else None)"
| "req_country (Flushing Log now wall1 wall2 r) = None"

fun req_version :: "op \<Rightarrow> string option" where
  "req_version (Frame R now wall wi d ip fam ver xid ts) = (if d = ''request'' then Some (vlabel ver) else None)"
| "req_version (Flushing Log now wall1 wall2 r) = None"

fun req_family :: "op \<Rightarrow> string option" where
  "req_family (Frame R now wall wi d ip fam ver xid ts) = (if d = ''request'' then Some fam else None)"
| "req_family (Flushing Log now wall1 wall2 r) = None"

lemma HandleFrame_publishes_nothing:
  assumes "Collector_ok c" "wi < length (workers c)"
    "HandleFrame R now wall wi d ip fam ver xid ts c = Some (c', ev)"
    "M \<in> {NtpClientRequestsTotal, NtpClientRequestsByVersionTotal, NtpClientRequestsByFamilyTotal}"
  shows "counted M ls ev = 0"
  using metric_of_HandleFrame [OF assms(1-3)] assms(4) by (fastforce intro!: counted_other)

lemma Flush_held:
  assumes "summed f" "Collector_ok c" "Flush Log now wall1 wall2 r l c = Some (c', l', ev)"
  shows "held f c' k = 0 \<and> 0 \<le> held f c k"
  using held_replicate [OF assms(1) Flush_workers(1) [OF assms(2,3)]] snapshot_held [OF assms(1,2)]
    getz_pos_map [of "f (snapshot (workers c))" k] by simp

lemma fl_held: "0 \<le> n \<Longrightarrow> n < 2 ^ 53 \<Longrightarrow> fl (of_int n) = of_int n"
  using fl_of_nat [of "nat n"] by simp

interpretation by_country: published "\<lambda>c. held requests c k" "counted NtpClientRequestsTotal [country k, continent k]"
    "\<lambda>op. req_country op = Some k" for k
  by unfold_locales
    (auto simp: held_HandleFrame(1) Flush_counted(1) Flush_held [OF summed_fields(1)] fl_held
      intro: HandleFrame_publishes_nothing)

interpretation by_version: published "\<lambda>c. held versionRequests c v" "counted NtpClientRequestsByVersionTotal [v]"
    "\<lambda>op. req_version op = Some v" for v
  by unfold_locales
    (auto simp: held_HandleFrame(3) Flush_counted(3) Flush_held [OF summed_fields(4)] fl_held
      intro: HandleFrame_publishes_nothing)

interpretation by_family: published "\<lambda>c. held familyRequests c v" "counted NtpClientRequestsByFamilyTotal [v]"
    "\<lambda>op. req_family op = Some v" for v
  by unfold_locales
    (auto simp: held_HandleFrame(4) Flush_counted(4) Flush_held [OF summed_fields(5)] fl_held
      intro: HandleFrame_publishes_nothing)

text \<open>By AS number the labels change between flushes, so the family is summed over all its children.\<close>

definition counted_any :: "metric \<Rightarrow> event list \<Rightarrow> float64" where
  "counted_any m es = sum_list (map (\<lambda>e. case e of CounterAdd m' ls v \<Rightarrow> (if m' = m then v else 0) | _ \<Rightarrow> 0) es)"

lemma counted_any_append [simp]: "counted_any m (es @ fs) = counted_any m es + counted_any m fs"
  by (simp add: counted_any_def)

lemma counted_any_other: "\<forall>e \<in> set es. Name (metric_of e) \<noteq> Name m \<Longrightarrow> counted_any m es = 0"
  by (induction es) (auto simp: counted_any_def split: event.splits)

lemma pos_map_total: "pos_map m \<Longrightarrow> 0 \<le> total m \<and> (\<forall>(k, n) \<in> set m. n \<le> total m)"
proof (induction m)
  case (Cons kn m)
  obtain k n where kn: "kn = (k, n)" by (cases kn)
  have "pos_map m" "0 < n" using Cons.prems by (auto simp: pos_map_def map_ok_def kn)
  then show ?case using Cons.IH by (force simp: kn total_def)
qed (simp add: total_def)

lemma sum_list_of_int: "sum_list (map of_int xs) = (of_int (sum_list xs) :: rat)"
  by (induction xs) simp_all

lemma counted_any_asn:
  assumes "pos_map (asnRequests s)" "total (asnRequests s) < 2 ^ 53"
  shows "counted_any NtpClientRequestsByASNTotal (publish_asn t s) = of_int (total (asnRequests s))"
proof -
  have "fl (of_int n) = of_int n" if "(k, n) \<in> set (asnRequests s)" for k n
    using pos_map_total [OF assms(1)] assms that by (intro fl_held) (auto simp: pos_map_def)
  then have "map (\<lambda>kn. fl (of_int (snd kn))) (asnRequests s) = map of_int (map snd (asnRequests s))"
    by auto
  then have "sum_list (map (\<lambda>kn. fl (of_int (snd kn))) (asnRequests s)) = of_int (sum_list (map snd (asnRequests s)))"
    by (simp only: sum_list_of_int)
  then show ?thesis
    by (simp add: counted_any_def publish_asn_def comp_def case_prod_beta total_def)
qed

lemma Flush_asn:
  assumes "Collector_ok c" "Flush Log now wall1 wall2 r l c = Some (c', l', ev)" "held_total asnRequests c < 2 ^ 53"
  shows "counted_any NtpClientRequestsByASNTotal ev = of_int (held_total asnRequests c)"
proof -
  let ?s = "snapshot (workers c)"
  obtain ev5 t where e5: "set (map metric_of ev5) = {NtpClientsUniqueDaily}"
    and ev: "ev = snd (flush_drops r l) @ publish_requests ?s @ (publish_asn t ?s @ publish_version ?s @ publish_family ?s)
      @ [GaugeSet NtpClientsActive [] (fl (of_nat (sum_list
               (map (\<lambda>sh. length (active (evict_shard (now - ActiveWindow) sh))) (shards c)))))] @ ev5"
    using Flush_workers(2) [OF assms(1,2)] by blast
  have e5': "metric_of e = NtpClientsUniqueDaily" if "e \<in> set ev5" for e
    using that e5 by auto
  have "counted_any NtpClientRequestsByASNTotal es = 0"
    if "es \<in> {ev5, snd (flush_drops r l), publish_requests ?s, publish_version ?s, publish_family ?s}" for es
    using that by (auto intro!: counted_any_other dest: e5' names_publish)
  moreover have "counted_any NtpClientRequestsByASNTotal (publish_asn t ?s) = of_int (held_total asnRequests c)"
    using counted_any_asn [of ?s t] snapshot_held [OF summed_fields(3) assms(1)] assms(3) by simp
  ultimately show ?thesis
    unfolding ev by (simp del: append_Cons append_Nil) (simp add: counted_any_def)
qed

fun is_request :: "op \<Rightarrow> bool" where
  "is_request (Frame R now wall wi d ip fam ver xid ts) \<longleftrightarrow> d = ''request''"
| "is_request (Flushing Log now wall1 wall2 r) \<longleftrightarrow> False"

interpretation by_asn: published "held_total asnRequests" "counted_any NtpClientRequestsByASNTotal" is_request
proof
  fix c wi R now wall d ip fam ver xid ts c' ev
  assume a: "Collector_ok c" "wi < length (workers c)"
    "HandleFrame R now wall wi d ip fam ver xid ts c = Some (c', ev)"
  show "held_total asnRequests c' = held_total asnRequests c +
      (if is_request (Frame R now wall wi d ip fam ver xid ts) then 1 else 0)
      \<and> counted_any NtpClientRequestsByASNTotal ev = 0"
    using held_HandleFrame(5) [OF a] metric_of_HandleFrame [OF a] by (fastforce intro!: counted_any_other)
next
  fix c Log now wall1 wall2 r l c' l' ev
  assume a: "Collector_ok c" "Flush Log now wall1 wall2 r l c = Some (c', l', ev)" "held_total asnRequests c < 2 ^ 53"
  then show "held_total asnRequests c' = 0 \<and> counted_any NtpClientRequestsByASNTotal ev = of_int (held_total asnRequests c)
      \<and> 0 \<le> held_total asnRequests c"
    using Flush_asn [OF a] held_replicate [OF summed_fields(3) Flush_workers(1) [OF a(1,2)]]
      snapshot_held [OF summed_fields(3) a(1)] pos_map_total [of "asnRequests (snapshot (workers c))"] by simp
qed (simp_all add: counted_any_def)

text \<open>C4: what one flush publishes: for every country the number of requests the workers counted since
  the last flush, and as drops the requests in excess of the responses; for every version and family
  the requests counted; and every worker starts again from empty counters.\<close>

theorem Flush_publishes:
  assumes "Collector_ok c" "Flush Log now wall1 wall2 readDrops lastDrops c = Some (c', l', ev)"
  shows "counted NtpClientRequestsTotal [country k, continent k] ev = fl (of_int (held requests c k))
    \<and> counted NtpClientDropsTotal [country k, continent k] ev =
        fl (of_int (max 0 (held requests c k - held responses c k)))
    \<and> counted NtpClientRequestsByVersionTotal [v] ev = fl (of_int (held versionRequests c v))
    \<and> counted NtpClientRequestsByFamilyTotal [fam] ev = fl (of_int (held familyRequests c fam))
    \<and> workers c' = replicate (length (workers c)) newWorkerCounters"
  using Flush_counted [OF assms] Flush_workers(1) [OF assms] by simp

theorem Flush_publishes_witness:
  "\<exists>c c1 ev1 c2 l ev2. Collector_New 20 2 = Some c
     \<and> HandleFrame geo0 0 0 1 ''request'' ''192.0.2.1'' ''ipv4'' ''4'' None 1000 c = Some (c1, ev1)
     \<and> Flush (\<lambda>x. x - 1) 0 0 0 None None c1 = Some (c2, l, ev2)
     \<and> counted NtpClientRequestsTotal [''SE'', ''EU''] ev2 = 1 \<and> counted NtpClientDropsTotal [''SE'', ''EU''] ev2 = 1"
proof -
  obtain c where c: "Collector_New 20 2 = Some c" "Collector_ok c" "length (workers c) = 2"
    "workers c = replicate 2 newWorkerCounters"
    using fresh_collector [of 20 2] by auto
  have z: "held requests c k = 0" "held responses c k = 0" for k
    using held_replicate [OF summed_fields(1) c(4)] held_replicate [OF summed_fields(2) c(4)] by simp_all
  obtain c1 ev1 where 1: "HandleFrame geo0 0 0 1 ''request'' ''192.0.2.1'' ''ipv4'' ''4'' None 1000 c = Some (c1, ev1)"
    "Collector_ok c1"
    using HandleFrame_keeps [of c 1 geo0 0 0 "''request''" "''192.0.2.1''" "''ipv4''" "''4''" None 1000] c by auto
  obtain c2 l ev2 where 2: "Flush (\<lambda>x. x - 1) 0 0 0 None None c1 = Some (c2, l, ev2)"
    using Flush_keeps [OF 1(2)] by blast
  let ?k = "\<lparr>country = ''SE'', continent = ''EU''\<rparr>"
  have "held requests c1 ?k = 1" "held responses c1 ?k = 0"
    using held_HandleFrame(1,2) [OF c(2) _ 1(1)] c(3) by (simp_all add: z ckey_def geo0_def)
  then show ?thesis
    using Flush_publishes [OF 1(2) 2, of ?k] c 1 2 by auto
qed

text \<open>C2: over any run of frames and flushes, in any order and on any workers, every request is
  published exactly once under its country, its version, its family and some AS label: what has been published
  plus what the workers still hold is what they held before plus the number of requests.\<close>

theorem requests_conserved:
  assumes "Collector_ok c" "\<forall>op \<in> set ops. op_ok (length (workers c)) op"
    "run ops (c, l) = Some ((c', l'), ev)"
    "held requests c k + int (length ops) < 2 ^ 53" "held versionRequests c v + int (length ops) < 2 ^ 53"
    "held familyRequests c fam + int (length ops) < 2 ^ 53" "held_total asnRequests c + int (length ops) < 2 ^ 53"
  shows "counted NtpClientRequestsTotal [country k, continent k] ev + of_int (held requests c' k) =
      of_int (held requests c k) + of_nat (length (filter (\<lambda>op. req_country op = Some k) ops))
    \<and> counted NtpClientRequestsByVersionTotal [v] ev + of_int (held versionRequests c' v) =
      of_int (held versionRequests c v) + of_nat (length (filter (\<lambda>op. req_version op = Some v) ops))
    \<and> counted NtpClientRequestsByFamilyTotal [fam] ev + of_int (held familyRequests c' fam) =
      of_int (held familyRequests c fam) + of_nat (length (filter (\<lambda>op. req_family op = Some fam) ops))
    \<and> counted_any NtpClientRequestsByASNTotal ev + of_int (held_total asnRequests c') =
      of_int (held_total asnRequests c) + of_nat (length (filter is_request ops))"
  using by_country.conserved [of "(c, l)" ops "(c', l')" ev k] by_version.conserved [of "(c, l)" ops "(c', l')" ev v]
    by_family.conserved [of "(c, l)" ops "(c', l')" ev fam] by_asn.conserved [of "(c, l)" ops "(c', l')" ev] assms by simp

theorem requests_conserved_witness:
  "\<exists>c st ev. Collector_New 20 2 = Some c
     \<and> run [Frame geo0 0 0 1 ''request'' ''192.0.2.1'' ''ipv4'' ''4'' None 1000, Flushing (\<lambda>x. x - 1) 0 0 0 None,
         Frame geo0 0 0 0 ''request'' ''192.0.2.9'' ''ipv4'' ''3'' None 1000] (c, None) = Some (st, ev)
     \<and> counted NtpClientRequestsTotal [''SE'', ''EU''] ev
         + of_int (held requests (fst st) \<lparr>country = ''SE'', continent = ''EU''\<rparr>) = 2"
proof -
  let ?ops = "[Frame geo0 0 0 1 ''request'' ''192.0.2.1'' ''ipv4'' ''4'' None 1000, Flushing (\<lambda>x. x - 1) 0 0 0 None,
         Frame geo0 0 0 0 ''request'' ''192.0.2.9'' ''ipv4'' ''3'' None 1000]"
  let ?k = "\<lparr>country = ''SE'', continent = ''EU''\<rparr>"
  obtain c where c: "Collector_New 20 2 = Some c" "Collector_ok c" "length (workers c) = 2"
    "workers c = replicate 2 newWorkerCounters"
    using fresh_collector [of 20 2] by auto
  have z: "held requests c k = 0" "held versionRequests c v = 0" "held familyRequests c v = 0"
    "held_total asnRequests c = 0" for k v
    using held_replicate [OF summed_fields(1) c(4)] held_replicate [OF summed_fields(4) c(4)]
      held_replicate [OF summed_fields(5) c(4)] held_replicate [OF summed_fields(3) c(4)] by simp_all
  have ops: "\<forall>op \<in> set ?ops. op_ok (length (workers c)) op" using c(3) by simp
  obtain c' l' ev where r: "run ?ops (c, None) = Some ((c', l'), ev)"
    using run_keeps [of "(c, None)" ?ops] c(2) ops by auto
  have "length (filter (\<lambda>op. req_country op = Some ?k) ?ops) = 2" by (simp add: ckey_def geo0_def)
  with requests_conserved [OF c(2) ops r, of ?k "''4''" "''ipv4''"]
  have "counted NtpClientRequestsTotal [''SE'', ''EU''] ev + of_int (held requests c' ?k) = 2"
    by (simp add: z)
  then show ?thesis using c(1) r by (intro exI [of _ c] exI [of _ "(c', l')"] exI [of _ ev]) simp
qed

end
