(* ===== verification/Clients.thy ===== *)
theory Clients
  imports Counting
begin

section \<open>Active and unique clients\<close>

text \<open>
  The two gauges of distinct clients, against specifications over the sequence of requests:
  the active table refines a map from addresses to the time of their last request, and the ring of
  sketches refines the sets of addresses per clock hour.
\<close>

subsection \<open>Active clients\<close>

lemma abs_active_HandleFrame:
  assumes "Collector_ok c" "wi < length (workers c)"
    "HandleFrame R now wall wi d ip fam ver xid ts c = Some (c', ev)"
  shows "abs_active c' = (if d = ''request'' then (abs_active c)(ip \<mapsto> now) else abs_active c)"
proof -
  have keep: "abs_active (fst (on_shard ip (put_pending ip x ts) c0)) = abs_active c0"
    "abs_active (fst (on_shard ip (take_pending ip x ts) c0)) = abs_active c0" if "Collector_ok c0" for x c0
    by (auto simp: abs_active_def shards_on_shard [OF that] put_pending_def take_pending_def Let_def
        fun_eq_iff split: option.splits)
  show ?thesis
  proof (cases "d = ''request''")
    case True
    let ?c1 = "upd_worker wi (count_request (R ip) fam ver) (maybe_sweep ts c)"
    let ?c2 = "fst (on_shard ip (touch_active ip now) ?c1)"
    have c1: "Collector_ok ?c1"
      using assms(1,2) by (auto intro!: Collector_ok_upd_worker maybe_sweep_ok counters_ok_count_request)
    obtain c3 where c3: "Collector_ok c3" "shards c3 = shards ?c2"
      "c' = (case xid of None \<Rightarrow> c3 | Some x \<Rightarrow> fst (on_shard ip (put_pending ip x ts) c3))"
      using HandleFrame_request [OF assms(1,2), of ip wall now R fam ver ts xid] assms(3) True
      by (auto split: option.splits)
    have "abs_active c3 = (abs_active c)(ip \<mapsto> now)"
      using abs_cong [OF c3(2)] abs_touch [OF c1] abs_maybe_sweep(3) [OF assms(1)]
        abs_cong [of ?c1 "maybe_sweep ts c"] by simp
    then show ?thesis using True c3(1,3) keep(1) by (cases xid) auto
  next
    case False
    let ?c1 = "upd_worker wi (count_response (R ip)) (maybe_sweep ts c)"
    have c1: "Collector_ok ?c1"
      using assms(1,2) by (auto intro!: Collector_ok_upd_worker maybe_sweep_ok counters_ok_count_response)
    have "abs_active ?c1 = abs_active c"
      using abs_cong [of ?c1 "maybe_sweep ts c"] abs_maybe_sweep(3) [OF assms(1)] by simp
    then show ?thesis
      using HandleFrame_response [OF assms(2) False, of R now wall ip fam ver xid ts] assms(3) False keep(2) [OF c1]
      by (cases xid) auto
  qed
qed

text \<open>The active clients of the specification: the time of the last request per address, cut to the
  window at each flush.\<close>

fun spec_active :: "op \<Rightarrow> (string \<Rightarrow> time option) \<Rightarrow> string \<Rightarrow> time option" where
  "spec_active (Frame R now wall wi d ip fam ver xid ts) m = (if d = ''request'' then m(ip \<mapsto> now) else m)"
| "spec_active (Flushing Log now wall1 wall2 r) m =
     (\<lambda>ip. case m ip of None \<Rightarrow> None | Some t \<Rightarrow> if t < now - ActiveWindow then None else Some t)"

lemma abs_active_run:
  assumes "Collector_ok (fst st)" "\<forall>op \<in> set ops. op_ok (length (workers (fst st))) op" "run ops st = Some (st', ev)"
  shows "abs_active (fst st') = fold spec_active ops (abs_active (fst st))"
  using assms
proof (induction ops arbitrary: st ev)
  case (Cons op ops)
  obtain st1 ev1 where 1: "exec_op op st = Some (st1, ev1)" "Collector_ok (fst st1)"
    "length (workers (fst st1)) = length (workers (fst st))"
    using exec_op_keeps [of st op] Cons.prems(1,2) by auto
  then obtain ev2 where 2: "run ops st1 = Some (st', ev2)"
    using Cons.prems(3) by (auto split: option.splits)
  have "abs_active (fst st1) = spec_active op (abs_active (fst st))"
  proof (cases op)
    case (Frame R now wall wi d ip fam ver xid ts)
    then show ?thesis
      using abs_active_HandleFrame [OF Cons.prems(1), of wi R now wall d ip fam ver xid ts] 1(1) Cons.prems(2)
      by (cases st) auto
  next
    case (Flushing Log now wall1 wall2 r)
    then show ?thesis
      using abs_Flush(2) [OF Cons.prems(1), of Log now wall1 wall2 r "snd st"] 1(1) by (cases st) (auto simp: fun_eq_iff)
  qed
  then show ?case
    using Cons.IH [OF 1(2) _ 2] Cons.prems(2) 1(3) by simp
qed simp

text \<open>The shards partition the active clients.\<close>

lemma dom_evict:
  assumes "Collector_ok c" "i < NumShards"
  shows "dom (map_of (active (evict_shard cutoff (shards c ! i)))) =
    {ip. shardIndex ip = i \<and> (\<exists>t. abs_active c ip = Some t \<and> cutoff \<le> t)}"
proof -
  have "map_ok (active (shards c ! i))" and idx: "map_of (active (shards c ! i)) ip \<noteq> None \<Longrightarrow> shardIndex ip = i" for ip
    using assms unfolding Collector_ok_def shard_ok_def by blast+
  then have "map_of (active (evict_shard cutoff (shards c ! i))) ip =
      (case map_of (active (shards c ! i)) ip of None \<Rightarrow> None | Some t \<Rightarrow> if t < cutoff then None else Some t)" for ip
    by (simp add: evict_shard_def map_of_sweep)
  note ev = this
  show ?thesis
  proof (intro set_eqI iffI)
    fix ip assume "ip \<in> dom (map_of (active (evict_shard cutoff (shards c ! i))))"
    then obtain t where t: "map_of (active (shards c ! i)) ip = Some t" "cutoff \<le> t"
      unfolding dom_def ev by (auto split: option.splits if_splits)
    then have "shardIndex ip = i" using idx by blast
    with t show "ip \<in> {ip. shardIndex ip = i \<and> (\<exists>t. abs_active c ip = Some t \<and> cutoff \<le> t)}"
      by (simp add: abs_active_def)
  next
    fix ip assume "ip \<in> {ip. shardIndex ip = i \<and> (\<exists>t. abs_active c ip = Some t \<and> cutoff \<le> t)}"
    then show "ip \<in> dom (map_of (active (evict_shard cutoff (shards c ! i))))"
      unfolding dom_def ev by (auto simp: abs_active_def)
  qed
qed

lemma active_count:
  assumes "Collector_ok c"
  shows "sum_list (map (\<lambda>sh. length (active (evict_shard cutoff sh))) (shards c)) =
    card {ip. \<exists>t. abs_active c ip = Some t \<and> cutoff \<le> t}"
proof -
  let ?D = "\<lambda>i. dom (map_of (active (evict_shard cutoff (shards c ! i))))"
  have ok: "map_ok (active (evict_shard cutoff (shards c ! i)))" if "i < NumShards" for i
    using assms that shard_ok_evict [of i "shards c ! i" cutoff]
    unfolding Collector_ok_def shard_ok_def by blast
  have "sum_list (map (\<lambda>sh. length (active (evict_shard cutoff sh))) (shards c)) =
      (\<Sum>i < NumShards. length (active (evict_shard cutoff (shards c ! i))))"
    using assms by (simp add: sum_list_sum_nth Collector_ok_def atLeast0LessThan)
  also have "\<dots> = (\<Sum>i < NumShards. card (?D i))"
    using ok gm.len_dom by (intro sum.cong) auto
  also have "\<dots> = card (\<Union>i < NumShards. ?D i)"
  proof (rule card_UN_disjoint [symmetric])
    show "\<forall>i \<in> {..<NumShards}. finite (?D i)" using ok gm.len_dom by blast
    show "\<forall>i \<in> {..<NumShards}. \<forall>j \<in> {..<NumShards}. i \<noteq> j \<longrightarrow> ?D i \<inter> ?D j = {}"
      using dom_evict [OF assms] by auto
  qed simp
  also have "(\<Union>i < NumShards. ?D i) = {ip. \<exists>t. abs_active c ip = Some t \<and> cutoff \<le> t}"
    using dom_evict [OF assms] by auto
  finally show ?thesis .
qed

text \<open>C9: the active gauge: after any run of frames and flushes, a flush sets
  \<open>ntp_clients_active\<close> to the number of distinct addresses whose last request is at most
  \<open>ActiveWindow\<close> old, each counted once although the table is split into shards.\<close>

theorem active_gauge:
  assumes "Collector_ok c" "\<forall>op \<in> set ops. op_ok (length (workers c)) op" "run ops (c, l) = Some ((c1, l1), ev1)"
    "Flush Log now wall1 wall2 readDrops l1 c1 = Some (c2, l2, ev2)"
  shows "GaugeSet NtpClientsActive [] (fl (of_nat (card
      {ip. \<exists>t. fold spec_active ops (abs_active c) ip = Some t \<and> now - ActiveWindow \<le> t}))) \<in> set ev2"
proof -
  have c1: "Collector_ok c1"
    using run_next(1) [OF _ _ assms(3)] assms(1,2) by simp
  show ?thesis
    using Flush_workers(2) [OF c1 assms(4)] active_count [OF c1, of "now - ActiveWindow"]
      abs_active_run [of "(c, l)" ops "(c1, l1)" ev1] assms(1-3) by auto
qed

theorem active_gauge_witness:
  "\<exists>c c1 l1 ev1 c2 l2 ev2. Collector_New 20 2 = Some c
     \<and> run [Frame geo0 0 0 0 ''request'' ''192.0.2.1'' ''ipv4'' ''4'' None 0,
            Frame geo0 5 0 1 ''request'' ''192.0.2.1'' ''ipv4'' ''4'' None 0,
            Frame geo0 6 0 1 ''request'' ''192.0.2.2'' ''ipv4'' ''4'' None 0] (c, None) = Some ((c1, l1), ev1)
     \<and> Flush (\<lambda>x. x - 1) 7 0 0 None l1 c1 = Some (c2, l2, ev2) \<and> GaugeSet NtpClientsActive [] 2 \<in> set ev2"
proof -
  let ?ops = "[Frame geo0 0 0 0 ''request'' ''192.0.2.1'' ''ipv4'' ''4'' None 0,
            Frame geo0 5 0 1 ''request'' ''192.0.2.1'' ''ipv4'' ''4'' None 0,
            Frame geo0 6 0 1 ''request'' ''192.0.2.2'' ''ipv4'' ''4'' None 0]"
  obtain c where c: "Collector_New 20 2 = Some c" "Collector_ok c" "length (workers c) = 2"
    "shards c = replicate 16 \<lparr>pending = [], active = []\<rparr>"
    using fresh_collector [of 20 2] by auto
  have ops: "\<forall>op \<in> set ?ops. op_ok (length (workers c)) op" using c(3) by simp
  obtain c1 l1 ev1 where r: "run ?ops (c, None) = Some ((c1, l1), ev1)" "Collector_ok c1"
    using run_keeps [of "(c, None)" ?ops] c(2) ops by auto
  obtain c2 l2 ev2 where f: "Flush (\<lambda>x. x - 1) 7 0 0 None l1 c1 = Some (c2, l2, ev2)"
    using Flush_keeps [OF r(2)] by blast
  have none: "abs_active c ip = None" for ip
    using c(4) shardIndex_less [of ip] by (simp add: abs_active_def NumShards_def)
  have "{ip. \<exists>t. fold spec_active ?ops (abs_active c) ip = Some t \<and> 7 - ActiveWindow \<le> t} = {''192.0.2.1'', ''192.0.2.2''}"
    by (auto simp: none ActiveWindow_def Second_def)
  then have "card {ip. \<exists>t. fold spec_active ?ops (abs_active c) ip = Some t \<and> 7 - ActiveWindow \<le> t} = 2" by simp
  moreover have "fl 2 = 2" using fl_of_nat [of 2] by simp
  ultimately have "GaugeSet NtpClientsActive [] 2 \<in> set ev2"
    using active_gauge [OF c(2) ops r(1) f] by simp
  with c(1) r(1) f show ?thesis by blast
qed

subsection \<open>Unique clients of the last 24 hours\<close>

text \<open>The sketch of a list of addresses, and the clock hour of a time, counted from the epoch.\<close>

definition sketch_of :: "string list \<Rightarrow> HyperLogLog" where
  "sketch_of ks = (the NewDefault)\<lparr>registers := fold (add_key 14) ks (replicate (2 ^ 14) 0)\<rparr>"

definition abs_hour :: "time \<Rightarrow> int" where
  "abs_hour t = t div (3600 * Second)"

lemma UTC_Hour_abs: "UTC_Hour t = nat (abs_hour t mod 24)"
  by (simp add: UTC_Hour_def abs_hour_def)

lemma sketch_of_wf: "hll_ok (sketch_of ks)" "hll_p (sketch_of ks) = 14"
  using NewDefault_Some hs.ok_fold [OF hs.ok_empty, of 14] by (simp_all add: sketch_of_def hll_ok_def)

lemma Add_sketch_of: "Add (sketch_of ks) ip = Some (sketch_of (ks @ [ip]))"
  using Add_eq [OF sketch_of_wf(1), of ks ip] sketch_of_wf(2) [of ks] by (simp add: sketch_of_def)

lemma sketch_of_Nil: "sketch_of [] = the NewDefault"
  using NewDefault_Some(4) by (simp add: sketch_of_def)

lemma merge_sketches:
  "foldl merge_regs (registers (sketch_of ks)) (map (\<lambda>ks. registers (sketch_of ks)) kss) =
   registers (sketch_of (ks @ concat kss))"
proof (induction kss arbitrary: ks)
  case (Cons k kss)
  have "merge_regs (registers (sketch_of ks)) (registers (sketch_of k)) = registers (sketch_of (ks @ k))"
    using hs.fold_append_merge [of 14 ks k] by (simp add: sketch_of_def)
  then show ?case using Cons.IH [of "ks @ k"] by simp
qed simp

text \<open>Distances on the ring, for hours counted from the epoch.\<close>

lemma diff_mod24:
  fixes x y :: int
  assumes "0 \<le> x" "x < 24" "0 \<le> y" "y < 24"
  shows "(y - x) mod 24 = (if x \<le> y then y - x else y - x + 24)"
proof (cases "x \<le> y")
  case False
  then have "(y - x + 24) mod 24 = y - x + 24" using assms by (intro mod_pos_pos_trivial) auto
  then show ?thesis using False by (simp only: mod_add_self2 if_False)
qed (use assms in \<open>auto intro: mod_pos_pos_trivial\<close>)

lemma ring_dist_int: "ring_dist (nat (a mod 24)) (nat (b mod 24)) = nat ((b - a) mod 24)"
proof -
  let ?x = "a mod 24" and ?y = "b mod 24"
  have r: "0 \<le> ?x" "?x < 24" "0 \<le> ?y" "?y < 24" by simp_all
  have "(b - a) mod 24 = (if ?x \<le> ?y then ?y - ?x else ?y - ?x + 24)"
    using diff_mod24 [OF r] by (simp only: mod_diff_eq)
  then show ?thesis
    using r by (cases "?x \<le> ?y") (simp_all add: ring_dist_def nat_le_eq_zle nat_diff_distrib, linarith)
qed

lemma next_hour: "(nat (h mod 24) + 1) mod 24 = nat ((h + 1) mod 24)"
proof -
  have "nat (h mod 24) + 1 = nat (h mod 24 + 1)" by (simp add: nat_add_distrib)
  then have "(nat (h mod 24) + 1) mod 24 = nat ((h mod 24 + 1) mod 24)" by (simp add: nat_mod_distrib)
  also have "(h mod 24 + 1) mod 24 = (h + 1) mod 24" by (rule mod_add_left_eq)
  finally show ?thesis .
qed

lemma on_way_int:
  assumes "h < h'" "h' < h + 24" "h' - 24 < g" "g \<le> h'"
  shows "on_way (nat (h' mod 24)) ((nat (h mod 24) + 1) mod 24) (nat (g mod 24)) \<longleftrightarrow> h < g"
proof -
  have a: "(h' - (h + 1)) mod 24 = h' - (h + 1)"
    using assms by (intro mod_pos_pos_trivial) auto
  have b: "(g - (h + 1)) mod 24 = (if h < g then g - (h + 1) else g - (h + 1) + 24)"
  proof (cases "h < g")
    case True
    then show ?thesis using assms by (auto intro!: mod_pos_pos_trivial)
  next
    case False
    then have "(g - (h + 1) + 24) mod 24 = g - (h + 1) + 24"
      using assms by (intro mod_pos_pos_trivial) auto
    then show ?thesis using False by (metis mod_add_self2)
  qed
  show ?thesis
    unfolding on_way_def next_hour ring_dist_int a b using assms by auto
qed

text \<open>The ring holds, for each of the 24 hours up to hour \<open>h\<close>, the sketch of the addresses the log
  has in that hour.\<close>

definition log_hour :: "(time \<times> string) list \<Rightarrow> int \<Rightarrow> string set" where
  "log_hour lg g = {ip. \<exists>t. (t, ip) \<in> set lg \<and> abs_hour t = g}"

definition tracks :: "int \<Rightarrow> (time \<times> string) list \<Rightarrow> Collector \<Rightarrow> bool" where
  "tracks h lg c \<longleftrightarrow>
     (\<exists>kss. length kss = 24 \<and> hourly c = map sketch_of kss
        \<and> (\<forall>g. h - 24 < g \<and> g \<le> h \<longrightarrow> set (kss ! nat (g mod 24)) = log_hour lg g)
        \<and> (\<not> hourSet c \<longrightarrow> kss = replicate 24 []))
     \<and> (\<forall>(t, ip) \<in> set lg. abs_hour t \<le> h)
     \<and> (if hourSet c then hour c = nat (h mod 24) else lg = [])"

lemma later_hour_differs:
  assumes "h < abs_hour w" "abs_hour w < h + 24"
  shows "UTC_Hour w \<noteq> nat (h mod 24)"
proof
  assume "UTC_Hour w = nat (h mod 24)"
  then have "abs_hour w mod 24 = h mod 24" by (simp add: UTC_Hour_abs nat_eq_iff)
  then have "(abs_hour w - h) mod 24 = 0" by (simp add: mod_eq_dvd_iff)
  moreover have "(abs_hour w - h) mod 24 = abs_hour w - h" using assms by (intro mod_pos_pos_trivial) auto
  ultimately show False using assms by simp
qed

lemma tracks_bucket:
  assumes "tracks h lg c" "h \<le> abs_hour w" "abs_hour w < h + 24" "Collector_ok c"
  shows "\<exists>c'. currentBucketLocked w c = Some (c', UTC_Hour w) \<and> tracks (abs_hour w) lg c' \<and> hourSet c'"
proof -
  let ?h' = "abs_hour w"
  obtain kss where k: "length kss = 24" "hourly c = map sketch_of kss"
    "\<And>g. h - 24 < g \<Longrightarrow> g \<le> h \<Longrightarrow> set (kss ! nat (g mod 24)) = log_hour lg g" "\<not> hourSet c \<Longrightarrow> kss = replicate 24 []"
    and le: "\<forall>(t, ip) \<in> set lg. abs_hour t \<le> h" and hr: "if hourSet c then hour c = nat (h mod 24) else lg = []"
    using assms(1) unfolding tracks_def by blast
  have le': "\<forall>(t, ip) \<in> set lg. abs_hour t \<le> ?h'" using le assms(2) by force
  consider "\<not> hourSet c" | "hourSet c" "?h' = h" | "hourSet c" "h < ?h'" using assms(2) by fastforce
  then show ?thesis
  proof cases
    case 1
    have "tracks ?h' lg (c\<lparr>hour := UTC_Hour w, hourSet := True\<rparr>)"
      using 1 k hr unfolding tracks_def
      by (intro conjI exI [of _ kss]) (auto simp: UTC_Hour_abs log_hour_def nat_less_iff)
    then show ?thesis using 1 by (simp add: currentBucketLocked_def Let_def)
  next
    case 2
    then show ?thesis using assms(1) hr by (simp add: currentBucketLocked_def Let_def UTC_Hour_abs)
  next
    case 3
    let ?on = "on_way (UTC_Hour w) ((hour c + 1) mod 24)"
    let ?kss = "map (\<lambda>i. if ?on i then [] else kss ! i) [0..<24]"
    have on: "?on (nat (g mod 24)) \<longleftrightarrow> h < g" if "?h' - 24 < g" "g \<le> ?h'" for g
      using on_way_int [of h ?h' g] that 3 assms(3) hr by (simp add: UTC_Hour_abs)
    have ne: "UTC_Hour w \<noteq> hour c" using later_hour_differs [of h w] 3 assms(3) hr by simp
    have ring: "map (\<lambda>i. if ?on i then the NewDefault else hourly c ! i) [0..<24] = map sketch_of ?kss"
      using k(1,2) by (auto simp: sketch_of_Nil)
    have h24: "hour c < 24" "length (hourly c) = 24"
      using assms(4) by (auto simp: Collector_ok_def ring_ok_def)
    have cb: "currentBucketLocked w c = Some (c\<lparr>hourly := map sketch_of ?kss, hour := UTC_Hour w\<rparr>, UTC_Hour w)"
      using 3(1) ne clear_hours_eq [of "UTC_Hour w" "(hour c + 1) mod 24" "hourly c"] h24 ring
      by (simp add: currentBucketLocked_def Let_def)
    have "set (?kss ! nat (g mod 24)) = log_hour lg g" if g: "?h' - 24 < g" "g \<le> ?h'" for g
    proof -
      have i: "nat (g mod 24) < 24" by (simp add: nat_less_iff)
      show ?thesis
      proof (cases "h < g")
        case True
        then have "log_hour lg g = {}" using le by (auto simp: log_hour_def)
        then show ?thesis using True on [OF g] i by simp
      next
        case False
        then show ?thesis using on [OF g] k(3) [of g] i g assms(2) by simp
      qed
    qed
    then have "tracks ?h' lg (c\<lparr>hourly := map sketch_of ?kss, hour := UTC_Hour w\<rparr>)"
      using le' 3(1) unfolding tracks_def by (intro conjI exI [of _ ?kss]) (auto simp: UTC_Hour_abs)
    then show ?thesis using cb 3(1) by simp
  qed
qed

lemma tracks_add:
  assumes "tracks h lg c" "h \<le> abs_hour w" "abs_hour w < h + 24" "Collector_ok c"
    "add_unique ip w c = Some c'"
  shows "tracks (abs_hour w) (lg @ [(w, ip)]) c'"
proof -
  let ?h' = "abs_hour w" and ?i = "UTC_Hour w"
  obtain c1 where c1: "currentBucketLocked w c = Some (c1, ?i)" "tracks ?h' lg c1" "hourSet c1"
    using tracks_bucket [OF assms(1-4)] by blast
  obtain kss where k: "length kss = 24" "hourly c1 = map sketch_of kss"
    "\<And>g. ?h' - 24 < g \<Longrightarrow> g \<le> ?h' \<Longrightarrow> set (kss ! nat (g mod 24)) = log_hour lg g"
    and le: "\<forall>(t, ip) \<in> set lg. abs_hour t \<le> ?h'" and hr: "hour c1 = nat (?h' mod 24)"
    using c1(2,3) unfolding tracks_def by auto
  have i: "?i < 24" by simp
  let ?kss = "kss[?i := kss ! ?i @ [ip]]"
  have c': "c' = c1\<lparr>hourly := map sketch_of ?kss\<rparr>"
    using assms(5) c1(1) k(1,2) i Add_sketch_of [of "kss ! ?i" ip] by (simp add: add_unique_def map_update)
  have "set (?kss ! nat (g mod 24)) = log_hour (lg @ [(w, ip)]) g" if g: "?h' - 24 < g" "g \<le> ?h'" for g
  proof -
    have "nat (g mod 24) = ?i \<longleftrightarrow> g = ?h'"
    proof
      assume "nat (g mod 24) = ?i"
      then have "g mod 24 = ?h' mod 24" by (simp add: UTC_Hour_abs nat_eq_iff)
      then have "(?h' - g) mod 24 = 0" by (metis mod_eq_dvd_iff dvd_imp_mod_0)
      moreover have "(?h' - g) mod 24 = ?h' - g" using g by (intro mod_pos_pos_trivial) auto
      ultimately show "g = ?h'" by simp
    qed (simp add: UTC_Hour_abs)
    then show ?thesis
      using k(3) [OF g] k(1) i by (auto simp: log_hour_def nth_list_update)
  qed
  then show ?thesis
    using k(1) le hr c1(3) unfolding tracks_def c' by (intro conjI exI [of _ ?kss]) auto
qed

lemma tracks_cong:
  "hourly c' = hourly c \<Longrightarrow> hour c' = hour c \<Longrightarrow> hourSet c' = hourSet c \<Longrightarrow> tracks h lg c' = tracks h lg c"
  by (simp add: tracks_def)

lemma tracks_request:
  assumes "Collector_ok c" "wi < length (workers c)" "tracks h lg c" "h \<le> abs_hour wall" "abs_hour wall < h + 24"
    "HandleFrame R now wall wi ''request'' ip fam ver xid ts c = Some (c', ev)"
  shows "tracks (abs_hour wall) (lg @ [(wall, ip)]) c'"
proof -
  let ?c1 = "upd_worker wi (count_request (R ip) fam ver) (maybe_sweep ts c)"
  let ?c2 = "fst (on_shard ip (touch_active ip now) ?c1)"
  have c2: "Collector_ok ?c2"
    using assms(1,2) by (auto intro!: touch.Collector_ok_on_shard Collector_ok_upd_worker maybe_sweep_ok
        counters_ok_count_request)
  obtain c3 where c3: "add_unique ip wall ?c2 = Some c3"
    "c' = (case xid of None \<Rightarrow> c3 | Some x \<Rightarrow> fst (on_shard ip (put_pending ip x ts) c3))"
    using HandleFrame_request [OF assms(1,2), of ip wall now R fam ver ts xid] assms(6)
    by (cases xid) auto
  have "tracks h lg ?c2" using assms(3) by (subst tracks_cong [of _ c]) simp_all
  from tracks_add [OF this assms(4,5) c2 c3(1)] show ?thesis
    using c3(2) by (subst tracks_cong [of _ c3]) (auto split: option.split)
qed

lemma tracks_response:
  assumes "wi < length (workers c)" "tracks h lg c" "d \<noteq> ''request''"
    "HandleFrame R now wall wi d ip fam ver xid ts c = Some (c', ev)"
  shows "tracks h lg c'"
  using HandleFrame_response [OF assms(1,3), of R now wall ip fam ver xid ts] assms(2,4)
  by (subst tracks_cong [of _ c]) (auto split: option.splits)

text \<open>The merge of a tracked ring is the sketch of the addresses of the last 24 hours.\<close>

lemma tracks_flush_unique:
  assumes "Collector_ok c" "tracks h lg c" "h \<le> abs_hour w" "abs_hour w < h + 24"
    "flush_unique Log w c = Some (c', ev)"
  shows "tracks (abs_hour w) lg c' \<and>
    (\<exists>ks. set ks = {ip. \<exists>t. (t, ip) \<in> set lg \<and> abs_hour w - 24 < abs_hour t}
      \<and> ev = [GaugeSet NtpClientsUniqueDaily [] (Count Log (sketch_of ks))])"
proof -
  obtain c1 where c1: "currentBucketLocked w c = Some (c1, UTC_Hour w)" "tracks (abs_hour w) lg c1"
    using tracks_bucket [OF assms(2-4,1)] by blast
  have c': "c' = c1" and ev: "ev = [GaugeSet NtpClientsUniqueDaily [] (Count Log ((the NewDefault)\<lparr>registers :=
          foldl merge_regs (replicate (2 ^ 14) 0) (map registers (hourly c1))\<rparr>))]"
    using flush_unique_eq [OF assms(1), of w Log] c1(1) assms(5) by auto
  obtain kss where k: "length kss = 24" "hourly c1 = map sketch_of kss"
    "\<And>g. abs_hour w - 24 < g \<Longrightarrow> g \<le> abs_hour w \<Longrightarrow> set (kss ! nat (g mod 24)) = log_hour lg g"
    and le: "\<forall>(t, ip) \<in> set lg. abs_hour t \<le> abs_hour w"
    using c1(2) unfolding tracks_def by auto
  have "foldl merge_regs (registers (sketch_of [])) (map (\<lambda>ks. registers (sketch_of ks)) kss) =
      registers (sketch_of (concat kss))"
    using merge_sketches [of "[]" kss] by simp
  then have "(the NewDefault)\<lparr>registers := foldl merge_regs (replicate (2 ^ 14) 0) (map registers (hourly c1))\<rparr>
      = sketch_of (concat kss)"
    using k(2) by (simp add: sketch_of_def comp_def)
  moreover have "set (concat kss) = {ip. \<exists>t. (t, ip) \<in> set lg \<and> abs_hour w - 24 < abs_hour t}"
  proof (intro set_eqI iffI)
    fix ip assume "ip \<in> set (concat kss)"
    then obtain i where i: "i < 24" "ip \<in> set (kss ! i)" using k(1) by (metis UN_E in_set_conv_nth set_concat)
    define g where "g = abs_hour w - (abs_hour w - int i) mod 24"
    have g: "abs_hour w - 24 < g" "g \<le> abs_hour w"
      using pos_mod_bound [of 24 "abs_hour w - int i"] pos_mod_sign [of 24 "abs_hour w - int i"] by (auto simp: g_def)
    have "g mod 24 = (abs_hour w - (abs_hour w - int i)) mod 24" unfolding g_def by (rule mod_diff_right_eq)
    then have "nat (g mod 24) = i" using i(1) by simp
    then have "ip \<in> log_hour lg g" using k(3) [OF g] i(2) by simp
    then show "ip \<in> {ip. \<exists>t. (t, ip) \<in> set lg \<and> abs_hour w - 24 < abs_hour t}"
      using g(1) by (auto simp: log_hour_def)
  next
    fix ip assume "ip \<in> {ip. \<exists>t. (t, ip) \<in> set lg \<and> abs_hour w - 24 < abs_hour t}"
    then obtain t where t: "(t, ip) \<in> set lg" "abs_hour w - 24 < abs_hour t" by blast
    then have "ip \<in> set (kss ! nat (abs_hour t mod 24))" using k(3) [of "abs_hour t"] le by (auto simp: log_hour_def)
    then show "ip \<in> set (concat kss)" using k(1) by (auto intro!: bexI [of _ "kss ! nat (abs_hour t mod 24)"] nth_mem simp: nat_less_iff)
  qed
  ultimately show ?thesis
    using c1(2) c' ev by (intro conjI exI [of _ "concat kss"]) simp_all
qed

lemma tracks_Flush:
  assumes "Collector_ok c" "tracks h lg c" "h \<le> abs_hour wall2" "abs_hour wall2 < h + 24"
    "Flush Log now wall1 wall2 r l c = Some (c', l', ev)"
  shows "tracks (abs_hour wall2) lg c' \<and>
    (\<exists>ks. set ks = {ip. \<exists>t. (t, ip) \<in> set lg \<and> abs_hour wall2 - 24 < abs_hour t}
      \<and> GaugeSet NtpClientsUniqueDaily [] (Count Log (sketch_of ks)) \<in> set ev)"
proof -
  obtain ev5 where f: "flush_unique Log wall2 (flushed now wall1 c) = Some (c', ev5)" "set ev5 \<subseteq> set ev"
  proof (cases "flush_unique Log wall2 (flushed now wall1 c)")
    case (Some ce)
    obtain c'' e where ce: "ce = (c'', e)" by (cases ce)
    have "c'' = c'" "set e \<subseteq> set ev" using assms(5) Some by (auto simp: Flush_eq ce)
    then show thesis using that Some ce by simp
  qed (use assms(5) in \<open>simp add: Flush_eq\<close>)
  have "tracks h lg (flushed now wall1 c)"
    using assms(2) by (subst tracks_cong [of _ c]) (simp_all add: flushed_def Let_def)
  from tracks_flush_unique [OF flushed_ok [OF assms(1)] this assms(3,4) f(1)]
  obtain ks where "tracks (abs_hour wall2) lg c'"
    "set ks = {ip. \<exists>t. (t, ip) \<in> set lg \<and> abs_hour wall2 - 24 < abs_hour t}"
    "ev5 = [GaugeSet NtpClientsUniqueDaily [] (Count Log (sketch_of ks))]" by blast
  then show ?thesis using f(2) by (intro conjI exI [of _ ks]) simp_all
qed

text \<open>The wall-clock reading a call makes for the ring, the log of the requests of a run, and the
  condition that the clock does not run backwards and no gap reaches 24 hours.\<close>

fun op_wall :: "op \<Rightarrow> time option" where
  "op_wall (Frame R now wall wi d ip fam ver xid ts) = (if d = ''request'' then Some wall else None)"
| "op_wall (Flushing Log now wall1 wall2 r) = Some wall2"

fun op_log :: "op \<Rightarrow> (time \<times> string) list" where
  "op_log (Frame R now wall wi d ip fam ver xid ts) = (if d = ''request'' then [(wall, ip)] else [])"
| "op_log (Flushing Log now wall1 wall2 r) = []"

fun clock_hour :: "int \<Rightarrow> op list \<Rightarrow> int option" where
  "clock_hour h [] = Some h"
| "clock_hour h (op # ops) =
     (case op_wall op of
        None \<Rightarrow> clock_hour h ops
      | Some w \<Rightarrow> if h \<le> abs_hour w \<and> abs_hour w < h + 24 then clock_hour (abs_hour w) ops else None)"

lemma tracks_op:
  assumes "Collector_ok (fst st)" "op_ok (length (workers (fst st))) op" "tracks h lg (fst st)"
    "exec_op op st = Some (st', ev)" "\<forall>w. op_wall op = Some w \<longrightarrow> h \<le> abs_hour w \<and> abs_hour w < h + 24"
  shows "tracks (case op_wall op of None \<Rightarrow> h | Some w \<Rightarrow> abs_hour w) (lg @ op_log op) (fst st')"
proof (cases op)
  case (Frame R now wall wi d ip fam ver xid ts)
  then obtain c' where H: "HandleFrame R now wall wi d ip fam ver xid ts (fst st) = Some (c', ev)" "fst st' = c'"
    using assms(4) by (cases st) auto
  show ?thesis
  proof (cases "d = ''request''")
    case True
    then show ?thesis
      using tracks_request [OF assms(1) _ assms(3), of wi wall R now ip fam ver xid ts c' ev] H assms(2,5) Frame by simp
  next
    case False
    then show ?thesis
      using tracks_response [OF _ assms(3) False H(1)] H(2) assms(2) Frame by simp
  qed
next
  case (Flushing Log now wall1 wall2 r)
  then obtain c' l' where H: "Flush Log now wall1 wall2 r (snd st) (fst st) = Some (c', l', ev)" "fst st' = c'"
    using assms(4) by (cases st) auto
  then show ?thesis
    using tracks_Flush [OF assms(1,3) _ _ H(1)] assms(5) Flushing by simp
qed

lemma tracks_run:
  assumes "Collector_ok (fst st)" "\<forall>op \<in> set ops. op_ok (length (workers (fst st))) op" "tracks h lg (fst st)"
    "run ops st = Some (st', ev)" "clock_hour h ops = Some h'"
  shows "tracks h' (lg @ concat (map op_log ops)) (fst st')"
  using assms
proof (induction ops arbitrary: st ev h lg)
  case (Cons op ops)
  obtain st1 ev1 where 1: "exec_op op st = Some (st1, ev1)" "Collector_ok (fst st1)"
    "length (workers (fst st1)) = length (workers (fst st))"
    using exec_op_keeps [of st op] Cons.prems(1,2) by auto
  then obtain ev2 where 2: "run ops st1 = Some (st', ev2)"
    using Cons.prems(4) by (auto split: option.splits)
  let ?h1 = "case op_wall op of None \<Rightarrow> h | Some w \<Rightarrow> abs_hour w"
  have w: "\<forall>w. op_wall op = Some w \<longrightarrow> h \<le> abs_hour w \<and> abs_hour w < h + 24" "clock_hour ?h1 ops = Some h'"
    using Cons.prems(5) by (auto split: option.splits if_splits)
  have "tracks ?h1 (lg @ op_log op) (fst st1)"
    using tracks_op [OF Cons.prems(1) _ Cons.prems(3) 1(1) w(1)] Cons.prems(2) by simp
  from Cons.IH [OF 1(2) _ this 2 w(2)] show ?case
    using Cons.prems(2) 1(3) by simp
qed simp

lemma tracks_fresh: "Collector_New topN n = Some c \<Longrightarrow> tracks h [] c"
proof -
  assume "Collector_New topN n = Some c"
  then have "hourly c = replicate 24 (the NewDefault)" "\<not> hourSet c"
    using fresh_collector [of topN n] by auto
  then show ?thesis
    unfolding tracks_def by (intro conjI exI [of _ "replicate 24 []"])
      (auto simp: sketch_of_Nil log_hour_def nat_less_iff map_replicate)
qed

text \<open>C8: the daily gauge: starting from a new collector, after any run of frames and flushes whose
  wall clock does not run backwards and leaves no gap of 24 hours, a flush sets
  \<open>ntp_clients_unique_daily\<close> to the estimate of the sketch of exactly the addresses that sent a
  request in the current clock hour or the 23 hours before it, each address once.\<close>

theorem unique_daily_gauge:
  assumes "Collector_New topN n = Some c" "\<forall>op \<in> set ops. op_ok (length (workers c)) op"
    "run ops (c, l) = Some ((c1, l1), ev1)" "clock_hour h (ops @ [Flushing Log now wall1 wall2 readDrops]) = Some h'"
    "Flush Log now wall1 wall2 readDrops l1 c1 = Some (c2, l2, ev2)"
  shows "\<exists>ks. set ks = {ip. \<exists>t. (t, ip) \<in> set (concat (map op_log ops)) \<and> abs_hour wall2 - 24 < abs_hour t}
    \<and> distinct ks \<and> GaugeSet NtpClientsUniqueDaily [] (Count Log (sketch_of ks)) \<in> set ev2"
proof -
  have ok: "Collector_ok c" using assms(1) Collector_New_ok [of topN n] by auto
  have c1: "Collector_ok c1" using run_next(1) [OF _ _ assms(3)] ok assms(2) by simp
  have split: "\<exists>h1. clock_hour h ops = Some h1 \<and> h1 \<le> abs_hour wall2 \<and> abs_hour wall2 < h1 + 24"
    using assms(4) by (induction ops arbitrary: h) (auto split: option.splits if_splits)
  then obtain h1 where h1: "clock_hour h ops = Some h1" "h1 \<le> abs_hour wall2" "abs_hour wall2 < h1 + 24" by blast
  have "tracks h1 (concat (map op_log ops)) c1"
    using tracks_run [of "(c, l)" ops h "[]" "(c1, l1)" ev1 h1] ok assms(2,3) h1(1) tracks_fresh [OF assms(1)] by simp
  from tracks_Flush [OF c1 this h1(2,3) assms(5)]
  obtain ks where ks: "set ks = {ip. \<exists>t. (t, ip) \<in> set (concat (map op_log ops)) \<and> abs_hour wall2 - 24 < abs_hour t}"
    "GaugeSet NtpClientsUniqueDaily [] (Count Log (sketch_of ks)) \<in> set ev2" by blast
  have "sketch_of (remdups ks) = sketch_of ks"
    using hs.fold_set_cong [of "remdups ks" ks 14] by (simp add: sketch_of_def)
  then show ?thesis
    using ks by (intro exI [of _ "remdups ks"]) simp
qed

theorem unique_daily_gauge_witness:
  "\<exists>c c1 l1 ev1 c2 l2 ev2 ks. Collector_New 20 2 = Some c
     \<and> run [Frame geo0 0 0 0 ''request'' ''192.0.2.1'' ''ipv4'' ''4'' None 0,
            Frame geo0 5 (7200 * Second) 1 ''request'' ''192.0.2.1'' ''ipv4'' ''4'' None 0] (c, None) = Some ((c1, l1), ev1)
     \<and> Flush (\<lambda>x. x - 1) 7 0 (7300 * Second) None l1 c1 = Some (c2, l2, ev2)
     \<and> set ks = {''192.0.2.1''} \<and> GaugeSet NtpClientsUniqueDaily [] (Count (\<lambda>x. x - 1) (sketch_of ks)) \<in> set ev2"
proof -
  let ?ops = "[Frame geo0 0 0 0 ''request'' ''192.0.2.1'' ''ipv4'' ''4'' None 0,
            Frame geo0 5 (7200 * Second) 1 ''request'' ''192.0.2.1'' ''ipv4'' ''4'' None 0]"
  obtain c where c: "Collector_New 20 2 = Some c" "Collector_ok c" "length (workers c) = 2"
    using fresh_collector [of 20 2] by auto
  have ops: "\<forall>op \<in> set ?ops. op_ok (length (workers c)) op" using c(3) by simp
  obtain c1 l1 ev1 where r: "run ?ops (c, None) = Some ((c1, l1), ev1)" "Collector_ok c1"
    using run_keeps [of "(c, None)" ?ops] c(2) ops by auto
  obtain c2 l2 ev2 where f: "Flush (\<lambda>x. x - 1) 7 0 (7300 * Second) None l1 c1 = Some (c2, l2, ev2)"
    using Flush_keeps [OF r(2)] by blast
  have clk: "clock_hour 0 (?ops @ [Flushing (\<lambda>x. x - 1) 7 0 (7300 * Second) None]) = Some 2"
    by (simp add: abs_hour_def Second_def)
  have s: "{ip. \<exists>t. (t, ip) \<in> set (concat (map op_log ?ops)) \<and> abs_hour (7300 * Second) - 24 < abs_hour t} = {''192.0.2.1''}"
    by (auto simp: abs_hour_def Second_def)
  from unique_daily_gauge [OF c(1) ops r(1) clk f] obtain ks where
    ks: "set ks = {''192.0.2.1''}" "GaugeSet NtpClientsUniqueDaily [] (Count (\<lambda>x. x - 1) (sketch_of ks)) \<in> set ev2"
    unfolding s by blast
  with c(1) r(1) f show ?thesis by blast
qed

end
