(* ===== verification/Capture.thy ===== *)
theory Capture
  imports NtpFrame Pairing
begin

section \<open>internal/capture: classifying frames\<close>

text \<open>
  The operating-system independent part of the capture package: the cache of local addresses
  (\<open>localips.go\<close>) and the body of the capture loop (\<open>filter.go\<close>). What \<open>net.InterfaceAddrs\<close> and the
  clock return to a call is its argument \<open>reading\<close>: the result of a lookup, if one is made (\<open>None\<close> is
  an error), and the two clock readings. A \<open>map[string]struct{}\<close> is a list without repetitions.
\<close>

subsection \<open>Local addresses\<close>

datatype net_Addr = IPNet net_IP | IPAddr net_IP | OtherAddr

type_synonym reading = "net_Addr list option \<times> time \<times> time"

record LocalIPs =
  ip_set :: "string list"
  lastLoad :: time
  interval :: duration

definition addr_ip :: "net_Addr \<Rightarrow> net_IP" where
  "addr_ip a = (case a of IPNet ip \<Rightarrow> ip | IPAddr ip \<Rightarrow> ip | OtherAddr \<Rightarrow> [])"

definition reload :: "net_Addr list option \<Rightarrow> time \<Rightarrow> LocalIPs \<Rightarrow> LocalIPs" where
  "reload lookup now l =
     (let next_set = (case lookup of
         None \<Rightarrow> []
       | Some addrs \<Rightarrow> foldl (\<lambda>s a. if addr_ip a \<noteq> [] then List.insert (IP_String (addr_ip a)) s else s) [] addrs)
      in (if lookup \<noteq> None then l\<lparr>ip_set := next_set\<rparr> else l)\<lparr>lastLoad := now\<rparr>)"


definition maybeReload :: "reading \<Rightarrow> LocalIPs \<Rightarrow> LocalIPs" where
  "maybeReload = (\<lambda>(lookup, now1, now2) l.
     if time_Sub now1 (lastLoad l) \<ge> interval l then reload lookup now2 l else l)"

definition Contains :: "reading \<Rightarrow> net_IP \<Rightarrow> LocalIPs \<Rightarrow> bool \<times> LocalIPs" where
  "Contains rd ip l = (let l = maybeReload rd l in (IP_String ip \<in> set (ip_set l), l))"

definition NewFixedLocalIPs :: "string list \<Rightarrow> time \<Rightarrow> LocalIPs" where
  "NewFixedLocalIPs ips now =
     \<lparr>ip_set = foldl (\<lambda>s ip. if ParseIP ip \<noteq> [] then List.insert (IP_String (ParseIP ip)) s else s) [] ips,
      lastLoad = now, interval = 24 * 3600 * Second\<rparr>"

subsection \<open>The direction filter and the loop body\<close>

definition ShouldAccept :: "reading \<Rightarrow> Parsed \<Rightarrow> LocalIPs \<Rightarrow> bool \<times> LocalIPs" where
  "ShouldAccept rd p l =
     (if Direction p = ''request'' then Contains rd (DstIP p) l else Contains rd (SrcIP p) l)"

definition ProcessFrame ::
    "reading \<Rightarrow> (string \<Rightarrow> GeoResult) \<Rightarrow> time \<Rightarrow> time \<Rightarrow> nat \<Rightarrow> bytes \<Rightarrow> time \<Rightarrow> Collector \<times> LocalIPs
      \<Rightarrow> ((Collector \<times> LocalIPs) \<times> event list) option" where
  "ProcessFrame rd Resolve now wallNow workerIdx data ts = (\<lambda>(c, l).
     do {
       (parsed, ok) \<leftarrow> ParseNTPFrame data;
       if \<not> ok then Some ((c, l), [Inc NtpCaptureParseErrorsTotal []])
       else do {
         let (accept, l) = ShouldAccept rd parsed l;
         if \<not> accept then Some ((c, l), [])
         else do {
           let version = (if HasVersion parsed then Version parsed else '''');
           (c, ev) \<leftarrow> HandleFrame Resolve now wallNow workerIdx (Direction parsed) (IP_String (IP parsed))
             (Family parsed) version (XID parsed) ts c;
           Some ((c, l), ev)
         }
       }
     })"

subsection \<open>Lemmas\<close>



text \<open>The reading leaves the cache current: no reload is due.\<close>

definition current :: "reading \<Rightarrow> LocalIPs \<Rightarrow> bool" where
  "current rd l \<longleftrightarrow> time_Sub (fst (snd rd)) (lastLoad l) < interval l"

lemma Contains_current: "current rd l \<Longrightarrow> Contains rd ip l = (IP_String ip \<in> set (ip_set l), l)"
  by (auto simp: Contains_def maybeReload_def current_def split: prod.splits)

lemma ParseNTPFrame_Some: "\<exists>r. ParseNTPFrame data = Some r"
  using parse_total [of data] by auto

text \<open>The frame carries an NTP packet with these addresses, ports and payload.\<close>

definition carries :: "bytes \<Rightarrow> string \<Rightarrow> net_IP \<Rightarrow> net_IP \<Rightarrow> nat \<Rightarrow> nat \<Rightarrow> bytes \<Rightarrow> bool" where
  "carries data family src dst sport dport payload \<longleftrightarrow>
     (dport = 123 \<or> sport = 123) \<and> (length src = 4 \<or> length src = 16) \<and> (length dst = 4 \<or> length dst = 16)
     \<and> ParseNTPFrame data = Some (ntp_packet family src dst sport dport payload, True)"

lemma carries_ipv4:
  assumes "length macs = 12" "length mid = 8" "length check = 2"
    and "length src = 4" "length dst = 4" "4 * unat (vihl AND 15) = 20 + length opts"
    and "sport < 65536" "dport < 65536" "length lencheck = 4" "dport = 123 \<or> sport = 123"
  shows "carries (ethernet macs EthertypeIPv4
      (ipv4_header vihl mid check src dst opts @ udp_datagram sport dport lencheck payload))
    ''ipv4'' src dst sport dport payload"
proof -
  have "EthertypeIPv4 < 65536" "EthertypeIPv4 \<noteq> EthertypeVLAN" by (simp_all add: ntp_consts)
  note eth = ParseNTPFrame_ethernet [OF assms(1) this]
  show ?thesis
    using assms parse_udp_datagram [of sport dport lencheck src dst payload "''ipv4''"]
    by (simp add: carries_def eth parse_ipv4 [OF assms(2-6)])
qed

lemma IP_String_ntp_packet:
  assumes "carries data family src dst sport dport payload"
  shows "IP_String (IP (ntp_packet family src dst sport dport payload)) = IP_String (if dport = 123 then src else dst)"
proof -
  have "IP_String (To16 ip) = IP_String ip" if "length ip = 4 \<or> length ip = 16" for ip
    using that IP_String_To16 [of ip] by (auto simp: To16_def)
  then show ?thesis using assms by (auto simp: carries_def ntp_packet_def Let_def)
qed

lemma map_option_pair:
  "map_option (\<lambda>(c', ev). ((c', l), ev)) x = Option.bind x (\<lambda>(c, ev). Some ((c, l), ev))"
  by (cases x) auto

text \<open>\<open>ProcessFrame\<close> on a frame that carries a packet and with a current cache.\<close>

lemma ProcessFrame_carries:
  assumes "carries data family src dst sport dport payload" "current rd l"
  shows "ProcessFrame rd R now wall wi data ts (c, l) =
    (if IP_String (if dport = 123 then dst else src) \<notin> set (ip_set l) then Some ((c, l), [])
     else map_option (\<lambda>(c', ev). ((c', l), ev))
       (HandleFrame R now wall wi (if dport = 123 then ''request'' else ''response'')
          (IP_String (if dport = 123 then src else dst)) family
          (if 48 \<le> length payload then version_label (hd payload) else '''')
          (if 48 \<le> length payload then Some (take 8 (drop (if dport = 123 then 40 else 24) payload)) else None) ts c))"
proof -
  let ?p = "ntp_packet family src dst sport dport payload"
  have p: "ParseNTPFrame data = Some (?p, True)" using assms(1) by (simp add: carries_def)
  have acc: "ShouldAccept rd ?p l = (IP_String (if dport = 123 then dst else src) \<in> set (ip_set l), l)"
    by (simp add: ShouldAccept_def Contains_current [OF assms(2)] ntp_packet_def Let_def)
  have f: "Direction ?p = (if dport = 123 then ''request'' else ''response'')" "Family ?p = family"
    "(if HasVersion ?p then Version ?p else '''') = (if 48 \<le> length payload then version_label (hd payload) else '''')"
    "XID ?p = (if 48 \<le> length payload then Some (take 8 (drop (if dport = 123 then 40 else 24) payload)) else None)"
    by (simp_all add: ntp_packet_def Let_def)
  show ?thesis
    unfolding ProcessFrame_def using p acc f IP_String_ntp_packet [OF assms(1)]
    by (simp add: map_option_pair)
qed

lemma ProcessFrame_keeps:
  assumes "Collector_ok c" "workerIdx < length (workers c)"
  shows "\<exists>c' l' ev. ProcessFrame rd Resolve now wallNow workerIdx data ts (c, l) = Some ((c', l'), ev)
    \<and> Collector_ok c' \<and> length (workers c') = length (workers c) \<and> list_all event_ok ev
    \<and> (ParseNTPFrame data = Some (Parsed_zero, False) \<longrightarrow> c' = c \<and> l' = l \<and> ev = [Inc NtpCaptureParseErrorsTotal []])"
proof -
  obtain p ok where p: "ParseNTPFrame data = Some (p, ok)" using ParseNTPFrame_Some [of data] by auto
  obtain a l' where a: "ShouldAccept rd p l = (a, l')" by (cases "ShouldAccept rd p l")
  show ?thesis
  proof (cases "ok \<and> a")
    case True
    then show ?thesis
      using HandleFrame_keeps [OF assms, of Resolve now wallNow "Direction p" "IP_String (IP p)" "Family p"
          "if HasVersion p then Version p else ''''" "XID p" ts] p a by (auto simp: ProcessFrame_def)
  next
    case False
    then show ?thesis using p a assms(1) by (auto simp: ProcessFrame_def)
  qed
qed

subsection \<open>Properties\<close>



text \<open>A failed lookup never empties the cache: when a reload is due and the lookup fails, the answers
  stay those of the last successful one, and the next attempt waits for another interval.\<close>

lemma Contains_lookup_error:
  assumes "interval l \<le> time_Sub now1 (lastLoad l)"
  shows "Contains (None, now1, now2) ip l = (IP_String ip \<in> set (ip_set l), l\<lparr>lastLoad := now2\<rparr>)"
  using assms by (simp add: Contains_def maybeReload_def reload_def)

text \<open>C25: what becomes of the host's own upstream traffic. A poll from this host to an outside server leaves the
  collector and the address cache unchanged, whatever its source port. The server's answer leaves them
  unchanged too when the poll came from any port but 123; when it came from port 123 the answer goes
  from 123 to 123, is taken for a request of the server to this host, and is counted as one.\<close>

theorem upstream_traffic:
  assumes "carries poll family us server sport 123 payload" "carries answer family server us 123 sport payload'"
    "IP_String us \<in> set (ip_set l)" "IP_String server \<notin> set (ip_set l)" "current rd l" "current rd' l"
  shows "ProcessFrame rd R now wall wi poll ts (c, l) = Some ((c, l), [])
    \<and> ProcessFrame rd' R' now' wall' wj answer ts' (c, l) =
        (if sport \<noteq> 123 then Some ((c, l), [])
         else map_option (\<lambda>(c', ev). ((c', l), ev))
           (HandleFrame R' now' wall' wj ''request'' (IP_String server) family
             (if 48 \<le> length payload' then version_label (hd payload') else '''')
             (if 48 \<le> length payload' then Some (take 8 (drop 40 payload')) else None) ts' c))"
  using ProcessFrame_carries [OF assms(1,5)] ProcessFrame_carries [OF assms(2,6)] assms(3,4) by simp

definition example_local :: LocalIPs where
  "example_local = NewFixedLocalIPs [''198.51.100.1''] 0"

definition example_frame :: "bytes \<Rightarrow> bytes \<Rightarrow> nat \<Rightarrow> nat \<Rightarrow> bytes \<Rightarrow> bytes" where
  "example_frame src dst sport dport payload = ethernet (replicate 12 0) EthertypeIPv4
     (ipv4_header 0x45 (replicate 8 0) [0, 0] src dst [] @ udp_datagram sport dport [0, 56, 0, 0] payload)"

lemma example_carries:
  "length src = 4 \<Longrightarrow> length dst = 4 \<Longrightarrow> sport < 65536 \<Longrightarrow> dport < 65536 \<Longrightarrow> dport = 123 \<or> sport = 123 \<Longrightarrow>
   carries (example_frame src dst sport dport payload) ''ipv4'' src dst sport dport payload"
  unfolding example_frame_def by (rule carries_ipv4) simp_all

lemma example_local_set: "length ip = 4 \<Longrightarrow> IP_String ip \<in> set (ip_set example_local) \<longleftrightarrow> ip = [198, 51, 100, 1]"
proof -
  assume len: "length ip = 4"
  have s: "''198.51.100.1'' = IP_String [198, 51, 100, 1]" by code_simp
  have "ip_set example_local = [IP_String [198, 51, 100, 1]]"
    using IP_String_ParseIP_IP_String [of "[198, 51, 100, 1]"] ParseIP_IP_String [of "[198, 51, 100, 1]"]
    by (simp add: example_local_def NewFixedLocalIPs_def s To16_def As16_def)
  then show ?thesis
    using IP_String_inject [of ip "[198, 51, 100, 1]"] len by (auto simp: To16_def As16_def)
qed

lemma example_current: "current (None, 0, 0) example_local"
  by (simp add: current_def example_local_def NewFixedLocalIPs_def time_Sub_def Second_def)

theorem upstream_traffic_witness:
  "\<exists>c. Collector_New 20 2 = Some c
     \<and> ProcessFrame (None, 0, 0) geo0 0 0 0 (example_frame [203, 0, 113, 5] [198, 51, 100, 1] 123 41234 [1]) 0 (c, example_local)
       = Some ((c, example_local), [])
     \<and> ProcessFrame (None, 0, 0) geo0 0 0 0 (example_frame [203, 0, 113, 5] [198, 51, 100, 1] 123 123 [1]) 0 (c, example_local)
       = map_option (\<lambda>(c', ev). ((c', example_local), ev))
           (HandleFrame geo0 0 0 0 ''request'' (IP_String [203, 0, 113, 5]) ''ipv4'' '''' None 0 c)"
proof -
  obtain c where c: "Collector_New 20 2 = Some c" using fresh_collector [of 20 2] by auto
  have carried: "carries (example_frame [198, 51, 100, 1] [203, 0, 113, 5] sport 123 [1]) ''ipv4'' [198, 51, 100, 1] [203, 0, 113, 5] sport 123 [1]"
    "carries (example_frame [203, 0, 113, 5] [198, 51, 100, 1] 123 sport [1]) ''ipv4'' [203, 0, 113, 5] [198, 51, 100, 1] 123 sport [1]"
    if "sport < 65536" for sport using that by (simp_all add: example_carries)
  have l: "IP_String [198, 51, 100, 1] \<in> set (ip_set example_local)" "IP_String [203, 0, 113, 5] \<notin> set (ip_set example_local)"
    using example_local_set [of "[198, 51, 100, 1]"] example_local_set [of "[203, 0, 113, 5]"] by simp_all
  show ?thesis
    using c upstream_traffic [OF carried [of 41234] l example_current example_current, of geo0 0 0 0 0 c geo0 0 0 0 0]
      upstream_traffic [OF carried [of 123] l example_current example_current, of geo0 0 0 0 0 c geo0 0 0 0 0] by simp
qed



end
