(* ===== verification/Shutdown.thy ===== *)
theory Shutdown
  imports Main
begin

section \<open>Systems of goroutines that stop\<close>

text \<open>
  The contract shared by the step systems of the development that wind down when a \<open>stop\<close> channel is
  closed (the capture manager, the load generator): once stopped, every step makes progress on a
  measure, and some step is possible until the system has finished. It follows that every run
  finishes, whatever the scheduler does, within the measure.
\<close>

text \<open>The measure of a list of goroutines goes down when that of one of them does.\<close>

lemma sum_list_update_less:
  fixes f :: "'a \<Rightarrow> nat"
  assumes "i < length xs" "f y < f (xs ! i)"
  shows "(\<Sum>x \<leftarrow> xs[i := y]. f x) < (\<Sum>x \<leftarrow> xs. f x)"
proof -
  have "(\<Sum>x \<leftarrow> xs[i := y]. f x) + f (xs ! i) = (\<Sum>x \<leftarrow> xs. f x) + f y"
    using assms(1)
  proof (induction xs arbitrary: i)
    case (Cons x xs)
    then show ?case by (cases i) auto
  qed simp
  with assms(2) show ?thesis by simp
qed

locale stoppable =
  fixes step :: "'s \<Rightarrow> 's \<Rightarrow> bool" and inv stopped finished :: "'s \<Rightarrow> bool" and work :: "'s \<Rightarrow> nat"
  assumes inv_step: "inv s \<Longrightarrow> step s t \<Longrightarrow> inv t"
    and stopped_step: "inv s \<Longrightarrow> stopped s \<Longrightarrow> step s t \<Longrightarrow> stopped t"
    and work_step: "inv s \<Longrightarrow> stopped s \<Longrightarrow> step s t \<Longrightarrow> work t < work s"
    and progress: "inv s \<Longrightarrow> stopped s \<Longrightarrow> \<not> finished s \<Longrightarrow> \<exists>t. step s t"
begin

lemma inv_steps: "step\<^sup>*\<^sup>* s t \<Longrightarrow> inv s \<Longrightarrow> inv t"
  by (induction rule: rtranclp_induct) (auto intro: inv_step)

lemma stopped_steps: "step\<^sup>*\<^sup>* s t \<Longrightarrow> inv s \<Longrightarrow> stopped s \<Longrightarrow> stopped t"
  by (induction rule: rtranclp_induct) (auto intro: stopped_step inv_steps)

lemma run_bounded: "inv s \<Longrightarrow> stopped s \<Longrightarrow> (step ^^ n) s t \<Longrightarrow> n + work t \<le> work s"
proof (induction n arbitrary: t)
  case (Suc n)
  then obtain u where u: "(step ^^ n) s u" "step u t" by auto
  then have "step\<^sup>*\<^sup>* s u" by (auto simp: rtranclp_power)
  with Suc.prems have "inv u" "stopped u" by (blast intro: inv_steps stopped_steps)+
  with work_step [OF this u(2)] Suc.IH [OF Suc.prems(1,2) u(1)] show ?case by simp
qed simp

lemma stuck_finished: "inv s \<Longrightarrow> stopped s \<Longrightarrow> step\<^sup>*\<^sup>* s t \<Longrightarrow> \<nexists>u. step t u \<Longrightarrow> finished t"
  using progress inv_steps stopped_steps by blast

lemma finishes: "inv s \<Longrightarrow> stopped s \<Longrightarrow> \<exists>t. step\<^sup>*\<^sup>* s t \<and> finished t"
proof (induction "work s" arbitrary: s rule: less_induct)
  case less
  show ?case
  proof (cases "finished s")
    case False
    with less.prems obtain t where t: "step s t" using progress by blast
    with less.prems have "work t < work s" "inv t" "stopped t"
      by (blast intro: work_step inv_step stopped_step)+
    from less.hyps [OF this] t show ?thesis by (blast intro: converse_rtranclp_into_rtranclp)
  qed blast
qed

end

end
