(* ===== verification/Manager.thy ===== *)
theory Manager
  imports Capture Shutdown
begin

section \<open>internal/capture/manager.go: sockets and capture workers\<close>

text \<open>
  The manager of the AF_PACKET sockets, the read loop of a capture worker and the goroutines of
  \<open>Run\<close>. The packet library is not modelled: a socket is a value of a type parameter \<open>'s\<close>, and the
  outcome of each library call (opening a socket, attaching the filter, joining the fanout group,
  reading a packet, reading the drop counter) is an argument, as are the clock readings. The sockets
  that are closed are recorded. \<open>log.Printf\<close> is left out except for the rate limit that decides
  when it is called.
\<close>

definition blockSize :: int where "blockSize = 2 ^ 20"
definition blockTimeout :: duration where "blockTimeout = Millisecond"
definition fanoutID :: nat where "fanoutID = 0x4E54"
definition loopErrBackoffMin :: duration where "loopErrBackoffMin = 10 * Millisecond"
definition loopErrBackoffMax :: duration where "loopErrBackoffMax = Second"
definition loopErrLogInterval :: duration where "loopErrLogInterval = Second"
definition loopErrReopenAfter :: nat where "loopErrReopenAfter = 32"

lemmas manager_consts = blockSize_def loopErrBackoffMin_def loopErrBackoffMax_def loopErrLogInterval_def
  loopErrReopenAfter_def Millisecond_def Second_def

definition ClampWorkers :: "int \<Rightarrow> int" where
  "ClampWorkers n = (if n \<le> 0 then 1 else n)"

record 's Manager =
  NumWorkers :: int
  RingBytes :: int
  numBlocks :: int
  prog :: "RawInstruction list"
  sockets :: "'s list"

text \<open>The outcome of opening a socket: the socket, if \<open>NewTPacket\<close> succeeds, and whether \<open>SetBPF\<close>
  and \<open>SetFanout\<close> then succeed. The result is the socket or an error, and the sockets closed.\<close>

type_synonym 's opened = "'s option \<times> bool \<times> bool"

definition newSocket :: "'s opened \<Rightarrow> 's option \<times> 's list" where
  "newSocket = (\<lambda>(tp, bpf_ok, fanout_ok).
     case tp of
       None \<Rightarrow> (None, [])
     | Some s \<Rightarrow> if \<not> bpf_ok then (None, [s]) else if \<not> fanout_ok then (None, [s]) else (Some s, []))"

text \<open>The loop of \<open>Open\<close>, with \<open>k\<close> sockets still to open: the sockets opened, or the error, and the
  sockets closed. \<open>ops i\<close> is the outcome of the \<open>i\<close>-th opening.\<close>

fun open_loop :: "(nat \<Rightarrow> 's opened) \<Rightarrow> nat \<Rightarrow> 's list \<Rightarrow> 's list option \<times> 's list" where
  "open_loop ops 0 socks = (Some socks, [])"
| "open_loop ops (Suc k) socks =
     (case newSocket (ops (length socks)) of
        (None, cl) \<Rightarrow> (None, cl @ socks)
      | (Some s, cl) \<Rightarrow> open_loop ops k (socks @ [s]))"

definition Open :: "(nat \<Rightarrow> 's opened) \<Rightarrow> 's Manager \<Rightarrow> 's Manager \<times> bool \<times> 's list \<times> event list" where
  "Open ops m =
     (let n = ClampWorkers (NumWorkers m);
          perWorker = go_div (RingBytes m) n;
          blocks = go_div perWorker blockSize;
          blocks = (if blocks < 1 then 1 else blocks);
          m = m\<lparr>NumWorkers := n, numBlocks := blocks, prog := BuildNTPBPF\<rparr>
      in case open_loop ops (nat n) [] of
           (None, cl) \<Rightarrow> (m, False, cl, [])
         | (Some socks, cl) \<Rightarrow> (m\<lparr>sockets := socks\<rparr>, True, cl,
             [GaugeSet NtpCaptureRcvbufBytes [] (fl (of_int (int64 (int64 (blocks * blockSize) * n))))]))"

definition Close :: "'s Manager \<Rightarrow> 's list" where
  "Close m = sockets m"

text \<open>\<open>stats s\<close> is the drop counter of a socket, \<open>None\<close> when it cannot be read.\<close>

definition KernelDrops :: "('s \<Rightarrow> 32 word option) \<Rightarrow> 's Manager \<Rightarrow> u64" where
  "KernelDrops stats m =
     foldl (\<lambda>total s. case stats s of None \<Rightarrow> total | Some d \<Rightarrow> total + ucast d) 0 (sockets m)"

text \<open>\<open>m.sockets[i]\<close> out of range panics.\<close>

definition reopenWorker :: "'s opened \<Rightarrow> nat \<Rightarrow> 's Manager \<Rightarrow> ('s Manager \<times> 's option \<times> 's list) option" where
  "reopenWorker o1 i m =
     (case newSocket o1 of
        (None, cl) \<Rightarrow> Some (m, None, cl)
      | (Some s, cl) \<Rightarrow>
          if i < length (sockets m)
          then Some (m\<lparr>sockets := (sockets m)[i := s]\<rparr>, Some s, cl @ [sockets m ! i]) else None)"

subsection \<open>The worker loop\<close>

text \<open>What all the goroutines share, the variables of one worker, and what the environment returns to
  one iteration of its loop. A packet timestamp is \<open>None\<close> when it is zero.\<close>

record 's shared =
  mgr :: "'s Manager"
  coll :: Collector
  addrs :: LocalIPs
  closed_socks :: "'s list"
  emitted :: "event list"

record 's worker =
  sock :: 's
  backoff :: duration
  consecutiveErrs :: nat
  lastLog :: "time option"

datatype read_result = ReadTimeout | ReadError | ReadFrame bytes "time option"

record 's iter =
  stopped_at_top :: bool           \<comment> \<open>\<open>stop\<close> is closed at the top of the loop\<close>
  result :: read_result
  since_now :: time
  clock_now :: time
  reopening :: "'s opened"
  stopped_in_sleep :: bool         \<comment> \<open>\<open>stop\<close> is chosen before \<open>time.After(backoff)\<close>\<close>
  addr_reading :: reading
  resolve :: "string \<Rightarrow> GeoResult"
  mono_now :: time
  wall_now :: time

datatype outcome = Continue | Backoff

definition start_worker :: "nat \<Rightarrow> 's Manager \<Rightarrow> 's worker option" where
  "start_worker i m =
     (if i < length (sockets m)
      then Some \<lparr>sock = sockets m ! i, backoff = loopErrBackoffMin, consecutiveErrs = 0, lastLog = None\<rparr> else None)"

definition log_error :: "time \<Rightarrow> time \<Rightarrow> 's worker \<Rightarrow> 's worker" where
  "log_error since now w =
     (if lastLog w = None \<or> time_Sub since (the (lastLog w)) \<ge> loopErrLogInterval
      then w\<lparr>lastLog := Some now\<rparr> else w)"

text \<open>The error branch up to the wait: count, log, then reopen or back off.\<close>

definition read_failed :: "nat \<Rightarrow> 's iter \<Rightarrow> 's shared \<times> 's worker \<Rightarrow> (('s shared \<times> 's worker) \<times> outcome) option" where
  "read_failed i it = (\<lambda>(sh, w).
     let w = w\<lparr>consecutiveErrs := consecutiveErrs w + 1\<rparr>;
         sh = sh\<lparr>emitted := emitted sh @ [Inc NtpCaptureLoopErrorsTotal []]\<rparr>;
         w = log_error (since_now it) (clock_now it) w
     in if consecutiveErrs w \<ge> loopErrReopenAfter
        then do {
          (m, ns, cl) \<leftarrow> reopenWorker (reopening it) i (mgr sh);
          let w = (case ns of None \<Rightarrow> w | Some s \<Rightarrow> w\<lparr>sock := s\<rparr>);
          Some ((sh\<lparr>mgr := m, closed_socks := closed_socks sh @ cl\<rparr>, w\<lparr>consecutiveErrs := 0, backoff := loopErrBackoffMin\<rparr>), Continue)
        }
        else Some ((sh, w), Backoff))"

text \<open>One read and what follows it, and the end of the wait.\<close>

definition RunWorker_read :: "nat \<Rightarrow> 's iter \<Rightarrow> 's shared \<times> 's worker \<Rightarrow> (('s shared \<times> 's worker) \<times> outcome) option" where
  "RunWorker_read i it = (\<lambda>(sh, w).
     case result it of
       ReadTimeout \<Rightarrow> Some ((sh, w), Continue)
     | ReadError \<Rightarrow> read_failed i it (sh, w)
     | ReadFrame data timestamp \<Rightarrow> do {
         let w = w\<lparr>consecutiveErrs := 0, backoff := loopErrBackoffMin\<rparr>;
         let ts = (case timestamp of None \<Rightarrow> clock_now it | Some t \<Rightarrow> t);
         ((c, l), ev) \<leftarrow> ProcessFrame (addr_reading it) (resolve it) (mono_now it) (wall_now it) i data ts (coll sh, addrs sh);
         Some ((sh\<lparr>coll := c, addrs := l, emitted := emitted sh @ ev\<rparr>, w), Continue)
       })"

definition RunWorker_wake :: "'s worker \<Rightarrow> 's worker" where
  "RunWorker_wake w =
     (let b = int64 (backoff w * 2) in w\<lparr>backoff := (if b > loopErrBackoffMax then loopErrBackoffMax else b)\<rparr>)"

text \<open>A whole iteration, with the time it sleeps.\<close>

definition RunWorker_iter ::
    "nat \<Rightarrow> 's iter \<Rightarrow> 's shared \<times> 's worker \<Rightarrow> (('s shared \<times> 's worker) \<times> bool \<times> duration list) option" where
  "RunWorker_iter i it sw =
     (if stopped_at_top it then Some (sw, True, [])
      else do {
        ((sh, w), oc) \<leftarrow> RunWorker_read i it sw;
        Some (case oc of
            Continue \<Rightarrow> ((sh, w), False, [])
          | Backoff \<Rightarrow> if stopped_in_sleep it then ((sh, w), True, []) else ((sh, RunWorker_wake w), False, [backoff w]))
      })"

fun RunWorker_loop ::
    "nat \<Rightarrow> 's iter list \<Rightarrow> 's shared \<times> 's worker \<Rightarrow> (('s shared \<times> 's worker) \<times> bool \<times> duration list) option" where
  "RunWorker_loop i [] sw = Some (sw, False, [])"
| "RunWorker_loop i (it # its) sw =
     do {
       (sw, ret, d) \<leftarrow> RunWorker_iter i it sw;
       if ret then Some (sw, True, d)
       else do {
         (sw, ret, ds) \<leftarrow> RunWorker_loop i its sw;
         Some (sw, ret, d @ ds)
       }
     }"

definition RunWorker :: "nat \<Rightarrow> 's iter list \<Rightarrow> 's shared \<Rightarrow> (('s shared \<times> 's worker) \<times> bool \<times> duration list) option" where
  "RunWorker i its sh =
     do {
       w \<leftarrow> start_worker i (mgr sh);
       RunWorker_loop i its (sh, w)
     }"

subsection \<open>Opening\<close>

lemma newSocket_cases:
  "newSocket (tp, b, f) = (if tp \<noteq> None \<and> b \<and> f then (tp, []) else (None, (case tp of None \<Rightarrow> [] | Some s \<Rightarrow> [s])))"
  by (auto simp: newSocket_def split: option.splits)

text \<open>The opening succeeds, and every socket the library handed out in the first \<open>k\<close> openings.\<close>

abbreviation opens :: "'s opened \<Rightarrow> bool" where
  "opens o1 \<equiv> fst (newSocket o1) \<noteq> None"

definition handed_out :: "(nat \<Rightarrow> 's opened) \<Rightarrow> nat \<Rightarrow> 's list" where
  "handed_out ops k = concat (map (\<lambda>i. case fst (ops i) of None \<Rightarrow> [] | Some s \<Rightarrow> [s]) [0..<k])"

lemma newSocket_opens: "opens o1 \<Longrightarrow> \<exists>s. newSocket o1 = (Some s, []) \<and> fst o1 = Some s"
  by (cases o1) (auto simp: newSocket_cases split: if_splits)

lemma newSocket_fails: "\<not> opens o1 \<Longrightarrow> newSocket o1 = (None, case fst o1 of None \<Rightarrow> [] | Some s \<Rightarrow> [s])"
  by (cases o1) (auto simp: newSocket_cases split: if_splits)

lemma handed_out_Suc: "handed_out ops (Suc i) = handed_out ops i @ (case fst (ops i) of None \<Rightarrow> [] | Some s \<Rightarrow> [s])"
  by (simp add: handed_out_def)

lemma length_handed_out: "\<forall>i < k. opens (ops i) \<Longrightarrow> length (handed_out ops k) = k"
proof (induction k)
  case (Suc k)
  with newSocket_opens [of "ops k"] show ?case by (auto simp: handed_out_Suc)
qed (simp add: handed_out_def)

lemma open_loop_opens:
  assumes "\<forall>j \<le> i. opens (ops j)"
  shows "open_loop ops (Suc k) (handed_out ops i) = open_loop ops k (handed_out ops (Suc i))"
proof -
  have "length (handed_out ops i) = i" using assms by (simp add: length_handed_out)
  moreover obtain s where "newSocket (ops i) = (Some s, [])" "fst (ops i) = Some s"
    using assms newSocket_opens [of "ops i"] by auto
  ultimately show ?thesis by (simp add: handed_out_Suc)
qed

lemma open_loop_prefix:
  "\<forall>j < i. opens (ops j) \<Longrightarrow> open_loop ops (i + k) [] = open_loop ops k (handed_out ops i)"
proof (induction i arbitrary: k)
  case (Suc i)
  then show ?case using Suc.IH [of "Suc k"] open_loop_opens [of i ops k] by simp
qed (simp add: handed_out_def)

lemma open_loop_all:
  "\<forall>j < n. opens (ops j) \<Longrightarrow> open_loop ops n [] = (Some (handed_out ops n), [])"
  using open_loop_prefix [of n ops 0] by simp

lemma open_loop_fail:
  assumes "\<forall>i < j. opens (ops i)" "\<not> opens (ops j)" "j < n"
  shows "\<exists>cl. open_loop ops n [] = (None, cl) \<and> mset cl = mset (handed_out ops (Suc j))"
proof -
  have "open_loop ops n [] = open_loop ops (Suc (n - Suc j)) (handed_out ops j)"
    using open_loop_prefix [OF assms(1), of "n - j"] assms(3) by (simp add: Suc_diff_Suc)
  moreover have "length (handed_out ops j) = j" using assms(1) by (rule length_handed_out)
  ultimately show ?thesis using newSocket_fails [OF assms(2)] by (auto simp: handed_out_Suc)
qed

lemma ClampWorkers_pos: "0 < ClampWorkers n"
  by (simp add: ClampWorkers_def)

text \<open>The number of blocks of each ring.\<close>

definition ring_blocks :: "'s Manager \<Rightarrow> int" where
  "ring_blocks m = max 1 (go_div (go_div (RingBytes m) (ClampWorkers (NumWorkers m))) blockSize)"

lemma ring_blocks_exact: "ring_blocks m = max 1 (RingBytes m div (ClampWorkers (NumWorkers m) * 2 ^ 20))"
proof (cases "0 \<le> RingBytes m")
  case True
  then have "go_div (go_div (RingBytes m) (ClampWorkers (NumWorkers m))) blockSize = RingBytes m div ClampWorkers (NumWorkers m) div blockSize"
    using ClampWorkers_pos [of "NumWorkers m"] by (simp add: go_div_nonneg pos_imp_zdiv_nonneg_iff blockSize_def)
  then show ?thesis by (simp add: ring_blocks_def zdiv_zmult2_eq blockSize_def)
next
  case False
  then have "go_div (go_div (RingBytes m) (ClampWorkers (NumWorkers m))) blockSize \<le> 0"
    using ClampWorkers_pos [of "NumWorkers m"] by (simp add: go_div_nonpos blockSize_def)
  moreover have "RingBytes m div (ClampWorkers (NumWorkers m) * 2 ^ 20) < 0"
    using False ClampWorkers_pos [of "NumWorkers m"] by (intro div_neg_pos_less0) auto
  ultimately show ?thesis by (simp add: ring_blocks_def max_def)
qed

text \<open>The rings of all workers together: the configured size rounded down to whole blocks per worker, but never less
  than one block per worker.\<close>

lemma ring_total:
  assumes "n = ClampWorkers (NumWorkers m)"
  shows "if n * 2 ^ 20 \<le> RingBytes m
    then RingBytes m - n * 2 ^ 20 < n * ring_blocks m * 2 ^ 20 \<and> n * ring_blocks m * 2 ^ 20 \<le> RingBytes m
    else n * ring_blocks m * 2 ^ 20 = n * 2 ^ 20"
proof -
  let ?b = "n * 2 ^ 20"
  have n: "0 < ?b" using ClampWorkers_pos [of "NumWorkers m"] assms by simp
  have r: "ring_blocks m = max 1 (RingBytes m div ?b)" by (simp add: ring_blocks_exact assms)
  show ?thesis
  proof (cases "?b \<le> RingBytes m")
    case True
    then have "1 \<le> RingBytes m div ?b" using n by (simp add: pos_imp_zdiv_pos_iff int_one_le_iff_zero_less)
    then have "n * ring_blocks m * 2 ^ 20 = RingBytes m - RingBytes m mod ?b"
      using r by (simp add: minus_mod_eq_mult_div algebra_simps)
    then show ?thesis using True pos_mod_bound [OF n, of "RingBytes m"] pos_mod_sign [OF n, of "RingBytes m"] by simp
  next
    case False
    then have "RingBytes m div ?b < 1" using zdiv_mono1 [of "RingBytes m" "?b - 1" ?b] n by (simp add: div_pos_pos_trivial)
    then show ?thesis using r False by simp
  qed
qed

lemma Open_eq:
  "Open ops m =
     (let m' = m\<lparr>NumWorkers := ClampWorkers (NumWorkers m), numBlocks := ring_blocks m, prog := BuildNTPBPF\<rparr>
      in case open_loop ops (nat (ClampWorkers (NumWorkers m))) [] of
           (None, cl) \<Rightarrow> (m', False, cl, [])
         | (Some socks, cl) \<Rightarrow> (m'\<lparr>sockets := socks\<rparr>, True, cl,
             [GaugeSet NtpCaptureRcvbufBytes [] (fl (of_int (int64 (int64 (ring_blocks m * blockSize) * ClampWorkers (NumWorkers m)))))]))"
proof -
  have "(if b < 1 then 1 else b) = max 1 b" for b :: int by simp
  then show ?thesis by (simp only: Open_def ring_blocks_def Let_def)
qed

lemma Open_outcome:
  assumes "n = nat (ClampWorkers (NumWorkers m))"
  shows "((\<forall>i < n. opens (ops i)) \<longrightarrow> (\<exists>m' ev. Open ops m = (m', True, [], ev) \<and> sockets m' = handed_out ops n
      \<and> length (sockets m') = n \<and> 1 \<le> n \<and> numBlocks m' = ring_blocks m
      \<and> ev = [GaugeSet NtpCaptureRcvbufBytes [] (fl (of_int (int64 (int64 (ring_blocks m * blockSize) * int n))))] \<and> list_all event_ok ev))
    \<and> ((\<forall>i < j. opens (ops i)) \<and> \<not> opens (ops j) \<and> j < n \<longrightarrow> (\<exists>m' cl. Open ops m = (m', False, cl, [])
      \<and> sockets m' = sockets m \<and> mset cl = mset (handed_out ops (Suc j))))"
proof -
  have n: "0 < ClampWorkers (NumWorkers m)" by (rule ClampWorkers_pos)
  have ev: "event_ok (GaugeSet NtpCaptureRcvbufBytes [] v)" for v
    by (simp add: Registry_def metrics_init_def metric_defs mk_def mk_hist_def)
  show ?thesis
    using assms n open_loop_all [of n ops] open_loop_fail [of j ops n] length_handed_out [of n ops]
    by (auto simp: Open_eq Let_def ev)
qed

subsection \<open>The worker loop\<close>

text \<open>The wait before the next read is \<open>10ms * 2^k\<close> after \<open>k\<close> consecutive errors, up to a second.\<close>

definition backoff_after :: "nat \<Rightarrow> duration" where
  "backoff_after k = min loopErrBackoffMax (loopErrBackoffMin * 2 ^ k)"

definition worker_ok :: "'s worker \<Rightarrow> bool" where
  "worker_ok w \<longleftrightarrow> consecutiveErrs w < loopErrReopenAfter \<and> backoff w = backoff_after (consecutiveErrs w)"

text \<open>The same, while waiting: the error is counted and the wait is not yet doubled.\<close>

definition waiting_ok :: "'s worker \<Rightarrow> bool" where
  "waiting_ok w \<longleftrightarrow> 0 < consecutiveErrs w \<and> consecutiveErrs w < loopErrReopenAfter
     \<and> backoff w = backoff_after (consecutiveErrs w - 1)"

lemma backoff_after_0 [simp]: "backoff_after 0 = loopErrBackoffMin"
  by (simp add: backoff_after_def manager_consts)

lemma backoff_after_bounds: "loopErrBackoffMin \<le> backoff_after k" "backoff_after k \<le> loopErrBackoffMax"
proof -
  have "1 \<le> (2 :: int) ^ k" by simp
  then show "loopErrBackoffMin \<le> backoff_after k" "backoff_after k \<le> loopErrBackoffMax"
    by (auto simp: backoff_after_def manager_consts)
qed

lemma RunWorker_wake_eq: "waiting_ok w \<Longrightarrow> RunWorker_wake w = w\<lparr>backoff := backoff_after (consecutiveErrs w)\<rparr>"
proof -
  assume ok: "waiting_ok w"
  then obtain k where k: "consecutiveErrs w = Suc k" by (cases "consecutiveErrs w") (auto simp: waiting_ok_def)
  have "int64 (backoff_after k * 2) = backoff_after k * 2"
    using backoff_after_bounds [of k] by (intro int64_id) (simp_all add: manager_consts)
  moreover have "(if backoff_after k * 2 > loopErrBackoffMax then loopErrBackoffMax else backoff_after k * 2) =
      backoff_after (Suc k)"
    by (auto simp: backoff_after_def manager_consts min_def)
  ultimately show ?thesis using ok k by (simp add: RunWorker_wake_def Let_def waiting_ok_def)
qed

lemma wake_ok: "waiting_ok w \<Longrightarrow> worker_ok (RunWorker_wake w) \<and> sock (RunWorker_wake w) = sock w"
  by (simp add: RunWorker_wake_eq) (simp add: worker_ok_def waiting_ok_def)

lemma start_worker_ok: "i < length (sockets m) \<Longrightarrow> \<exists>w. start_worker i m = Some w \<and> worker_ok w \<and> sock w = sockets m ! i"
  by (simp add: start_worker_def worker_ok_def loopErrReopenAfter_def)

lemma log_error_simps [simp]:
  "sock (log_error a b w) = sock w" "backoff (log_error a b w) = backoff w"
  "consecutiveErrs (log_error a b w) = consecutiveErrs w"
  by (simp_all add: log_error_def)

text \<open>One failed read, by the number of errors before it.\<close>

lemma read_failed_backoff:
  assumes "worker_ok w" "consecutiveErrs w + 1 < loopErrReopenAfter"
  shows "\<exists>w'. read_failed i it (sh, w) = Some ((sh\<lparr>emitted := emitted sh @ [Inc NtpCaptureLoopErrorsTotal []]\<rparr>, w'), Backoff)
    \<and> waiting_ok w' \<and> sock w' = sock w \<and> consecutiveErrs w' = consecutiveErrs w + 1"
  using assms by (simp add: read_failed_def Let_def waiting_ok_def worker_ok_def)

text \<open>No handle is open twice or closed twice, and none is used after it was closed. The library hands out
  a new handle each time.\<close>

definition handles_ok :: "'s Manager \<Rightarrow> 's list \<Rightarrow> bool" where
  "handles_ok m cl \<longleftrightarrow> distinct (sockets m @ cl)"

definition new_handle :: "'s Manager \<Rightarrow> 's list \<Rightarrow> 's opened \<Rightarrow> bool" where
  "new_handle m cl o1 \<longleftrightarrow> (case fst o1 of None \<Rightarrow> True | Some s \<Rightarrow> s \<notin> set (sockets m @ cl))"

definition shared_ok :: "'s shared \<Rightarrow> bool" where
  "shared_ok sh \<longleftrightarrow> Collector_ok (coll sh) \<and> length (sockets (mgr sh)) \<le> length (workers (coll sh))
     \<and> handles_ok (mgr sh) (closed_socks sh) \<and> list_all event_ok (emitted sh)"

lemma distinct_swap_out:
  assumes "distinct (xs @ ys)" "i < length xs" "s \<notin> set (xs @ ys)"
  shows "distinct (xs[i := s] @ ys @ [xs ! i])"
proof -
  have "mset (s # xs @ ys) = mset (xs[i := s] @ ys @ [xs ! i])"
    using assms(2) by (simp add: mset_update)
  moreover have "distinct (s # xs @ ys)" using assms by simp
  ultimately show ?thesis by (metis mset_eq_imp_distinct_iff)
qed

lemma loop_error_event [simp]: "event_ok (Inc NtpCaptureLoopErrorsTotal [])"
  by (simp add: Registry_def metrics_init_def metric_defs mk_def mk_hist_def)

lemma reopenWorker_ok:
  assumes "handles_ok m cl" "new_handle m cl o1" "i < length (sockets m)"
  shows "\<exists>m' ns cl'. reopenWorker o1 i m = Some (m', ns, cl') \<and> handles_ok m' (cl @ cl')
    \<and> (case ns of None \<Rightarrow> m' = m | Some s \<Rightarrow> m' = m\<lparr>sockets := (sockets m)[i := s]\<rparr>)"
proof (cases "opens o1")
  case True
  from newSocket_opens [OF True] obtain s where s: "newSocket o1 = (Some s, [])" "fst o1 = Some s" by blast
  then show ?thesis
    using assms distinct_swap_out [of "sockets m" cl i s]
    by (simp add: reopenWorker_def handles_ok_def new_handle_def)
next
  case False
  with newSocket_fails [OF this] assms show ?thesis
    by (auto simp: reopenWorker_def handles_ok_def new_handle_def split: option.splits)
qed

text \<open>One read keeps the invariants, whatever the library returns.\<close>

definition read_keeps :: "nat \<Rightarrow> 's shared \<Rightarrow> 's shared \<Rightarrow> 's worker \<Rightarrow> outcome \<Rightarrow> bool" where
  "read_keeps i sh sh' w' oc \<longleftrightarrow> shared_ok sh' \<and> sock w' = sockets (mgr sh') ! i
     \<and> (case oc of Continue \<Rightarrow> worker_ok w' | Backoff \<Rightarrow> waiting_ok w')
     \<and> length (sockets (mgr sh')) = length (sockets (mgr sh))
     \<and> (\<forall>j. j \<noteq> i \<longrightarrow> sockets (mgr sh') ! j = sockets (mgr sh) ! j)"

lemma read_failed_keeps:
  assumes "shared_ok sh" "worker_ok w" "i < length (sockets (mgr sh))" "sock w = sockets (mgr sh) ! i"
    and "new_handle (mgr sh) (closed_socks sh) (reopening it)"
  shows "\<exists>sh' w' oc. read_failed i it (sh, w) = Some ((sh', w'), oc) \<and> read_keeps i sh sh' w' oc"
proof (cases "consecutiveErrs w + 1 < loopErrReopenAfter")
  case True
  with read_failed_backoff [OF assms(2) this, of i it sh] assms show ?thesis
    by (auto simp: read_keeps_def shared_ok_def)
next
  case False
  from reopenWorker_ok [OF _ assms(5,3)] assms(1) obtain m ns cl where
    r: "reopenWorker (reopening it) i (mgr sh) = Some (m, ns, cl)" "handles_ok m (closed_socks sh @ cl)"
    "case ns of None \<Rightarrow> m = mgr sh | Some s \<Rightarrow> m = mgr sh\<lparr>sockets := (sockets (mgr sh))[i := s]\<rparr>"
    by (auto simp: shared_ok_def)
  with False assms show ?thesis
    by (cases ns) (auto simp: read_failed_def Let_def read_keeps_def shared_ok_def worker_ok_def
        loopErrReopenAfter_def)
qed

lemma RunWorker_read_keeps:
  assumes "shared_ok sh" "worker_ok w" "i < length (sockets (mgr sh))" "sock w = sockets (mgr sh) ! i"
    and "new_handle (mgr sh) (closed_socks sh) (reopening it)"
  shows "\<exists>sh' w' oc. RunWorker_read i it (sh, w) = Some ((sh', w'), oc) \<and> read_keeps i sh sh' w' oc"
proof (cases "result it")
  case ReadTimeout
  with assms show ?thesis by (auto simp: RunWorker_read_def read_keeps_def)
next
  case ReadError
  with read_failed_keeps [OF assms] show ?thesis by (simp add: RunWorker_read_def)
next
  case (ReadFrame data timestamp)
  have "i < length (workers (coll sh))" "Collector_ok (coll sh)" using assms by (auto simp: shared_ok_def)
  from ProcessFrame_keeps [OF this(2,1), of "addr_reading it" "resolve it" "mono_now it" "wall_now it" data
      "case timestamp of None \<Rightarrow> clock_now it | Some t \<Rightarrow> t" "addrs sh"]
  show ?thesis using ReadFrame assms
    by (auto simp: RunWorker_read_def read_keeps_def shared_ok_def worker_ok_def loopErrReopenAfter_def)
qed


text \<open>A burst of failed reads with no stop in between.\<close>

definition failing :: "'s iter \<Rightarrow> bool" where
  "failing it \<longleftrightarrow> \<not> stopped_at_top it \<and> result it = ReadError \<and> \<not> stopped_in_sleep it"

lemma RunWorker_iter_backoff:
  assumes "failing it" "worker_ok w" "consecutiveErrs w + 1 < loopErrReopenAfter"
  shows "\<exists>sh' w'. RunWorker_iter i it (sh, w) = Some ((sh', w'), False, [backoff w]) \<and> worker_ok w'
    \<and> consecutiveErrs w' = consecutiveErrs w + 1 \<and> sock w' = sock w \<and> mgr sh' = mgr sh \<and> closed_socks sh' = closed_socks sh
    \<and> coll sh' = coll sh"
proof -
  from read_failed_backoff [OF assms(2,3), of i it sh] obtain w' where w':
    "read_failed i it (sh, w) = Some ((sh\<lparr>emitted := emitted sh @ [Inc NtpCaptureLoopErrorsTotal []]\<rparr>, w'), Backoff)"
    "waiting_ok w'" "sock w' = sock w" "consecutiveErrs w' = consecutiveErrs w + 1" by blast
  moreover have "backoff w' = backoff w" using w'(2,4) assms(2) by (simp add: waiting_ok_def worker_ok_def)
  ultimately show ?thesis
    using assms(1) wake_ok [OF w'(2)]
    by (simp add: RunWorker_iter_def RunWorker_read_def failing_def) (simp add: RunWorker_wake_def Let_def)
qed

lemma RunWorker_loop_backoff:
  assumes "list_all failing its" "worker_ok w" "consecutiveErrs w + length its < loopErrReopenAfter"
  shows "\<exists>sh' w'. RunWorker_loop i its (sh, w) =
      Some ((sh', w'), False, map backoff_after [consecutiveErrs w..<consecutiveErrs w + length its]) \<and> worker_ok w'
    \<and> consecutiveErrs w' = consecutiveErrs w + length its \<and> sock w' = sock w \<and> mgr sh' = mgr sh \<and> closed_socks sh' = closed_socks sh
    \<and> coll sh' = coll sh"
  using assms
proof (induction its arbitrary: sh w)
  case (Cons it its)
  have "failing it" "consecutiveErrs w + 1 < loopErrReopenAfter" using Cons.prems by auto
  from RunWorker_iter_backoff [OF this(1) Cons.prems(2) this(2), of i sh] obtain sh1 w1 where
    1: "RunWorker_iter i it (sh, w) = Some ((sh1, w1), False, [backoff w])" "worker_ok w1"
      "consecutiveErrs w1 = consecutiveErrs w + 1" "sock w1 = sock w" "mgr sh1 = mgr sh"
      "closed_socks sh1 = closed_socks sh" "coll sh1 = coll sh" by blast
  from Cons.IH [OF _ 1(2), of sh1] Cons.prems 1(3) obtain sh2 w2 where
    2: "RunWorker_loop i its (sh1, w1) =
      Some ((sh2, w2), False, map backoff_after [consecutiveErrs w1..<consecutiveErrs w1 + length its])" "worker_ok w2"
      "consecutiveErrs w2 = consecutiveErrs w1 + length its" "sock w2 = sock w1" "mgr sh2 = mgr sh1"
      "closed_socks sh2 = closed_socks sh1" "coll sh2 = coll sh1" by auto
  have b: "backoff w = backoff_after (consecutiveErrs w)" using Cons.prems(2) by (simp add: worker_ok_def)
  show ?case using 1 2 b by (auto simp: upt_rec)
qed simp


text \<open>What a reopening does to the shared state: the new socket takes the worker's slot and the old one
  is closed, or the opening failed and the slot is as before.\<close>

definition replaced :: "'s opened \<Rightarrow> nat \<Rightarrow> 's shared \<Rightarrow> 's shared \<Rightarrow> bool" where
  "replaced o1 i sh sh' \<longleftrightarrow>
     (case newSocket o1 of
        (None, cl) \<Rightarrow> mgr sh' = mgr sh \<and> closed_socks sh' = closed_socks sh @ cl
      | (Some s, cl) \<Rightarrow> mgr sh' = mgr sh\<lparr>sockets := (sockets (mgr sh))[i := s]\<rparr>
          \<and> closed_socks sh' = closed_socks sh @ cl @ [sockets (mgr sh) ! i])"

lemma RunWorker_iter_reopen:
  assumes "failing it" "worker_ok w" "consecutiveErrs w + 1 = loopErrReopenAfter" "i < length (sockets (mgr sh))"
    and "sock w = sockets (mgr sh) ! i"
  shows "\<exists>sh' w'. RunWorker_iter i it (sh, w) = Some ((sh', w'), False, []) \<and> worker_ok w' \<and> consecutiveErrs w' = 0
    \<and> sock w' = sockets (mgr sh') ! i \<and> coll sh' = coll sh
    \<and> replaced (reopening it) i sh sh'"
  using assms
  by (auto simp: RunWorker_iter_def RunWorker_read_def failing_def read_failed_def Let_def reopenWorker_def
      worker_ok_def loopErrReopenAfter_def replaced_def split: prod.splits option.splits)

lemma RunWorker_loop_append:
  "RunWorker_loop i its sw = Some (sw', False, ds) \<Longrightarrow>
   RunWorker_loop i (its @ jts) sw = map_option (\<lambda>(sw2, ret, ds2). (sw2, ret, ds @ ds2)) (RunWorker_loop i jts sw')"
proof (induction its arbitrary: sw ds)
  case Nil
  then show ?case by (cases "RunWorker_loop i jts sw") auto
next
  case (Cons it its)
  then obtain sw1 d ds1 where 1: "RunWorker_iter i it sw = Some (sw1, False, d)"
    "RunWorker_loop i its sw1 = Some (sw', False, ds1)" "ds = d @ ds1"
    by (auto split: if_splits bind_splits)
  with Cons.IH [OF 1(2)] show ?case by (cases "RunWorker_loop i jts sw'") auto
qed

lemma RunWorker_burst:
  assumes "list_all failing its" "failing it" "length its = 31" "i < length (sockets (mgr sh))"
  shows "\<exists>sh' w'. RunWorker i (its @ [it]) sh = Some ((sh', w'), False, map backoff_after [0..<31])
    \<and> worker_ok w' \<and> consecutiveErrs w' = 0 \<and> sock w' = sockets (mgr sh') ! i \<and> coll sh' = coll sh
    \<and> replaced (reopening it) i sh sh'"
proof -
  from start_worker_ok [OF assms(4)] obtain w where w: "start_worker i (mgr sh) = Some w" "worker_ok w"
    "sock w = sockets (mgr sh) ! i" by blast
  then have w0: "consecutiveErrs w = 0" by (auto simp: start_worker_def split: if_splits)
  with RunWorker_loop_backoff [OF assms(1) w(2), of i sh] assms(3) obtain sh1 w1 where
    1: "RunWorker_loop i its (sh, w) = Some ((sh1, w1), False, map backoff_after [0..<31])" "worker_ok w1"
      "consecutiveErrs w1 = 31" "sock w1 = sock w" "mgr sh1 = mgr sh" "closed_socks sh1 = closed_socks sh" "coll sh1 = coll sh"
    by (auto simp: loopErrReopenAfter_def)
  have "consecutiveErrs w1 + 1 = loopErrReopenAfter" "i < length (sockets (mgr sh1))" "sock w1 = sockets (mgr sh1) ! i"
    using 1 assms(4) w(3) by (simp_all add: loopErrReopenAfter_def)
  from RunWorker_iter_reopen [OF assms(2) 1(2) this] obtain sh2 w2 where
    2: "RunWorker_iter i it (sh1, w1) = Some ((sh2, w2), False, [])" "worker_ok w2" "consecutiveErrs w2 = 0"
    "sock w2 = sockets (mgr sh2) ! i" "coll sh2 = coll sh1"
    "replaced (reopening it) i sh1 sh2" by blast
  have "RunWorker i (its @ [it]) sh = Some ((sh2, w2), False, map backoff_after [0..<31])"
    by (simp add: RunWorker_def w(1) RunWorker_loop_append [OF 1(1)] 2(1) del: upt_rec_numeral)
  moreover have "replaced (reopening it) i sh sh2"
    using 2(6) unfolding replaced_def 1(5,6) .
  ultimately show ?thesis using 1(7) 2(2-5) by auto
qed


subsection \<open>Run: the goroutines of the capture workers\<close>

text \<open>A goroutine is about to run \<open>RunWorker\<close>, at the top of its loop, in a read, in a wait, past the
  return, or done with the countdown. The main goroutine has started \<open>k\<close> of them, waits on \<open>stop\<close>,
  waits on \<open>done\<close>, or has returned.\<close>

datatype 's gor = Starting | AtTop "'s worker" | Reading "'s worker" | Sleeping "'s worker" | Returned | Finished

datatype run_pc = Spawning nat | WaitStop | WaitDone | RunReturned

record 's run_state =
  shared_st :: "'s shared"
  gors :: "'s gor list"
  running :: "32 word"
  done_closed :: bool
  stop_closed :: bool
  pc :: run_pc

abbreviation socks_of :: "'s run_state \<Rightarrow> 's list" where
  "socks_of s \<equiv> sockets (mgr (shared_st s))"

definition Run_init :: "'s shared \<Rightarrow> bool \<Rightarrow> 's run_state" where
  "Run_init sh stop = \<lparr>shared_st = sh, gors = [], running = of_nat (length (sockets (mgr sh))), done_closed = False,
     stop_closed = stop, pc = Spawning 0\<rparr>"

definition Run_exit :: "nat \<Rightarrow> 's run_state \<Rightarrow> 's run_state" where
  "Run_exit i s = (let n = running s - 1 in s\<lparr>running := n, done_closed := (done_closed s \<or> n = 0), gors := (gors s)[i := Finished]\<rparr>)"

text \<open>One step: the signal handler closes \<open>stop\<close>, the main goroutine advances, or a worker does.\<close>

inductive Run_step :: "'s run_state \<Rightarrow> 's run_state \<Rightarrow> bool" where
  Signal: "\<not> stop_closed s \<Longrightarrow> Run_step s (s\<lparr>stop_closed := True\<rparr>)"
| Spawn: "pc s = Spawning k \<Longrightarrow> k < length (socks_of s) \<Longrightarrow> Run_step s (s\<lparr>gors := gors s @ [Starting], pc := Spawning (k + 1)\<rparr>)"
| Spawned: "pc s = Spawning k \<Longrightarrow> \<not> k < length (socks_of s) \<Longrightarrow> Run_step s (s\<lparr>pc := WaitStop\<rparr>)"
| Stop: "pc s = WaitStop \<Longrightarrow> stop_closed s \<Longrightarrow> Run_step s (s\<lparr>pc := WaitDone\<rparr>)"
| Done: "pc s = WaitDone \<Longrightarrow> done_closed s \<Longrightarrow> Run_step s (s\<lparr>pc := RunReturned\<rparr>)"
| Start: "i < length (gors s) \<Longrightarrow> gors s ! i = Starting \<Longrightarrow> start_worker i (mgr (shared_st s)) = Some w \<Longrightarrow>
    Run_step s (s\<lparr>gors := (gors s)[i := AtTop w]\<rparr>)"
| Top: "i < length (gors s) \<Longrightarrow> gors s ! i = AtTop w \<Longrightarrow>
    Run_step s (s\<lparr>gors := (gors s)[i := if stop_closed s then Returned else Reading w]\<rparr>)"
| Read: "i < length (gors s) \<Longrightarrow> gors s ! i = Reading w \<Longrightarrow>
    new_handle (mgr (shared_st s)) (closed_socks (shared_st s)) (reopening it) \<Longrightarrow>
    RunWorker_read i it (shared_st s, w) = Some ((sh', w'), oc) \<Longrightarrow>
    Run_step s (s\<lparr>shared_st := sh', gors := (gors s)[i := (case oc of Continue \<Rightarrow> AtTop w' | Backoff \<Rightarrow> Sleeping w')]\<rparr>)"
| Wake: "i < length (gors s) \<Longrightarrow> gors s ! i = Sleeping w \<Longrightarrow> Run_step s (s\<lparr>gors := (gors s)[i := AtTop (RunWorker_wake w)]\<rparr>)"
| Wake_stop: "i < length (gors s) \<Longrightarrow> gors s ! i = Sleeping w \<Longrightarrow> stop_closed s \<Longrightarrow>
    Run_step s (s\<lparr>gors := (gors s)[i := Returned]\<rparr>)"
| Exit: "i < length (gors s) \<Longrightarrow> gors s ! i = Returned \<Longrightarrow> Run_step s (Run_exit i s)"

text \<open>The next step of some goroutine panics: an index out of range, a panic while a frame is processed, or
  \<open>close\<close> of a closed channel.\<close>

definition Run_panics :: "'s run_state \<Rightarrow> bool" where
  "Run_panics s \<longleftrightarrow> (\<exists>i < length (gors s). case gors s ! i of
       Starting \<Rightarrow> start_worker i (mgr (shared_st s)) = None
     | Reading w \<Rightarrow> (\<exists>it. new_handle (mgr (shared_st s)) (closed_socks (shared_st s)) (reopening it)
         \<and> RunWorker_read i it (shared_st s, w) = None)
     | Returned \<Rightarrow> running s - 1 = 0 \<and> done_closed s
     | _ \<Rightarrow> False)"

text \<open>The invariant.\<close>

fun gor_ok :: "'s list \<Rightarrow> nat \<Rightarrow> bool \<Rightarrow> 's gor \<Rightarrow> bool" where
  "gor_ok socks i stop (AtTop w) \<longleftrightarrow> worker_ok w \<and> sock w = socks ! i"
| "gor_ok socks i stop (Reading w) \<longleftrightarrow> worker_ok w \<and> sock w = socks ! i"
| "gor_ok socks i stop (Sleeping w) \<longleftrightarrow> waiting_ok w \<and> sock w = socks ! i"
| "gor_ok socks i stop Starting \<longleftrightarrow> True"
| "gor_ok socks i stop Returned \<longleftrightarrow> stop"
| "gor_ok socks i stop Finished \<longleftrightarrow> stop"

definition unfinished :: "'s run_state \<Rightarrow> nat" where
  "unfinished s = length (socks_of s) - length (filter (\<lambda>g. g = Finished) (gors s))"

definition Run_inv :: "'s run_state \<Rightarrow> bool" where
  "Run_inv s \<longleftrightarrow> shared_ok (shared_st s) \<and> 0 < length (socks_of s) \<and> length (socks_of s) < 2 ^ 32
     \<and> (case pc s of Spawning k \<Rightarrow> length (gors s) = k \<and> k \<le> length (socks_of s) | _ \<Rightarrow> length (gors s) = length (socks_of s))
     \<and> (\<forall>i < length (gors s). gor_ok (socks_of s) i (stop_closed s) (gors s ! i))
     \<and> running s = of_nat (unfinished s) \<and> (done_closed s \<longleftrightarrow> unfinished s = 0)
     \<and> (pc s = WaitDone \<or> pc s = RunReturned \<longrightarrow> stop_closed s) \<and> (pc s = RunReturned \<longrightarrow> done_closed s)"


lemma length_filter_update:
  "i < length xs \<Longrightarrow> length (filter P (xs[i := y])) + (if P (xs ! i) then 1 else 0) = length (filter P xs) + (if P y then 1 else 0)"
proof (induction xs arbitrary: i)
  case (Cons x xs)
  then show ?case by (cases i) auto
qed simp



lemma gors_le: "Run_inv s \<Longrightarrow> length (gors s) \<le> length (socks_of s)"
  by (auto simp: Run_inv_def split: run_pc.splits)

lemma unfinished_pos: "Run_inv s \<Longrightarrow> i < length (gors s) \<Longrightarrow> gors s ! i \<noteq> Finished \<Longrightarrow> 0 < unfinished s"
  using gors_le [of s] length_filter_less [of "gors s ! i" "gors s" "\<lambda>g. g = Finished"] by (simp add: unfinished_def)

lemma Run_inv_update:
  assumes "Run_inv s" "i < length (gors s)" "gors s ! i \<noteq> Finished" "g \<noteq> Finished"
    and "gor_ok (socks_of s) i (stop_closed s) g"
  shows "Run_inv (s\<lparr>gors := (gors s)[i := g]\<rparr>)"
proof -
  have "unfinished (s\<lparr>gors := (gors s)[i := g]\<rparr>) = unfinished s"
    using assms(2-4) length_filter_update [of i "gors s" "\<lambda>g. g = Finished" g] by (simp add: unfinished_def)
  then show ?thesis
    using assms by (auto simp: Run_inv_def nth_list_update split: run_pc.splits)
qed

lemma Run_inv_exit:
  assumes "Run_inv s" "i < length (gors s)" "gors s ! i = Returned"
  shows "Run_inv (Run_exit i s) \<and> \<not> done_closed s"
proof -
  have pos: "0 < unfinished s" using unfinished_pos [OF assms(1,2)] assms(3) by simp
  have u: "unfinished (Run_exit i s) = unfinished s - 1"
    using assms(2,3) length_filter_update [of i "gors s" "\<lambda>g. g = Finished" Finished]
    by (simp add: unfinished_def Run_exit_def Let_def)
  have small: "unfinished s < 2 ^ 32" using assms(1) by (auto simp: Run_inv_def unfinished_def)
  have r: "running s - 1 = of_nat (unfinished s - 1)" using assms(1) pos by (simp add: Run_inv_def)
  have z: "running s - 1 = 0 \<longleftrightarrow> unfinished s - 1 = 0"
    unfolding r using small by (simp add: word_of_nat_eq_0_iff) (auto dest: dvd_imp_le)
  show ?thesis
    using assms pos u r z by (auto simp: Run_inv_def Run_exit_def Let_def nth_list_update split: run_pc.splits)
qed

lemma gor_ok_other:
  "\<forall>j. j \<noteq> i \<longrightarrow> socks' ! j = socks ! j \<Longrightarrow> j \<noteq> i \<Longrightarrow> gor_ok socks' j stop g = gor_ok socks j stop g"
  by (cases g) auto

lemma gor_ok_stop: "gor_ok socks i stop g \<Longrightarrow> gor_ok socks i True g"
  by (cases g) auto

lemma Run_inv_read:
  assumes "Run_inv s" "i < length (gors s)" "gors s ! i = Reading w"
    "new_handle (mgr (shared_st s)) (closed_socks (shared_st s)) (reopening it)"
  shows "\<exists>sh' w' oc. RunWorker_read i it (shared_st s, w) = Some ((sh', w'), oc) \<and>
    Run_inv (s\<lparr>shared_st := sh', gors := (gors s)[i := (case oc of Continue \<Rightarrow> AtTop w' | Backoff \<Rightarrow> Sleeping w')]\<rparr>)"
proof -
  have "shared_ok (shared_st s)" "worker_ok w" "i < length (socks_of s)" "sock w = socks_of s ! i"
    using assms gors_le [OF assms(1)] by (auto simp: Run_inv_def)
  from RunWorker_read_keeps [OF this assms(4)] obtain sh' w' oc where
    r: "RunWorker_read i it (shared_st s, w) = Some ((sh', w'), oc)" "read_keeps i (shared_st s) sh' w' oc" by blast
  let ?g = "case oc of Continue \<Rightarrow> AtTop w' | Backoff \<Rightarrow> Sleeping w'"
  let ?s = "s\<lparr>shared_st := sh', gors := (gors s)[i := ?g]\<rparr>"
  have g: "?g \<noteq> Finished" "gor_ok (sockets (mgr sh')) i (stop_closed s) ?g"
    using r(2) by (auto simp: read_keeps_def split: outcome.splits)
  have "unfinished ?s = unfinished s"
    using assms(2,3) r(2) g(1) length_filter_update [of i "gors s" "\<lambda>g. g = Finished" ?g]
    by (simp add: unfinished_def read_keeps_def)
  moreover have "gor_ok (sockets (mgr sh')) j (stop_closed s) ((gors s)[i := ?g] ! j)" if "j < length (gors s)" for j
    using assms(1) that g(2) gor_ok_other [of i "sockets (mgr sh')" "socks_of s" j] r(2)
    by (cases "j = i") (auto simp: Run_inv_def read_keeps_def)
  ultimately have "Run_inv ?s"
    using assms(1) r(2) by (auto simp: Run_inv_def read_keeps_def split: run_pc.splits)
  with r(1) show ?thesis by blast
qed

lemma Run_inv_step: "Run_step s t \<Longrightarrow> Run_inv s \<Longrightarrow> Run_inv t"
proof (induction rule: Run_step.induct)
  case (Signal s)
  then show ?case by (auto simp: Run_inv_def unfinished_def intro: gor_ok_stop split: run_pc.splits)
next
  case (Spawn s k)
  then show ?case by (auto simp: Run_inv_def unfinished_def nth_append less_Suc_eq)
next
  case (Start i s w)
  moreover have "i < length (socks_of s)" using Start gors_le [of s] by simp
  ultimately show ?case using start_worker_ok [of i "mgr (shared_st s)"] by (auto intro!: Run_inv_update)
next
  case (Top i s w)
  moreover have "gor_ok (socks_of s) i (stop_closed s) (AtTop w)" using Top by (auto simp: Run_inv_def dest!: spec)
  ultimately show ?case by (auto intro!: Run_inv_update)
next
  case (Read i s w it sh' w' oc)
  with Run_inv_read [OF Read(5,1-3)] show ?case by auto
next
  case (Wake i s w)
  moreover have "gor_ok (socks_of s) i (stop_closed s) (Sleeping w)" using Wake by (auto simp: Run_inv_def dest!: spec)
  ultimately show ?case using wake_ok [of w] by (auto intro!: Run_inv_update)
next
  case (Wake_stop i s w)
  then show ?case by (auto intro!: Run_inv_update)
next
  case (Exit i s)
  then show ?case using Run_inv_exit by blast
qed (auto simp: Run_inv_def unfinished_def split: run_pc.splits)

lemma Run_inv_no_panic: "Run_inv s \<Longrightarrow> \<not> Run_panics s"
proof
  assume inv: "Run_inv s" and "Run_panics s"
  then obtain i where i: "i < length (gors s)" and p: "case gors s ! i of
       Starting \<Rightarrow> start_worker i (mgr (shared_st s)) = None
     | Reading w \<Rightarrow> (\<exists>it. new_handle (mgr (shared_st s)) (closed_socks (shared_st s)) (reopening it)
         \<and> RunWorker_read i it (shared_st s, w) = None)
     | Returned \<Rightarrow> running s - 1 = 0 \<and> done_closed s
     | _ \<Rightarrow> False" by (auto simp: Run_panics_def)
  have "i < length (socks_of s)" using gors_le [OF inv] i by simp
  then have st: "start_worker i (mgr (shared_st s)) \<noteq> None" using start_worker_ok by blast
  show False
  proof (cases "gors s ! i")
    case (Reading w)
    with p obtain it where "new_handle (mgr (shared_st s)) (closed_socks (shared_st s)) (reopening it)"
      "RunWorker_read i it (shared_st s, w) = None" by auto
    with Run_inv_read [OF inv i Reading] show False by force
  qed (use p st Run_inv_exit [OF inv i] in auto)
qed

lemma Run_step_length: "Run_step s t \<Longrightarrow> Run_inv s \<Longrightarrow> length (socks_of t) = length (socks_of s)"
proof (induction rule: Run_step.induct)
  case (Read i s w it sh' w' oc)
  have "shared_ok (shared_st s)" "worker_ok w" "i < length (socks_of s)" "sock w = socks_of s ! i"
    using Read gors_le [of s] by (auto simp: Run_inv_def)
  from RunWorker_read_keeps [OF this Read(3)] Read(4) show ?case by (auto simp: read_keeps_def)
qed (simp_all add: Run_exit_def Let_def)

text \<open>Once \<open>stop\<close> is closed each step brings the system closer to the return of \<open>Run\<close>.\<close>

fun gor_work :: "'s gor \<Rightarrow> nat" where
  "gor_work Finished = 0"
| "gor_work Returned = 1"
| "gor_work (AtTop w) = 2"
| "gor_work (Sleeping w) = 3"
| "gor_work Starting = 3"
| "gor_work (Reading w) = 4"

definition Run_work :: "'s run_state \<Rightarrow> nat" where
  "Run_work s = (\<Sum>g \<leftarrow> gors s. gor_work g) + 4 * (length (socks_of s) - length (gors s))
     + (case pc s of Spawning k \<Rightarrow> 3 | WaitStop \<Rightarrow> 2 | WaitDone \<Rightarrow> 1 | RunReturned \<Rightarrow> 0)"

lemma Run_work_update:
  "i < length (gors s) \<Longrightarrow> gor_work g < gor_work (gors s ! i) \<Longrightarrow> length (sockets (mgr sh)) = length (socks_of s) \<Longrightarrow>
   Run_work (s\<lparr>shared_st := sh, gors := (gors s)[i := g]\<rparr>) < Run_work s"
  using sum_list_update_less [of i "gors s" gor_work g] by (simp add: Run_work_def)

lemma Run_work_step: "Run_step s t \<Longrightarrow> Run_inv s \<Longrightarrow> stop_closed s \<Longrightarrow> Run_work t < Run_work s"
proof (induction rule: Run_step.induct)
  case (Read i s w it sh' w' oc)
  from Run_step_length [OF Run_step.Read [OF Read(1-4)] Read(5)] have "length (sockets (mgr sh')) = length (socks_of s)" by simp
  with Read show ?case by (intro Run_work_update) (auto split: outcome.splits)
next
  case (Exit i s)
  with sum_list_update_less [of i "gors s" gor_work Finished] show ?case
    by (simp add: Run_exit_def Let_def Run_work_def)
next
  case (Spawn s k)
  then show ?case by (simp add: Run_work_def Run_inv_def)
qed (auto simp: Run_work_def intro!: sum_list_update_less)

lemma Run_progress:
  assumes "Run_inv s" "stop_closed s" "pc s \<noteq> RunReturned"
  shows "\<exists>t. Run_step s t \<and> coll (shared_st t) = coll (shared_st s) \<and> addrs (shared_st t) = addrs (shared_st s)"
proof -
  have quiet: ?thesis if "Run_step s t" "shared_st t = shared_st s" for t using that by auto
  show ?thesis
  proof (cases "\<exists>i < length (gors s). gors s ! i \<noteq> Finished")
    case True
    then obtain i where i: "i < length (gors s)" "gors s ! i \<noteq> Finished" by blast
    have n: "i < length (socks_of s)" using i gors_le [OF assms(1)] by simp
    show ?thesis
    proof (cases "gors s ! i")
      case Starting
      obtain w where "start_worker i (mgr (shared_st s)) = Some w" using start_worker_ok [OF n] by blast
      from Run_step.Start [OF i(1) Starting this] show ?thesis by (rule quiet) simp
    next
      case (AtTop w)
      from Run_step.Top [OF i(1) this] show ?thesis by (rule quiet) simp
    next
      case (Reading w)
      define it :: "'a iter" where "it = undefined\<lparr>result := ReadTimeout, reopening := (None, False, False)\<rparr>"
      have new: "new_handle (mgr (shared_st s)) (closed_socks (shared_st s)) (reopening it)"
        by (simp add: it_def new_handle_def)
      have "RunWorker_read i it (shared_st s, w) = Some ((shared_st s, w), Continue)" by (simp add: it_def RunWorker_read_def)
      from Run_step.Read [OF i(1) Reading new this] show ?thesis by (rule quiet) simp
    next
      case (Sleeping w)
      from Run_step.Wake [OF i(1) this] show ?thesis by (rule quiet) simp
    next
      case Returned
      from Run_step.Exit [OF i(1) this] show ?thesis by (rule quiet) (simp add: Run_exit_def Let_def)
    qed (use i in simp)
  next
    case False
    then have all: "filter (\<lambda>g. g = Finished) (gors s) = gors s" by (auto simp: filter_id_conv in_set_conv_nth)
    show ?thesis
    proof (cases "pc s")
      case (Spawning k)
      show ?thesis
        by (cases "k < length (socks_of s)") (rule quiet [OF Run_step.Spawn [OF Spawning]] quiet [OF Run_step.Spawned [OF Spawning]]; simp)+
    next
      case WaitStop
      from Run_step.Stop [OF this assms(2)] show ?thesis by (rule quiet) simp
    next
      case WaitDone
      with assms(1) all have "done_closed s" by (simp add: Run_inv_def unfinished_def)
      from Run_step.Done [OF WaitDone this] show ?thesis by (rule quiet) simp
    qed (use assms in simp)
  qed
qed

interpretation capture_run: stoppable Run_step Run_inv stop_closed "\<lambda>s. pc s = RunReturned" Run_work
proof unfold_locales
  show "stop_closed t" if "stop_closed s" "Run_step s t" for s t :: "'a run_state"
    using that(2,1) by (induction rule: Run_step.induct) (simp_all add: Run_exit_def Let_def)
qed (blast intro: Run_inv_step Run_work_step dest: Run_progress)+


text \<open>The state in which \<open>Run\<close> is called after a successful \<open>Open\<close>.\<close>

definition ready :: "'s shared \<Rightarrow> bool" where
  "ready sh \<longleftrightarrow> shared_ok sh \<and> 0 < length (sockets (mgr sh)) \<and> length (sockets (mgr sh)) < 2 ^ 32"

lemma Run_init_inv: "ready sh \<Longrightarrow> Run_inv (Run_init sh stop)"
  by (simp add: ready_def Run_inv_def Run_init_def unfinished_def)

lemma Run_reach_inv: "ready sh \<Longrightarrow> Run_step\<^sup>*\<^sup>* (Run_init sh stop) s \<Longrightarrow> Run_inv s"
  by (rule capture_run.inv_steps [OF _ Run_init_inv])

lemma Run_work_bound: "Run_inv s \<Longrightarrow> Run_work s \<le> 4 * length (socks_of s) + 3"
proof -
  assume inv: "Run_inv s"
  have "gor_work g \<le> 4" for g :: "'a gor" by (cases g) auto
  then have "(\<Sum>g \<leftarrow> gors s. gor_work g) \<le> length (gors s) * 4"
    using sum_list_mono [of "gors s" gor_work "\<lambda>_. 4"] by (simp add: sum_list_triv)
  then show ?thesis using gors_le [OF inv] by (auto simp: Run_work_def split: run_pc.splits)
qed

lemma Run_reach_length:
  "Run_step\<^sup>*\<^sup>* (Run_init sh stop) s \<Longrightarrow> ready sh \<Longrightarrow> length (socks_of s) = length (sockets (mgr sh))"
proof (induction rule: rtranclp_induct)
  case (step s t)
  with Run_step_length [OF step(2)] Run_reach_inv show ?case by metis
qed (simp add: Run_init_def)

lemma handles_ok_open: "handles_ok m cl \<Longrightarrow> i < length (sockets m) \<Longrightarrow> sockets m ! i \<notin> set cl"
  by (auto simp: handles_ok_def disjoint_iff)

lemma worker_backoff_bounds:
  "worker_ok w \<or> waiting_ok w \<Longrightarrow> loopErrBackoffMin \<le> backoff w \<and> backoff w \<le> loopErrBackoffMax"
  using backoff_after_bounds by (auto simp: worker_ok_def waiting_ok_def)

subsection \<open>Properties\<close>

text \<open>C29: \<open>Open\<close> is all or nothing. When every opening succeeds there is one socket per worker, in order, and none is
  closed. If the configured size is at least one block of 1 MiB per worker, the rings together have that
  size less a rest of under one block per worker; a smaller configured size is exceeded, and each ring has one
  block. The gauge of the buffer size is set to the size of the rings, unless it overflows an int64. When an
  opening fails, every handle obtained so far, that of the failing worker included, is closed, and the
  manager keeps its old sockets.\<close>

theorem Open_all_or_nothing:
  assumes "n = nat (ClampWorkers (NumWorkers m))"
  shows "((\<forall>i < n. opens (ops i)) \<longrightarrow> (\<exists>m' ev. Open ops m = (m', True, [], ev) \<and> sockets m' = handed_out ops n
      \<and> length (sockets m') = n \<and> 1 \<le> n \<and> list_all event_ok ev
      \<and> (if int n * 2 ^ 20 \<le> RingBytes m
         then RingBytes m - int n * 2 ^ 20 < int n * numBlocks m' * 2 ^ 20 \<and> int n * numBlocks m' * 2 ^ 20 \<le> RingBytes m
         else numBlocks m' = 1)
      \<and> (int n * numBlocks m' * 2 ^ 20 < 2 ^ 63 \<longrightarrow>
         ev = [GaugeSet NtpCaptureRcvbufBytes [] (fl (of_int (int n * numBlocks m' * 2 ^ 20)))])))
    \<and> ((\<forall>i < j. opens (ops i)) \<and> \<not> opens (ops j) \<and> j < n \<longrightarrow> (\<exists>m' cl. Open ops m = (m', False, cl, [])
      \<and> sockets m' = sockets m \<and> mset cl = mset (handed_out ops (Suc j))))"
proof -
  have n: "int n = ClampWorkers (NumWorkers m)" "1 \<le> int n" using assms ClampWorkers_pos [of "NumWorkers m"] by auto
  have blocks: "1 \<le> ring_blocks m" by (simp add: ring_blocks_def)
  have gauge: "int64 (int64 (ring_blocks m * blockSize) * int n) = int n * ring_blocks m * 2 ^ 20"
    if "int n * ring_blocks m * 2 ^ 20 < 2 ^ 63"
  proof -
    have "ring_blocks m * 2 ^ 20 \<le> int n * (ring_blocks m * 2 ^ 20)"
      using mult_right_mono [OF n(2), of "ring_blocks m * 2 ^ 20"] blocks by simp
    then have "int64 (ring_blocks m * 2 ^ 20) = ring_blocks m * 2 ^ 20"
      using that blocks by (intro int64_id) (simp_all only: mult.assoc, simp_all)
    moreover have "0 \<le> int n * ring_blocks m * 2 ^ 20" using blocks by simp
    from int64_id [OF order_trans [OF _ this] that]
    have "int64 (int n * ring_blocks m * 2 ^ 20) = int n * ring_blocks m * 2 ^ 20" by simp
    ultimately show ?thesis by (simp add: blockSize_def ac_simps)
  qed
  have size: "if int n * 2 ^ 20 \<le> RingBytes m
      then RingBytes m - int n * 2 ^ 20 < int n * ring_blocks m * 2 ^ 20 \<and> int n * ring_blocks m * 2 ^ 20 \<le> RingBytes m
      else ring_blocks m = 1"
    using ring_total [OF n(1)] n(2) by (simp split: if_splits)
  show ?thesis
  proof (intro conjI impI, goal_cases)
    case 1
    then obtain m' ev where m': "Open ops m = (m', True, [], ev)" "sockets m' = handed_out ops n" "length (sockets m') = n" "1 \<le> n"
      "numBlocks m' = ring_blocks m" "list_all event_ok ev"
      "ev = [GaugeSet NtpCaptureRcvbufBytes [] (fl (of_int (int64 (int64 (ring_blocks m * blockSize) * int n))))]"
      using Open_outcome [OF assms, of ops j] by blast
    show ?case
      by (intro exI [of _ m'] exI [of _ ev] conjI impI m'(1-4,6)) (use size gauge in \<open>simp_all only: m'(5,7)\<close>)
  qed (use Open_outcome [OF assms, of ops j] in blast)
qed

theorem Open_all_or_nothing_witness:
  "\<exists>m' cl. Open (\<lambda>i. (Some i, True, i < 2)) \<lparr>NumWorkers = 4, RingBytes = 67108864, numBlocks = 0, prog = [], sockets = []\<rparr>
     = (m', False, cl, []) \<and> sockets m' = [] \<and> mset cl = {#0, 1, 2#}"
proof -
  have "handed_out (\<lambda>i. (Some i, True, i < 2)) (Suc 2) = [0, 1, 2 :: nat]"
    by (simp add: handed_out_def upt_rec numeral_2_eq_2)
  then show ?thesis
    using Open_all_or_nothing [of 4 "\<lparr>NumWorkers = 4, RingBytes = 67108864, numBlocks = 0, prog = [], sockets = []\<rparr>"
        "\<lambda>i. (Some i, True, i < 2)" 2] by (simp add: ClampWorkers_def newSocket_cases)
qed

text \<open>C14: the error path of a worker. 32 failed reads in a row sleep 10 ms, 20 ms, ... up to a second, 31
  times in all, and the 32nd replaces the worker's own socket by a new one and closes the old one
  (or, if that fails, keeps it); the other workers' sockets and the collector are untouched and the
  worker goes on with a fresh error count.\<close>

theorem error_burst:
  assumes "list_all failing its" "failing it" "length its = 31" "i < length (sockets (mgr sh))"
  shows "\<exists>sh' w'. RunWorker i (its @ [it]) sh =
      Some ((sh', w'), False, map (\<lambda>k. min Second (10 * Millisecond * 2 ^ k)) [0..<31])
    \<and> consecutiveErrs w' = 0 \<and> backoff w' = 10 * Millisecond \<and> sock w' = sockets (mgr sh') ! i
    \<and> replaced (reopening it) i sh sh' \<and> coll sh' = coll sh"
proof -
  have "backoff_after = (\<lambda>k. min Second (10 * Millisecond * 2 ^ k))"
    by (simp add: fun_eq_iff backoff_after_def manager_consts)
  with RunWorker_burst [OF assms] show ?thesis
    by (auto simp: worker_ok_def loopErrBackoffMin_def)
qed

definition failing_iter :: "nat iter" where
  "failing_iter = \<lparr>stopped_at_top = False, result = ReadError, since_now = 0, clock_now = 0, reopening = (Some 7, True, True),
     stopped_in_sleep = False, addr_reading = (None, 0, 0), resolve = geo0, mono_now = 0, wall_now = 0\<rparr>"

definition example_shared :: "Collector \<Rightarrow> nat shared" where
  "example_shared c = \<lparr>mgr = \<lparr>NumWorkers = 2, RingBytes = 0, numBlocks = 1, prog = BuildNTPBPF, sockets = [3, 4]\<rparr>,
     coll = c, addrs = NewFixedLocalIPs [] 0, closed_socks = [], emitted = []\<rparr>"

theorem error_burst_witness:
  "\<exists>c sh' w' ds. Collector_New 25 2 = Some c \<and>
     RunWorker 1 (replicate 31 failing_iter @ [failing_iter]) (example_shared c) = Some ((sh', w'), False, ds)
     \<and> length ds = 31 \<and> sockets (mgr sh') = [3, 7] \<and> closed_socks sh' = [4] \<and> sock w' = 7"
proof -
  obtain c where c: "Collector_New 25 2 = Some c" using fresh_collector [of 25 2] by auto
  have "failing failing_iter" by (simp add: failing_def failing_iter_def)
  then have h: "list_all failing (replicate 31 failing_iter)" "failing failing_iter"
    "length (replicate 31 failing_iter) = 31" "1 < length (sockets (mgr (example_shared c)))"
    by (simp_all add: list_all_iff example_shared_def)
  from error_burst [OF this] obtain sh' w' where
    r: "RunWorker 1 (replicate 31 failing_iter @ [failing_iter]) (example_shared c) =
      Some ((sh', w'), False, map (\<lambda>k. min Second (10 * Millisecond * 2 ^ k)) [0..<31])"
    "sock w' = sockets (mgr sh') ! 1" "replaced (reopening failing_iter) 1 (example_shared c) sh'" by blast
  have "sockets (mgr sh') = [3, 7]" "closed_socks sh' = [4]"
    using r(3) by (auto simp: replaced_def failing_iter_def newSocket_cases example_shared_def)
  moreover define ds where "ds = map (\<lambda>k. min Second (10 * Millisecond * 2 ^ k)) [0..<31]"
  moreover have "length ds = 31" by (simp add: ds_def)
  ultimately show ?thesis using c r(1) [folded ds_def] r(2) by auto
qed


text \<open>C10: safety of \<open>Run\<close>, over every interleaving of the workers, the main goroutine and the signal. No
  goroutine panics (in particular \<open>done\<close> is closed once), each worker reads the open socket of its own
  slot, its wait stays between 10 ms and a second, and \<open>Run\<close> returns only after \<open>stop\<close> was closed and
  every worker has finished.\<close>

theorem Run_safe:
  assumes "ready sh" "Run_step\<^sup>*\<^sup>* (Run_init sh stop) s"
  shows "\<not> Run_panics s
    \<and> (\<forall>i < length (gors s). \<forall>w. gors s ! i \<in> {AtTop w, Reading w, Sleeping w} \<longrightarrow>
        sock w = socks_of s ! i \<and> sock w \<notin> set (closed_socks (shared_st s))
        \<and> loopErrBackoffMin \<le> backoff w \<and> backoff w \<le> loopErrBackoffMax)
    \<and> (pc s = RunReturned \<longrightarrow> stop_closed s \<and> length (gors s) = length (sockets (mgr sh)) \<and> set (gors s) = {Finished})"
proof -
  have inv: "Run_inv s" by (rule Run_reach_inv [OF assms])
  have worker: "sock w = socks_of s ! i \<and> (worker_ok w \<or> waiting_ok w)"
    if "i < length (gors s)" "gors s ! i \<in> {AtTop w, Reading w, Sleeping w}" for i w
    using inv that by (auto simp: Run_inv_def)
  have handles: "handles_ok (mgr (shared_st s)) (closed_socks (shared_st s))"
    using inv by (simp add: Run_inv_def shared_ok_def)
  have finished: "stop_closed s \<and> length (gors s) = length (sockets (mgr sh)) \<and> set (gors s) = {Finished}" if "pc s = RunReturned"
  proof -
    have 1: "stop_closed s" "length (gors s) = length (socks_of s)" "unfinished s = 0" "gors s \<noteq> []"
      using inv that by (auto simp: Run_inv_def)
    then have "length (filter (\<lambda>g. g = Finished) (gors s)) = length (gors s)"
      using length_filter_le [of "\<lambda>g. g = Finished" "gors s"] by (simp add: unfinished_def)
    then have "\<forall>g \<in> set (gors s). g = Finished"
      using length_filter_less [of _ "gors s" "\<lambda>g. g = Finished"] by fastforce
    with 1(4) have "set (gors s) = {Finished}" by (cases "gors s") auto
    with 1 Run_reach_length [OF assms(2,1)] show ?thesis by simp
  qed
  have "sock w = socks_of s ! i \<and> sock w \<notin> set (closed_socks (shared_st s))
      \<and> loopErrBackoffMin \<le> backoff w \<and> backoff w \<le> loopErrBackoffMax"
    if "i < length (gors s)" "gors s ! i \<in> {AtTop w, Reading w, Sleeping w}" for i w
    using worker [OF that] handles_ok_open [OF handles, of i] worker_backoff_bounds [of w] gors_le [OF inv] that(1) by auto
  with Run_inv_no_panic [OF inv] finished show ?thesis by blast
qed


lemma example_ready: "Collector_New 25 2 = Some c \<Longrightarrow> ready (example_shared c)"
proof -
  assume "Collector_New 25 2 = Some c"
  with fresh_collector [of 25 2] have "Collector_ok c" "length (workers c) = 2" by auto
  then show ?thesis by (simp add: ready_def shared_ok_def handles_ok_def example_shared_def)
qed

text \<open>Steps that leave the shared state alone, and a run of them to a worker that reads.\<close>

definition silent_step :: "'s run_state \<Rightarrow> 's run_state \<Rightarrow> bool" where
  "silent_step s t \<longleftrightarrow> Run_step s t \<and> shared_st t = shared_st s \<and> stop_closed t = stop_closed s"

lemma silent_steps: "silent_step\<^sup>*\<^sup>* s t \<Longrightarrow> Run_step\<^sup>*\<^sup>* s t \<and> shared_st t = shared_st s"
  by (induction rule: rtranclp_induct) (auto simp: silent_step_def)

lemma first_reader:
  assumes "0 < length (sockets (mgr sh))"
  shows "\<exists>s w. silent_step\<^sup>*\<^sup>* (Run_init sh False) s \<and> gors s = [Reading w]"
proof -
  let ?s0 = "Run_init sh False"
  let ?s1 = "?s0\<lparr>gors := gors ?s0 @ [Starting], pc := Spawning (0 + 1)\<rparr>"
  obtain w where w: "start_worker 0 (mgr (shared_st ?s1)) = Some w"
    using start_worker_ok [of 0 "mgr (shared_st ?s1)"] assms by (auto simp: Run_init_def)
  let ?s2 = "?s1\<lparr>gors := (gors ?s1)[0 := AtTop w]\<rparr>"
  let ?s3 = "?s2\<lparr>gors := (gors ?s2)[0 := if stop_closed ?s2 then Returned else Reading w]\<rparr>"
  have "Run_step ?s0 ?s1" by (rule Run_step.Spawn) (use assms in \<open>simp_all add: Run_init_def\<close>)
  moreover have "Run_step ?s1 ?s2" by (rule Run_step.Start [OF _ _ w]) (simp_all add: Run_init_def)
  moreover have "Run_step ?s2 ?s3" by (rule Run_step.Top) (simp_all add: Run_init_def)
  ultimately have "silent_step ?s0 ?s1" "silent_step ?s1 ?s2" "silent_step ?s2 ?s3" by (simp_all add: silent_step_def)
  then have "silent_step\<^sup>*\<^sup>* ?s0 ?s3" by (meson rtranclp.rtrancl_into_rtrancl rtranclp.rtrancl_refl)
  moreover have "gors ?s3 = [Reading w]" by (simp add: Run_init_def)
  ultimately show ?thesis by blast
qed

theorem Run_safe_witness:
  "\<exists>c s w. Collector_New 25 2 = Some c \<and> Run_step\<^sup>*\<^sup>* (Run_init (example_shared c) False) s \<and> gors s = [Reading w]
     \<and> \<not> Run_panics s \<and> sock w = 3 \<and> backoff w \<le> loopErrBackoffMax"
proof -
  obtain c where c: "Collector_New 25 2 = Some c" using fresh_collector [of 25 2] by auto
  obtain s w where r: "silent_step\<^sup>*\<^sup>* (Run_init (example_shared c) False) s" "gors s = [Reading w]"
    using first_reader [of "example_shared c"] by (auto simp: example_shared_def)
  then have s: "Run_step\<^sup>*\<^sup>* (Run_init (example_shared c) False) s" "gors s = [Reading w]" "socks_of s = [3, 4]"
    using silent_steps [OF r(1)] by (simp_all add: Run_init_def example_shared_def)
  from Run_safe [OF example_ready [OF c] s(1)] s(2,3) have "\<not> Run_panics s" "sock w = 3" "backoff w \<le> loopErrBackoffMax"
    by auto
  with c s show ?thesis by blast
qed

text \<open>\<open>Run\<close> returns once \<open>stop\<close> is closed. From then on every schedule makes at most \<open>4n+3\<close> steps for
  \<open>n\<close> workers, a state with no further step is one in which \<open>Run\<close> has returned, and such a state can
  be reached.\<close>

lemma Run_stops:
  assumes "ready sh" "Run_step\<^sup>*\<^sup>* (Run_init sh stop) s" "stop_closed s"
  shows "(\<forall>n t. (Run_step ^^ n) s t \<longrightarrow> n \<le> 4 * length (sockets (mgr sh)) + 3)
    \<and> (\<forall>t. Run_step\<^sup>*\<^sup>* s t \<and> (\<nexists>u. Run_step t u) \<longrightarrow> pc t = RunReturned)
    \<and> (\<exists>t. Run_step\<^sup>*\<^sup>* s t \<and> pc t = RunReturned)"
proof -
  have inv: "Run_inv s" by (rule Run_reach_inv [OF assms(1,2)])
  have "n \<le> 4 * length (sockets (mgr sh)) + 3" if "(Run_step ^^ n) s t" for n t
    using capture_run.run_bounded [OF inv assms(3) that] Run_work_bound [OF inv] Run_reach_length [OF assms(2,1)] by simp
  then show ?thesis
    using capture_run.stuck_finished [OF inv assms(3)] capture_run.finishes [OF inv assms(3)] by blast
qed

end
