(* ===== verification/GeoIp.thy ===== *)
theory GeoIp
  imports GoNet Metrics
begin

section \<open>internal/geoip: the cached country and AS resolver\<close>

text \<open>
  The resolver of \<open>internal/geoip/geoip.go\<close>. The maxminddb and LRU libraries and the file system are
  not modelled: a database reader is a value of a type parameter \<open>'r\<close> and an LRU cache a value of
  \<open>'c\<close>; their operations are the fields of the argument \<open>geo_libs\<close>, and what \<open>os.Stat\<close> and
  \<open>maxminddb.Open\<close> answer while a call runs is its argument \<open>geo_fs\<close>. The documented behaviour of the
  cache that the code relies on is the locale \<open>lru_cache\<close>. A nil cache, which \<open>lru.New\<close> returns for
  a size that is not positive, panics when it is used. Log messages are left out.
\<close>

definition ReopenCheckInterval :: duration where
  "ReopenCheckInterval = 30 * Second"

record geoip_Result =
  res_Country :: string
  res_Continent :: string
  res_ASN :: int
  res_HasASN :: bool
  res_ASOrg :: string

record countryRecord =
  ISOCode :: string
  Code :: string

record asnRecord =
  asn_number :: "32 word"
  AsOrg :: string

text \<open>The library calls: \<open>Lookup(addr).Decode(&rec)\<close> on either database (\<open>None\<close> is an error) and
  \<open>lru.New\<close>, \<open>Get\<close>, \<open>Add\<close> and \<open>Purge\<close>.\<close>

record ('r, 'c) geo_libs =
  lookup_country :: "'r \<Rightarrow> netip_Addr \<Rightarrow> countryRecord option"
  lookup_asn :: "'r \<Rightarrow> netip_Addr \<Rightarrow> asnRecord option"
  lru_New :: "int \<Rightarrow> 'c option"
  lru_Get :: "string \<Rightarrow> 'c \<Rightarrow> geoip_Result option \<times> 'c"
  lru_Add :: "string \<Rightarrow> geoip_Result \<Rightarrow> 'c \<Rightarrow> 'c"
  lru_Purge :: "'c \<Rightarrow> 'c"

record 'r geo_fs =
  Stat :: "string \<Rightarrow> time option"
  mmdb_Open :: "string \<Rightarrow> 'r option"

record ('r, 'c) Resolver =
  countryPath :: string
  asnPath :: string
  countryReader :: "'r option"
  asnReader :: "'r option"
  countryMtime :: time
  asnMtime :: time
  countryMtimeSet :: bool
  asnMtimeSet :: bool
  countryMissWarn :: bool
  asnMissWarn :: bool
  lastReopenCheck :: time
  lastReopenCheckSet :: bool
  cache :: "'c option"
  loadedGauge :: "(string \<Rightarrow> bool \<Rightarrow> event list) option"

subsection \<open>filepath.Join\<close>

fun split_path :: "string \<Rightarrow> string \<Rightarrow> string list" where
  "split_path [] cur = [cur]"
| "split_path (c # s) cur = (if c = CHR ''/'' then cur # split_path s [] else split_path s (cur @ [c]))"

fun clean_parts :: "bool \<Rightarrow> string list \<Rightarrow> string list \<Rightarrow> string list" where
  "clean_parts rooted [] out = rev out"
| "clean_parts rooted (p # ps) out =
     (if p = [] \<or> p = ''.'' then clean_parts rooted ps out
      else if p = ''..'' then
        (case out of
           q # out' \<Rightarrow> if q \<noteq> ''..'' then clean_parts rooted ps out' else clean_parts rooted ps (p # out)
         | [] \<Rightarrow> if rooted then clean_parts rooted ps [] else clean_parts rooted ps [p])
      else clean_parts rooted ps (p # out))"

fun join_parts :: "string list \<Rightarrow> string" where
  "join_parts [] = []"
| "join_parts [p] = p"
| "join_parts (p # ps) = p @ CHR ''/'' # join_parts ps"

definition path_Clean :: "string \<Rightarrow> string" where
  "path_Clean s =
     (let rooted = (s \<noteq> [] \<and> hd s = CHR ''/'');
          out = (if rooted then ''/'' else []) @ join_parts (clean_parts rooted (split_path s []) [])
      in if out = [] then ''.'' else out)"

definition path_Join :: "string \<Rightarrow> string \<Rightarrow> string" where
  "path_Join d f = (if d \<noteq> [] then path_Clean (d @ ''/'' @ f) else if f \<noteq> [] then path_Clean f else [])"

subsection \<open>The resolver\<close>

definition geoip_New ::
    "('r, 'c) geo_libs \<Rightarrow> string \<Rightarrow> int \<Rightarrow> (string \<Rightarrow> bool \<Rightarrow> event list) option \<Rightarrow> ('r, 'c) Resolver" where
  "geoip_New libs geoipDir cacheSize gauge =
     \<lparr>countryPath = path_Join geoipDir ''GeoLite2-Country.mmdb'', asnPath = path_Join geoipDir ''GeoLite2-ASN.mmdb'',
      countryReader = None, asnReader = None, countryMtime = 0, asnMtime = 0, countryMtimeSet = False, asnMtimeSet = False,
      countryMissWarn = False, asnMissWarn = False, lastReopenCheck = 0, lastReopenCheckSet = False,
      cache = lru_New libs cacheSize, loadedGauge = gauge\<rparr>"

definition set_loaded :: "(string \<Rightarrow> bool \<Rightarrow> event list) option \<Rightarrow> string \<Rightarrow> bool \<Rightarrow> event list" where
  "set_loaded gauge db loaded = (case gauge of None \<Rightarrow> [] | Some g \<Rightarrow> g db loaded)"

text \<open>The new reader, mtime, flag and warning, the cache, the readers closed and the metric calls.\<close>

type_synonym ('r, 'c) reopened = "('r option \<times> time \<times> bool \<times> bool) \<times> 'c option \<times> 'r list \<times> event list"

definition reopenOne ::
    "('r, 'c) geo_libs \<Rightarrow> 'r geo_fs \<Rightarrow> (string \<Rightarrow> bool \<Rightarrow> event list) option \<Rightarrow> 'c option
      \<Rightarrow> string \<Rightarrow> 'r option \<Rightarrow> time \<Rightarrow> bool \<Rightarrow> bool \<Rightarrow> string \<Rightarrow> ('r, 'c) reopened option" where
  "reopenOne libs fs gauge ca path reader mtime mtimeSet missWarned dbLabel =
     (case Stat fs path of
        None \<Rightarrow>
          let missWarned = (if reader = None \<and> \<not> missWarned then True else missWarned)
          in Some ((reader, 0, False, missWarned), ca, [], set_loaded gauge dbLabel (reader \<noteq> None))
      | Some newMtime \<Rightarrow>
          if \<not> mtimeSet \<or> newMtime \<noteq> mtime
          then let newReader = mmdb_Open fs path;
                   cl = (case reader of None \<Rightarrow> [] | Some old \<Rightarrow> [old])
               in (case ca of
                     None \<Rightarrow> None
                   | Some c \<Rightarrow> Some ((newReader, newMtime, True, False), Some (lru_Purge libs c), cl,
                       set_loaded gauge dbLabel (newReader \<noteq> None)))
          else Some ((reader, mtime, mtimeSet, False), ca, [], set_loaded gauge dbLabel (reader \<noteq> None)))"

definition reopenIfNeeded ::
    "('r, 'c) geo_libs \<Rightarrow> 'r geo_fs \<Rightarrow> ('r, 'c) Resolver \<Rightarrow> (('r, 'c) Resolver \<times> 'r list \<times> event list) option" where
  "reopenIfNeeded libs fs r =
     do {
       ((rd, mt, st, mw), ca, cl, ev) \<leftarrow> reopenOne libs fs (loadedGauge r) (cache r)
         (countryPath r) (countryReader r) (countryMtime r) (countryMtimeSet r) (countryMissWarn r) ''country'';
       let r = r\<lparr>countryReader := rd, countryMtime := mt, countryMtimeSet := st, countryMissWarn := mw, cache := ca\<rparr>;
       ((rd, mt, st, mw), ca, cl', ev') \<leftarrow> reopenOne libs fs (loadedGauge r) (cache r)
         (asnPath r) (asnReader r) (asnMtime r) (asnMtimeSet r) (asnMissWarn r) ''asn'';
       Some (r\<lparr>asnReader := rd, asnMtime := mt, asnMtimeSet := st, asnMissWarn := mw, cache := ca\<rparr>, cl @ cl', ev @ ev')
     }"

definition unknown_Result :: geoip_Result where
  "unknown_Result = \<lparr>res_Country = ''unknown'', res_Continent = ''unknown'', res_ASN = 0, res_HasASN = False, res_ASOrg = ''unknown''\<rparr>"

definition resolveUncached :: "('r, 'c) geo_libs \<Rightarrow> 'r option \<Rightarrow> 'r option \<Rightarrow> string \<Rightarrow> geoip_Result" where
  "resolveUncached libs cr ar ip =
     (case ParseAddr ip of
        None \<Rightarrow> unknown_Result
      | Some addr \<Rightarrow>
          let res = unknown_Result;
              res = (case Option.bind cr (\<lambda>rd. lookup_country libs rd addr) of
                  None \<Rightarrow> res
                | Some rec \<Rightarrow>
                    let res = (if ISOCode rec \<noteq> [] then res\<lparr>res_Country := ISOCode rec\<rparr> else res)
                    in if Code rec \<noteq> [] then res\<lparr>res_Continent := Code rec\<rparr> else res);
              res = (case Option.bind ar (\<lambda>rd. lookup_asn libs rd addr) of
                  None \<Rightarrow> res
                | Some rec \<Rightarrow>
                    if asn_number rec \<noteq> 0
                    then let res = res\<lparr>res_ASN := uint (asn_number rec), res_HasASN := True\<rparr>
                         in if AsOrg rec \<noteq> [] then res\<lparr>res_ASOrg := AsOrg rec\<rparr> else res
                    else res)
          in res)"

text \<open>\<open>Resolve\<close> in its four atomic sections: the periodic check, the cache look-up, the database
  look-up under the read lock, and the insertion.\<close>

definition resolve_check ::
    "('r, 'c) geo_libs \<Rightarrow> 'r geo_fs \<Rightarrow> time \<Rightarrow> ('r, 'c) Resolver \<Rightarrow> (('r, 'c) Resolver \<times> 'r list \<times> event list) option" where
  "resolve_check libs fs now r =
     (if \<not> lastReopenCheckSet r \<or> time_Sub now (lastReopenCheck r) \<ge> ReopenCheckInterval
      then do {
        (r, cl, ev) \<leftarrow> reopenIfNeeded libs fs r;
        Some (r\<lparr>lastReopenCheck := now, lastReopenCheckSet := True\<rparr>, cl, ev)
      }
      else Some (r, [], []))"

definition resolve_get :: "('r, 'c) geo_libs \<Rightarrow> string \<Rightarrow> ('r, 'c) Resolver \<Rightarrow> (geoip_Result option \<times> ('r, 'c) Resolver) option" where
  "resolve_get libs ip r =
     (case cache r of None \<Rightarrow> None | Some c \<Rightarrow> let (v, c') = lru_Get libs ip c in Some (v, r\<lparr>cache := Some c'\<rparr>))"

definition resolve_lookup :: "('r, 'c) geo_libs \<Rightarrow> string \<Rightarrow> ('r, 'c) Resolver \<Rightarrow> geoip_Result" where
  "resolve_lookup libs ip r = resolveUncached libs (countryReader r) (asnReader r) ip"

definition resolve_add :: "('r, 'c) geo_libs \<Rightarrow> string \<Rightarrow> geoip_Result \<Rightarrow> ('r, 'c) Resolver \<Rightarrow> ('r, 'c) Resolver option" where
  "resolve_add libs ip v r = (case cache r of None \<Rightarrow> None | Some c \<Rightarrow> Some (r\<lparr>cache := Some (lru_Add libs ip v c)\<rparr>))"

definition Resolve ::
    "('r, 'c) geo_libs \<Rightarrow> 'r geo_fs \<Rightarrow> time \<Rightarrow> string \<Rightarrow> ('r, 'c) Resolver
      \<Rightarrow> (geoip_Result \<times> ('r, 'c) Resolver \<times> 'r list \<times> event list) option" where
  "Resolve libs fs now ip r =
     do {
       (r, cl, ev) \<leftarrow> resolve_check libs fs now r;
       (v, r) \<leftarrow> resolve_get libs ip r;
       case v of
         Some v \<Rightarrow> Some (v, r, cl, ev)
       | None \<Rightarrow> do {
           let v = resolve_lookup libs ip r;
           r \<leftarrow> resolve_add libs ip v r;
           Some (v, r, cl, ev)
         }
     }"

text \<open>The clock of a resolver is a function of what it is asked; \<open>Resolve\<close> reads it once, first, and \<open>SetClock\<close>
  replaces it.\<close>

record ('t, 'r, 'c) clocked_Resolver =
  resolver :: "('r, 'c) Resolver"
  clock :: "'t \<Rightarrow> time"

definition SetClock :: "('t \<Rightarrow> time) \<Rightarrow> ('t, 'r, 'c) clocked_Resolver \<Rightarrow> ('t, 'r, 'c) clocked_Resolver" where
  "SetClock cl r = r\<lparr>clock := cl\<rparr>"

definition clocked_Resolve ::
    "('r, 'c) geo_libs \<Rightarrow> 'r geo_fs \<Rightarrow> 't \<Rightarrow> string \<Rightarrow> ('t, 'r, 'c) clocked_Resolver
      \<Rightarrow> (geoip_Result \<times> ('t, 'r, 'c) clocked_Resolver \<times> 'r list \<times> event list) option" where
  "clocked_Resolve libs fs t ip r =
     map_option (\<lambda>(v, r', cl, ev). (v, r\<lparr>resolver := r'\<rparr>, cl, ev)) (Resolve libs fs (clock r t) ip (resolver r))"

lemma clocked_SetClock:
  "clocked_Resolve libs fs t ip (SetClock cl r) =
     map_option (\<lambda>(v, r', closed, ev). (v, SetClock cl (r\<lparr>resolver := r'\<rparr>), closed, ev)) (Resolve libs fs (cl t) ip (resolver r))"
  by (cases r) (simp add: clocked_Resolve_def SetClock_def)

subsection \<open>The cache contract\<close>

text \<open>Every entry of the cache is what the databases answer now.\<close>

definition coherent :: "('r, 'c) geo_libs \<Rightarrow> ('c \<Rightarrow> string \<Rightarrow> geoip_Result option) \<Rightarrow> ('r, 'c) Resolver \<Rightarrow> bool" where
  "coherent libs entry r \<longleftrightarrow> (case cache r of None \<Rightarrow> False
     | Some c \<Rightarrow> \<forall>ip v. entry c ip = Some v \<longrightarrow> v = resolve_lookup libs ip r)"

text \<open>What the code relies on: a hit returns the value last added under the key since the last purge; the
  library may forget entries at any time, but never invents or changes one.\<close>

locale lru_cache =
  fixes libs :: "('r, 'c) geo_libs" and entry :: "'c \<Rightarrow> string \<Rightarrow> geoip_Result option"
  assumes New_empty: "lru_New libs n = Some c \<Longrightarrow> entry c k = None"
    and Get_entry: "lru_Get libs k c = (v, c') \<Longrightarrow> v = entry c k \<and> entry c' = entry c"
    and Add_entry: "entry (lru_Add libs k x c) k' = Some w \<Longrightarrow> (if k' = k then w = x else entry c k' = Some w)"
    and Purge_entry: "entry (lru_Purge libs c) k = None"
begin

lemma coherent_New: "lru_New libs n \<noteq> None \<Longrightarrow> coherent libs entry (geoip_New libs d n g)"
  using New_empty by (auto simp: coherent_def geoip_New_def)

lemma coherent_purged: "cache r = Some (lru_Purge libs c) \<Longrightarrow> coherent libs entry r"
  by (simp add: coherent_def Purge_entry)

lemma coherent_get:
  assumes "coherent libs entry r"
  shows "\<exists>v r'. resolve_get libs ip r = Some (v, r') \<and> coherent libs entry r' \<and> (\<exists>c. r' = r\<lparr>cache := Some c\<rparr>)
    \<and> (v = None \<or> v = Some (resolve_lookup libs ip r))"
proof -
  obtain c where c: "cache r = Some c" using assms by (auto simp: coherent_def split: option.splits)
  obtain v c' where g: "lru_Get libs ip c = (v, c')" by (cases "lru_Get libs ip c")
  with Get_entry [OF g] assms c show ?thesis
    by (cases "entry c ip") (auto simp: coherent_def resolve_get_def resolve_lookup_def)
qed

lemma coherent_add:
  assumes "coherent libs entry r" "v = resolve_lookup libs ip r"
  shows "\<exists>c. resolve_add libs ip v r = Some (r\<lparr>cache := Some c\<rparr>) \<and> coherent libs entry (r\<lparr>cache := Some c\<rparr>)"
  using assms by (auto simp: coherent_def resolve_add_def resolve_lookup_def dest!: Add_entry split: option.splits if_splits)

end

subsection \<open>The resolver without a cache\<close>

text \<open>The reference: the same resolver over a cache that forgets everything at once.\<close>

definition no_cache :: "('r, 'c) geo_libs \<Rightarrow> ('r, unit) geo_libs" where
  "no_cache libs = \<lparr>lookup_country = lookup_country libs, lookup_asn = lookup_asn libs, lru_New = (\<lambda>_. Some ()),
     lru_Get = (\<lambda>_ c. (None, c)), lru_Add = (\<lambda>_ _ c. c), lru_Purge = (\<lambda>c. c)\<rparr>"

definition uncached :: "('r, 'c) Resolver \<Rightarrow> ('r, unit) Resolver" where
  "uncached r = \<lparr>countryPath = countryPath r, asnPath = asnPath r, countryReader = countryReader r, asnReader = asnReader r,
     countryMtime = countryMtime r, asnMtime = asnMtime r, countryMtimeSet = countryMtimeSet r, asnMtimeSet = asnMtimeSet r,
     countryMissWarn = countryMissWarn r, asnMissWarn = asnMissWarn r, lastReopenCheck = lastReopenCheck r,
     lastReopenCheckSet = lastReopenCheckSet r, cache = Some (), loadedGauge = loadedGauge r\<rparr>"

lemma uncached_cache [simp]: "uncached (r\<lparr>cache := c\<rparr>) = uncached r"
  by (simp add: uncached_def)

lemma resolve_lookup_uncached [simp]: "resolve_lookup (no_cache libs) ip (uncached r) = resolve_lookup libs ip r"
proof -
  have "lookup_country (no_cache libs) = lookup_country libs" "lookup_asn (no_cache libs) = lookup_asn libs"
    "countryReader (uncached r) = countryReader r" "asnReader (uncached r) = asnReader r"
    by (simp_all add: no_cache_def uncached_def)
  then show ?thesis unfolding resolve_lookup_def resolveUncached_def by (simp only:)
qed

lemma reopenOne_uncached:
  "reopenOne libs fs g (Some c) p rd mt st mw lbl = Some (x, ca, y) \<Longrightarrow>
   reopenOne (no_cache libs) fs g (Some ()) p rd mt st mw lbl = Some (x, Some (), y)"
  by (auto simp: reopenOne_def Let_def no_cache_def split: option.splits if_splits)

lemma reopenOne_Some:
  obtains rd' mt' st' mw' c' cl ev where
    "reopenOne libs fs g (Some c) p rd mt st mw lbl = Some ((rd', mt', st', mw'), Some c', cl, ev)"
    "rd' = rd \<and> c' = c \<or> c' = lru_Purge libs c"
proof -
  have "\<exists>rd' mt' st' mw' c' cl ev. reopenOne libs fs g (Some c) p rd mt st mw lbl = Some ((rd', mt', st', mw'), Some c', cl, ev)
     \<and> (rd' = rd \<and> c' = c \<or> c' = lru_Purge libs c)"
    by (auto simp: reopenOne_def Let_def split: option.splits)
  then show thesis using that by blast
qed

lemma reopenIfNeeded_uncached:
  assumes "cache r = Some c"
  shows "\<exists>r' cl ev. reopenIfNeeded libs fs r = Some (r', cl, ev) \<and> reopenIfNeeded (no_cache libs) fs (uncached r) = Some (uncached r', cl, ev)
    \<and> ((countryReader r' = countryReader r \<and> asnReader r' = asnReader r \<and> cache r' = Some c) \<or> (\<exists>c'. cache r' = Some (lru_Purge libs c')))"
proof -
  obtain rd mt st mw c1 cl ev where
    1: "reopenOne libs fs (loadedGauge r) (Some c) (countryPath r) (countryReader r) (countryMtime r) (countryMtimeSet r)
      (countryMissWarn r) ''country'' = Some ((rd, mt, st, mw), Some c1, cl, ev)"
      "rd = countryReader r \<and> c1 = c \<or> c1 = lru_Purge libs c" by (rule reopenOne_Some)
  obtain rd2 mt2 st2 mw2 c2 cl2 ev2 where
    2: "reopenOne libs fs (loadedGauge r) (Some c1) (asnPath r) (asnReader r) (asnMtime r) (asnMtimeSet r)
      (asnMissWarn r) ''asn'' = Some ((rd2, mt2, st2, mw2), Some c2, cl2, ev2)"
      "rd2 = asnReader r \<and> c2 = c1 \<or> c2 = lru_Purge libs c1" by (rule reopenOne_Some)
  let ?r = "r\<lparr>countryReader := rd, countryMtime := mt, countryMtimeSet := st, countryMissWarn := mw, cache := Some c2,
    asnReader := rd2, asnMtime := mt2, asnMtimeSet := st2, asnMissWarn := mw2\<rparr>"
  have "reopenIfNeeded libs fs r = Some (?r, cl @ cl2, ev @ ev2)"
    using 1(1) 2(1) assms by (simp add: reopenIfNeeded_def)
  moreover have "reopenIfNeeded (no_cache libs) fs (uncached r) = Some (uncached ?r, cl @ cl2, ev @ ev2)"
    using reopenOne_uncached [OF 1(1)] reopenOne_uncached [OF 2(1)] by (simp add: reopenIfNeeded_def uncached_def)
  moreover have "(countryReader ?r = countryReader r \<and> asnReader ?r = asnReader r \<and> cache ?r = Some c)
      \<or> (\<exists>c'. cache ?r = Some (lru_Purge libs c'))"
    using 1(2) 2(2) by (simp, blast)
  ultimately show ?thesis by blast
qed

context lru_cache
begin

lemma check_refines:
  assumes "coherent libs entry r"
  shows "\<exists>r' cl ev. resolve_check libs fs now r = Some (r', cl, ev) \<and> coherent libs entry r'
    \<and> resolve_check (no_cache libs) fs now (uncached r) = Some (uncached r', cl, ev)"
proof -
  obtain c where c: "cache r = Some c" using assms by (auto simp: coherent_def split: option.splits)
  from reopenIfNeeded_uncached [OF c] obtain r' cl ev where
    r: "reopenIfNeeded libs fs r = Some (r', cl, ev)" "reopenIfNeeded (no_cache libs) fs (uncached r) = Some (uncached r', cl, ev)"
    "(countryReader r' = countryReader r \<and> asnReader r' = asnReader r \<and> cache r' = Some c) \<or> (\<exists>c'. cache r' = Some (lru_Purge libs c'))"
    by blast
  have "coherent libs entry r'"
    using r(3) assms c coherent_purged by (auto simp: coherent_def resolve_lookup_def)
  then have "coherent libs entry (r'\<lparr>lastReopenCheck := now, lastReopenCheckSet := True\<rparr>)"
    by (simp add: coherent_def resolve_lookup_def split: option.splits)
  then show ?thesis using r assms by (auto simp: resolve_check_def uncached_def)
qed

text \<open>A call answers with what the databases say after the check, cached or not.\<close>

lemma Resolve_eq:
  assumes "coherent libs entry r"
  shows "\<exists>r1 c cl ev. resolve_check libs fs now r = Some (r1, cl, ev) \<and> coherent libs entry (r1\<lparr>cache := Some c\<rparr>)
    \<and> resolve_check (no_cache libs) fs now (uncached r) = Some (uncached r1, cl, ev)
    \<and> Resolve libs fs now ip r = Some (resolve_lookup libs ip r1, r1\<lparr>cache := Some c\<rparr>, cl, ev)"
proof -
  from check_refines [OF assms, of fs now] obtain r1 cl ev where
    1: "resolve_check libs fs now r = Some (r1, cl, ev)" "coherent libs entry r1"
      "resolve_check (no_cache libs) fs now (uncached r) = Some (uncached r1, cl, ev)" by blast
  from coherent_get [OF 1(2), of ip] obtain v c where
    2: "resolve_get libs ip r1 = Some (v, r1\<lparr>cache := Some c\<rparr>)" "coherent libs entry (r1\<lparr>cache := Some c\<rparr>)"
      "v = None \<or> v = Some (resolve_lookup libs ip r1)" by blast
  have same: "resolve_lookup libs ip (r1\<lparr>cache := c'\<rparr>) = resolve_lookup libs ip r1" for c'
    by (simp add: resolve_lookup_def)
  from coherent_add [OF 2(2) refl, of ip] obtain c' where
    3: "resolve_add libs ip (resolve_lookup libs ip r1) (r1\<lparr>cache := Some c\<rparr>) = Some (r1\<lparr>cache := Some c'\<rparr>)"
      "coherent libs entry (r1\<lparr>cache := Some c'\<rparr>)" by (auto simp: same)
  show ?thesis using 1 2 3 by (auto simp: Resolve_def same)
qed

text \<open>So the cached resolver refines the uncached one.\<close>

lemma Resolve_refines:
  assumes "coherent libs entry r"
  shows "\<exists>v r' cl ev. Resolve libs fs now ip r = Some (v, r', cl, ev) \<and> coherent libs entry r'
    \<and> Resolve (no_cache libs) fs now ip (uncached r) = Some (v, uncached r', cl, ev)"
proof -
  from Resolve_eq [OF assms, of fs now ip] obtain r1 c cl ev where
    r: "coherent libs entry (r1\<lparr>cache := Some c\<rparr>)" "resolve_check (no_cache libs) fs now (uncached r) = Some (uncached r1, cl, ev)"
      "Resolve libs fs now ip r = Some (resolve_lookup libs ip r1, r1\<lparr>cache := Some c\<rparr>, cl, ev)" by blast
  have "resolve_get (no_cache libs) ip (uncached r1) = Some (None, uncached r1)"
    "resolve_add (no_cache libs) ip w (uncached r1) = Some (uncached r1)" for w
    by (simp_all add: resolve_get_def resolve_add_def no_cache_def uncached_def)
  with r show ?thesis by (simp add: Resolve_def)
qed

end

text \<open>A sequence of calls, each with its file system, time and address: the answers and the metric calls.\<close>

type_synonym 'r geo_call = "'r geo_fs \<times> time \<times> string"

fun Resolve_all ::
    "('r, 'c) geo_libs \<Rightarrow> 'r geo_call list \<Rightarrow> ('r, 'c) Resolver
      \<Rightarrow> ((geoip_Result \<times> event list) list \<times> ('r, 'c) Resolver) option" where
  "Resolve_all libs [] r = Some ([], r)"
| "Resolve_all libs ((fs, now, ip) # calls) r =
     do {
       (v, r, cl, ev) \<leftarrow> Resolve libs fs now ip r;
       (vs, r) \<leftarrow> Resolve_all libs calls r;
       Some ((v, ev) # vs, r)
     }"

context lru_cache
begin

lemma Resolve_all_refines:
  "coherent libs entry r \<Longrightarrow> \<exists>vs r'. Resolve_all libs calls r = Some (vs, r') \<and> coherent libs entry r'
    \<and> Resolve_all (no_cache libs) calls (uncached r) = Some (vs, uncached r')"
proof (induction calls arbitrary: r)
  case (Cons a calls)
  obtain fs now ip where a: "a = (fs, now, ip)" by (cases a)
  from Resolve_refines [OF Cons.prems, of fs now ip] obtain v r1 cl ev where
    1: "Resolve libs fs now ip r = Some (v, r1, cl, ev)" "coherent libs entry r1"
      "Resolve (no_cache libs) fs now ip (uncached r) = Some (v, uncached r1, cl, ev)" by blast
  from Cons.IH [OF 1(2)] obtain vs r2 where
    2: "Resolve_all libs calls r1 = Some (vs, r2)" "coherent libs entry r2"
      "Resolve_all (no_cache libs) calls (uncached r1) = Some (vs, uncached r2)" by blast
  show ?case using 1 2 by (simp add: a)
qed simp

end

subsection \<open>Freshness\<close>

text \<open>\<open>db path t\<close> is the database the file \<open>path\<close> holds while its modification time is \<open>t\<close>.\<close>

definition versioned :: "(string \<Rightarrow> time \<Rightarrow> 'r option) \<Rightarrow> 'r geo_fs \<Rightarrow> bool" where
  "versioned db fs \<longleftrightarrow> (\<forall>p t. Stat fs p = Some t \<longrightarrow> mmdb_Open fs p = db p t)"

definition tracks :: "(string \<Rightarrow> time \<Rightarrow> 'r option) \<Rightarrow> ('r, 'c) Resolver \<Rightarrow> bool" where
  "tracks db r \<longleftrightarrow> (countryMtimeSet r \<longrightarrow> countryReader r = db (countryPath r) (countryMtime r))
     \<and> (asnMtimeSet r \<longrightarrow> asnReader r = db (asnPath r) (asnMtime r))"

lemma reopenOne_tracks:
  assumes "versioned db fs" "st \<longrightarrow> rd = db p mt"
    "reopenOne libs fs g ca p rd mt st mw lbl = Some ((rd', mt', st', mw'), ca', cl, ev)"
  shows "(st' \<longrightarrow> rd' = db p mt') \<and> (\<forall>t. Stat fs p = Some t \<longrightarrow> rd' = db p t)"
  using assms by (auto simp: reopenOne_def versioned_def Let_def split: option.splits if_splits)

lemma reopenIfNeeded_tracks:
  assumes "versioned db fs" "tracks db r" "reopenIfNeeded libs fs r = Some (r', cl, ev)"
  shows "tracks db r' \<and> countryPath r' = countryPath r \<and> asnPath r' = asnPath r
    \<and> (\<forall>t. Stat fs (countryPath r) = Some t \<longrightarrow> countryReader r' = db (countryPath r) t)
    \<and> (\<forall>t. Stat fs (asnPath r) = Some t \<longrightarrow> asnReader r' = db (asnPath r) t)"
proof -
  obtain rd mt st mw ca cl1 ev1 rd2 mt2 st2 mw2 ca2 cl2 ev2 where
    1: "reopenOne libs fs (loadedGauge r) (cache r) (countryPath r) (countryReader r) (countryMtime r) (countryMtimeSet r)
      (countryMissWarn r) ''country'' = Some ((rd, mt, st, mw), ca, cl1, ev1)" and
    2: "reopenOne libs fs (loadedGauge r) ca (asnPath r) (asnReader r) (asnMtime r) (asnMtimeSet r)
      (asnMissWarn r) ''asn'' = Some ((rd2, mt2, st2, mw2), ca2, cl2, ev2)" and
    r': "r' = r\<lparr>countryReader := rd, countryMtime := mt, countryMtimeSet := st, countryMissWarn := mw, cache := ca2,
      asnReader := rd2, asnMtime := mt2, asnMtimeSet := st2, asnMissWarn := mw2\<rparr>"
    using assms(3) by (auto simp: reopenIfNeeded_def Let_def split: bind_splits)
  show ?thesis
    using reopenOne_tracks [OF assms(1) _ 1] reopenOne_tracks [OF assms(1) _ 2] assms(2) unfolding tracks_def r' by simp
qed


lemma resolve_check_tracks:
  assumes "versioned db fs" "tracks db r" "resolve_check libs fs now r = Some (r', cl, ev)"
  shows "tracks db r' \<and> countryPath r' = countryPath r \<and> asnPath r' = asnPath r \<and> (lastReopenCheck r' = now \<or> r' = r)
    \<and> (\<not> lastReopenCheckSet r \<or> time_Sub now (lastReopenCheck r) \<ge> ReopenCheckInterval \<longrightarrow>
        (\<forall>t. Stat fs (countryPath r) = Some t \<longrightarrow> countryReader r' = db (countryPath r) t)
      \<and> (\<forall>t. Stat fs (asnPath r) = Some t \<longrightarrow> asnReader r' = db (asnPath r) t))"
proof (cases "\<not> lastReopenCheckSet r \<or> time_Sub now (lastReopenCheck r) \<ge> ReopenCheckInterval")
  case True
  with assms(3) obtain r1 where
    r1: "reopenIfNeeded libs fs r = Some (r1, cl, ev)" "r' = r1\<lparr>lastReopenCheck := now, lastReopenCheckSet := True\<rparr>"
    by (auto simp: resolve_check_def split: bind_splits)
  from reopenIfNeeded_tracks [OF assms(1,2) r1(1)] show ?thesis unfolding r1(2) tracks_def by simp
qed (use assms in \<open>simp add: resolve_check_def\<close>)

context lru_cache
begin

lemma Resolve_all_tracks:
  "coherent libs entry r \<Longrightarrow> tracks db r \<Longrightarrow> \<forall>(fs, now, ip) \<in> set calls. versioned db fs \<Longrightarrow>
   Resolve_all libs calls r = Some (vs, r') \<Longrightarrow>
   coherent libs entry r' \<and> tracks db r' \<and> countryPath r' = countryPath r \<and> asnPath r' = asnPath r"
proof (induction calls arbitrary: r vs)
  case (Cons a calls)
  obtain fs now ip where a: "a = (fs, now, ip)" by (cases a)
  from Resolve_eq [OF Cons.prems(1), of fs now ip] obtain r1 c cl ev where
    1: "resolve_check libs fs now r = Some (r1, cl, ev)" "coherent libs entry (r1\<lparr>cache := Some c\<rparr>)"
      "Resolve libs fs now ip r = Some (resolve_lookup libs ip r1, r1\<lparr>cache := Some c\<rparr>, cl, ev)" by blast
  have "versioned db fs" using Cons.prems(3) a by auto
  with resolve_check_tracks [OF _ Cons.prems(2) 1(1)] have
    2: "tracks db (r1\<lparr>cache := Some c\<rparr>)" "countryPath r1 = countryPath r" "asnPath r1 = asnPath r"
    by (simp_all add: tracks_def)
  obtain vs' where "Resolve_all libs calls (r1\<lparr>cache := Some c\<rparr>) = Some (vs', r')"
    using Cons.prems(4) 1(3) a by (auto split: bind_splits)
  with Cons.IH [OF 1(2) 2(1) _ this] Cons.prems(3) 2 show ?case by simp
qed simp

lemma Resolve_fresh_lookup:
  assumes "coherent libs entry r" "tracks db r" "versioned db fs"
    "\<not> lastReopenCheckSet r \<or> ReopenCheckInterval \<le> time_Sub now (lastReopenCheck r)"
    "Stat fs (countryPath r) = Some t1" "Stat fs (asnPath r) = Some t2"
  shows "\<exists>r' cl ev. Resolve libs fs now ip r =
    Some (resolveUncached libs (db (countryPath r) t1) (db (asnPath r) t2) ip, r', cl, ev)"
proof -
  from Resolve_eq [OF assms(1), of fs now ip] obtain r1 c cl ev where
    1: "resolve_check libs fs now r = Some (r1, cl, ev)"
      "Resolve libs fs now ip r = Some (resolve_lookup libs ip r1, r1\<lparr>cache := Some c\<rparr>, cl, ev)" by blast
  with resolve_check_tracks [OF assms(3,2) 1(1)] assms(4-6) show ?thesis by (simp add: resolve_lookup_def)
qed

end

lemma uncached_New: "uncached (geoip_New libs d n g) = geoip_New (no_cache libs) d n g"
  by (simp add: uncached_def geoip_New_def no_cache_def)

lemma tracks_New: "tracks db (geoip_New libs d n g)"
  by (simp add: tracks_def geoip_New_def)

subsection \<open>A least-recently-used cache\<close>

text \<open>An instance of the contract: a list of at most \<open>n\<close> entries, the most recent first.\<close>

type_synonym lru_list = "nat \<times> (string \<times> geoip_Result) list"

definition lru_entry :: "lru_list \<Rightarrow> string \<Rightarrow> geoip_Result option" where
  "lru_entry c k = map_of (snd c) k"

definition lru_front :: "string \<Rightarrow> geoip_Result \<Rightarrow> (string \<times> geoip_Result) list \<Rightarrow> (string \<times> geoip_Result) list" where
  "lru_front k v xs = (k, v) # filter (\<lambda>x. fst x \<noteq> k) xs"

definition lru_libs ::
    "('r \<Rightarrow> netip_Addr \<Rightarrow> countryRecord option) \<Rightarrow> ('r \<Rightarrow> netip_Addr \<Rightarrow> asnRecord option) \<Rightarrow> ('r, lru_list) geo_libs" where
  "lru_libs lc la = \<lparr>lookup_country = lc, lookup_asn = la,
     lru_New = (\<lambda>n. if n \<le> 0 then None else Some (nat n, [])),
     lru_Get = (\<lambda>k (n, xs). case map_of xs k of None \<Rightarrow> (None, (n, xs)) | Some v \<Rightarrow> (Some v, (n, lru_front k v xs))),
     lru_Add = (\<lambda>k v (n, xs). (n, take n (lru_front k v xs))),
     lru_Purge = (\<lambda>(n, xs). (n, []))\<rparr>"

lemma map_of_lru_front: "map_of (lru_front k v xs) k' = (if k' = k then Some v else map_of xs k')"
proof -
  have "map_of (filter (\<lambda>x. fst x \<noteq> k) xs) k' = map_of xs k'" if "k' \<noteq> k"
    using that by (induction xs) auto
  then show ?thesis by (simp add: lru_front_def)
qed

lemma map_of_take: "map_of (take n xs) k = Some v \<Longrightarrow> map_of xs k = Some v"
  by (induction xs arbitrary: n) (auto simp: take_Cons split: nat.splits if_splits)

interpretation lru: lru_cache "lru_libs lc la" lru_entry
proof unfold_locales
  show "lru_entry (lru_Purge (lru_libs lc la) c) k = None" for c k
    by (simp add: lru_libs_def lru_entry_def split: prod.splits)
qed (auto simp: lru_libs_def lru_entry_def map_of_lru_front fun_eq_iff dest!: map_of_take split: prod.splits option.splits if_splits)


subsection \<open>Properties\<close>

text \<open>C12: the cache is transparent. Over every sequence of calls on a new resolver, whatever the files do in
  between, no call panics, and the answers and metric calls are those of the same resolver with no
  cache at all.\<close>

theorem Resolve_transparent:
  assumes "lru_cache libs entry" "lru_New libs n \<noteq> None"
  shows "\<exists>vs r r'. Resolve_all libs calls (geoip_New libs d n g) = Some (vs, r)
    \<and> Resolve_all (no_cache libs) calls (geoip_New (no_cache libs) d n g) = Some (vs, r')"
  using lru_cache.Resolve_all_refines [OF assms(1) lru_cache.coherent_New [OF assms], of calls d g]
  unfolding uncached_New by blast

definition example_libs :: "(nat, lru_list) geo_libs" where
  "example_libs = lru_libs (\<lambda>v a. Some \<lparr>ISOCode = (if v = 1 then ''SE'' else ''NO''), Code = ''EU''\<rparr>)
     (\<lambda>v a. Some \<lparr>asn_number = 64496, AsOrg = ''Example''\<rparr>)"

definition example_fs :: "time \<Rightarrow> nat geo_fs" where
  "example_fs t = \<lparr>Stat = (\<lambda>p. Some t), mmdb_Open = (\<lambda>p. Some (nat t))\<rparr>"

lemma example_libs_simps:
  "lru_New example_libs n = (if n \<le> 0 then None else Some (nat n, []))"
  "lru_Get example_libs k (m, xs) = (case map_of xs k of None \<Rightarrow> (None, (m, xs)) | Some v \<Rightarrow> (Some v, (m, lru_front k v xs)))"
  "lru_Add example_libs k v (m, xs) = (m, take m (lru_front k v xs))"
  "lru_Purge example_libs (m, xs) = (m, [])"
  by (simp_all add: example_libs_def lru_libs_def)

lemmas example_steps = example_fs_def example_libs_simps lru_front_def geoip_New_def Let_def resolve_check_def
  reopenIfNeeded_def reopenOne_def resolve_get_def resolve_add_def resolve_lookup_def set_loaded_def ReopenCheckInterval_def

theorem Resolve_transparent_witness:
  "\<exists>vs r r'. Resolve_all example_libs [(example_fs 1, 0, ''192.0.2.1''), (example_fs 2, 1, ''192.0.2.1'')]
      (geoip_New example_libs ''/geoip'' 8192 None) = Some (vs, r)
    \<and> Resolve_all (no_cache example_libs) [(example_fs 1, 0, ''192.0.2.1''), (example_fs 2, 1, ''192.0.2.1'')]
      (geoip_New (no_cache example_libs) ''/geoip'' 8192 None) = Some (vs, r')"
  unfolding example_libs_def
  by (rule Resolve_transparent [OF lru.lru_cache_axioms]) (simp add: lru_libs_def)

text \<open>C30: answers are at most one check interval behind the files. If a database is determined by its
  file's modification time, then after every sequence of calls, a call that is due for a check answers
  with what the two files hold now.\<close>

theorem Resolve_fresh:
  assumes "lru_cache libs entry" "lru_New libs n \<noteq> None" "\<forall>(fs, now, ip) \<in> set calls. versioned db fs" "versioned db fs"
    "Resolve_all libs calls (geoip_New libs d n g) = Some (vs, r)"
    "\<not> lastReopenCheckSet r \<or> 30 * Second \<le> time_Sub now (lastReopenCheck r)"
    "cp = path_Join d ''GeoLite2-Country.mmdb''" "ap = path_Join d ''GeoLite2-ASN.mmdb''"
    "Stat fs cp = Some t1" "Stat fs ap = Some t2"
  shows "\<exists>r' cl ev. Resolve libs fs now ip r = Some (resolveUncached libs (db cp t1) (db ap t2) ip, r', cl, ev)"
proof -
  have "coherent libs entry r" "tracks db r" "countryPath r = cp" "asnPath r = ap"
    using lru_cache.Resolve_all_tracks [OF assms(1) lru_cache.coherent_New [OF assms(1,2)] tracks_New assms(3,5)] assms(7,8)
    by (simp_all add: geoip_New_def)
  with lru_cache.Resolve_fresh_lookup [OF assms(1) _ _ assms(4), of r now t1 t2 ip] assms show ?thesis
    by (simp add: ReopenCheckInterval_def)
qed

theorem Resolve_fresh_witness:
  "\<exists>vs r r' cl ev. Resolve_all example_libs [(example_fs 1, 0, ''192.0.2.1'')] (geoip_New example_libs ''/geoip'' 8192 None) = Some (vs, r)
    \<and> Resolve example_libs (example_fs 2) (30 * Second) ''192.0.2.1'' r =
        Some (resolveUncached example_libs (Some 2) (Some 2) ''192.0.2.1'', r', cl, ev)"
proof -
  have "\<exists>vs r. Resolve_all example_libs [(example_fs 1, 0, ''192.0.2.1'')] (geoip_New example_libs ''/geoip'' 8192 None) = Some (vs, r)
      \<and> lastReopenCheck r = 0"
    by (simp add: Resolve_def example_steps)
  then obtain vs r where r: "Resolve_all example_libs [(example_fs 1, 0, ''192.0.2.1'')] (geoip_New example_libs ''/geoip'' 8192 None) = Some (vs, r)"
    "lastReopenCheck r = 0" by blast
  have db: "versioned (\<lambda>p t. Some (nat t)) (example_fs t)" for t by (auto simp: versioned_def example_fs_def)
  have due: "\<not> lastReopenCheckSet r \<or> 30 * Second \<le> time_Sub (30 * Second) (lastReopenCheck r)"
    by (simp add: r(2) time_Sub_def Second_def)
  have lru: "lru_cache example_libs lru_entry" "lru_New example_libs 8192 \<noteq> None"
    unfolding example_libs_def by (rule lru.lru_cache_axioms, simp add: lru_libs_def)
  have stat: "Stat (example_fs 2) p = Some 2" for p by (simp add: example_fs_def)
  from Resolve_fresh [OF lru _ db r(1) due refl refl stat stat, of "''192.0.2.1''"] r(1) db show ?thesis by fastforce
qed

text \<open>C39: with concurrent calls the cache can go stale. One goroutine looks an address up; before it adds the
  answer, another one reloads the databases and purges the cache; the answer from the old database
  is then cached, and later calls return it although the new database says otherwise.\<close>

theorem concurrent_stale:
  "\<exists>r1 r1' r2 r3 r4 v. resolve_check example_libs (example_fs 1) 0 (geoip_New example_libs ''/geoip'' 8192 None) = Some (r1, [], [])
    \<and> resolve_get example_libs ''192.0.2.1'' r1 = Some (None, r1') \<and> v = resolve_lookup example_libs ''192.0.2.1'' r1'
    \<and> resolve_check example_libs (example_fs 2) (30 * Second) r1' = Some (r2, [1, 1], [])
    \<and> resolve_add example_libs ''192.0.2.1'' v r2 = Some r3
    \<and> Resolve example_libs (example_fs 2) (31 * Second) ''192.0.2.1'' r3 = Some (v, r4, [], [])
    \<and> v \<noteq> resolve_lookup example_libs ''192.0.2.1'' r4"
proof -
  have "resolveUncached example_libs (Some 1) (Some 1) ''192.0.2.1'' \<noteq> resolveUncached example_libs (Some 2) (Some 2) ''192.0.2.1''"
  proof -
    have "ParseAddr ''192.0.2.1'' = Some (Addr4 [192, 0, 2, 1])" by code_simp
    then show ?thesis by (simp add: resolveUncached_def example_libs_def lru_libs_def unknown_Result_def)
  qed
  then show ?thesis by (simp add: Resolve_def example_steps time_Sub_def Second_def)
qed

end
