(* ===== verification/NtpPool.thy ===== *)
theory NtpPool
  imports Asn Metrics
begin

section \<open>internal/ntppool: the pool score poller\<close>

text \<open>
  Decoding and publishing of the scores of \<open>internal/ntppool/ntppool.go\<close>. The reflection-driven
  decoder of \<open>encoding/json\<close> is the parameter \<open>Unmarshal\<close>: it gives the fields of the response, or
  \<open>None\<close> for an error, with each \<open>ts\<close> value as the token that \<open>flexTS.UnmarshalJSON\<close> is called on.
  The HTTP client is the parameter \<open>http\<close>, the outcome of fetching a URL, and the order in which a
  \<open>range\<close> loop visits a map is a parameter too. Floating-point values are finite, as JSON numbers are.
\<close>

definition URL_prefix :: string where "URL_prefix = ''https://www.ntppool.org/scores/''"

definition URLTemplate :: "string \<Rightarrow> string" where
  "URLTemplate ip = URL_prefix @ ip @ ''/json?limit=10&monitor=*''"

definition OverallURLTemplate :: "string \<Rightarrow> string" where
  "OverallURLTemplate ip = URL_prefix @ ip @ ''/json?limit=1''"

subsection \<open>Timestamps\<close>

record flexTS =
  ts_num :: float64
  ts_str :: string
  ts_isNum :: bool
  ts_set :: bool

text \<open>A \<open>ts\<close> value: missing, \<open>null\<close>, a string, a number (\<open>None\<close> when it is out of range), or any other
  JSON value.\<close>

datatype ts_token = TSAbsent | TSNull | TSString string | TSNumber "float64 option" | TSOther

definition flexTS_zero :: flexTS where
  "flexTS_zero = \<lparr>ts_num = 0, ts_str = [], ts_isNum = False, ts_set = False\<rparr>"

definition flexTS_UnmarshalJSON :: "ts_token \<Rightarrow> flexTS option" where
  "flexTS_UnmarshalJSON tok =
     (case tok of
        TSAbsent \<Rightarrow> Some flexTS_zero
      | TSNull \<Rightarrow> Some flexTS_zero
      | TSString s \<Rightarrow> Some (flexTS_zero\<lparr>ts_str := s, ts_set := True\<rparr>)
      | TSNumber None \<Rightarrow> None
      | TSNumber (Some x) \<Rightarrow> Some (flexTS_zero\<lparr>ts_num := x, ts_isNum := True, ts_set := True\<rparr>)
      | TSOther \<Rightarrow> None)"

definition flexTS_less :: "flexTS \<Rightarrow> flexTS \<Rightarrow> bool" where
  "flexTS_less t u =
     (if \<not> ts_set t then ts_set u
      else if \<not> ts_set u then False
      else if ts_isNum t \<and> ts_isNum u then ts_num t < ts_num u
      else if ts_isNum t \<noteq> ts_isNum u then \<not> ts_isNum t
      else ts_str t < ts_str u)"

subsection \<open>Responses\<close>

record monitorMeta =
  m_ID :: "int option"
  m_Name :: "string option"

record historyEntry =
  h_TS :: flexTS
  h_Score :: "float64 option"
  h_Offset :: "float64 option"
  h_RTT :: "float64 option"
  h_MonitorID :: "int option"

record scoreResponse =
  Monitors :: "monitorMeta list"
  History :: "historyEntry list"

text \<open>What the JSON decoder hands over: a history entry whose timestamp is still a token.\<close>

type_synonym raw_entry = "ts_token \<times> float64 option \<times> float64 option \<times> float64 option \<times> int option"

type_synonym decoder = "bytes \<Rightarrow> (monitorMeta list \<times> raw_entry list) option"

definition decode_entry :: "raw_entry \<Rightarrow> historyEntry option" where
  "decode_entry = (\<lambda>(tok, score, offset, rtt, mid).
     map_option (\<lambda>ts. \<lparr>h_TS = ts, h_Score = score, h_Offset = offset, h_RTT = rtt, h_MonitorID = mid\<rparr>) (flexTS_UnmarshalJSON tok))"

definition decode_response :: "decoder \<Rightarrow> bytes \<Rightarrow> scoreResponse option" where
  "decode_response Unmarshal data =
     do {
       (ms, hs) \<leftarrow> Unmarshal data;
       hs \<leftarrow> those (map decode_entry hs);
       Some \<lparr>Monitors = ms, History = hs\<rparr>
     }"

definition newer :: "historyEntry \<Rightarrow> historyEntry \<Rightarrow> bool" where
  "newer a b = flexTS_less (h_TS b) (h_TS a)"

subsection \<open>Parsing\<close>

record Monitor =
  Mon_Score :: "float64 option"
  OffsetSeconds :: "float64 option"
  RTTSeconds :: "float64 option"

record pool_Parsed =
  pool_Score :: "float64 option"
  pool_Monitors :: "(string, Monitor) gomap"

definition newest :: "historyEntry \<Rightarrow> historyEntry list \<Rightarrow> historyEntry" where
  "newest h hs = foldl (\<lambda>cur h. if newer h cur then h else cur) h hs"

definition monitorsByID :: "monitorMeta list \<Rightarrow> (int, string) gomap" where
  "monitorsByID ms = foldl (\<lambda>byID m.
     case m_ID m of None \<Rightarrow> byID
     | Some mid \<Rightarrow>
         let name = FormatInt mid;
             name = (case m_Name m of None \<Rightarrow> name | Some n \<Rightarrow> if n \<noteq> [] then n else name)
         in AList.update mid name byID) [] ms"

definition note_latest :: "(int, historyEntry) gomap \<Rightarrow> historyEntry \<Rightarrow> (int, historyEntry) gomap" where
  "note_latest latest h =
     (case h_MonitorID h of None \<Rightarrow> latest
      | Some mid \<Rightarrow>
         (case map_of latest mid of
            None \<Rightarrow> AList.update mid h latest
          | Some cur \<Rightarrow> if newer h cur then AList.update mid h latest else latest))"

definition latestByMonitor :: "historyEntry list \<Rightarrow> (int, historyEntry) gomap" where
  "latestByMonitor hs = foldl note_latest [] hs"

definition monitor_name :: "(int, string) gomap \<Rightarrow> int \<Rightarrow> string" where
  "monitor_name byID mid = (case map_of byID mid of None \<Rightarrow> FormatInt mid | Some name \<Rightarrow> name)"

definition monitor_of :: "historyEntry \<Rightarrow> Monitor" where
  "monitor_of h = \<lparr>Mon_Score = h_Score h, OffsetSeconds = h_Offset h, RTTSeconds = map_option (\<lambda>v. fl (v / 1000)) (h_RTT h)\<rparr>"

definition Parse :: "decoder \<Rightarrow> ((int, historyEntry) gomap \<Rightarrow> (int, historyEntry) gomap) \<Rightarrow> bytes \<Rightarrow> pool_Parsed option" where
  "Parse Unmarshal order data =
     do {
       resp \<leftarrow> decode_response Unmarshal data;
       let byID = monitorsByID (Monitors resp);
       let score = (case History resp of [] \<Rightarrow> None | h # hs \<Rightarrow> h_Score (newest h hs));
       let latest = latestByMonitor (History resp);
       let ms = foldl (\<lambda>ms (mid, h). AList.update (monitor_name byID mid) (monitor_of h) ms) [] (order latest);
       Some \<lparr>pool_Score = score, pool_Monitors = ms\<rparr>
     }"

definition ParseOverallScore :: "decoder \<Rightarrow> bytes \<Rightarrow> float64 option option" where
  "ParseOverallScore Unmarshal data =
     do {
       resp \<leftarrow> decode_response Unmarshal data;
       Some (case History resp of [] \<Rightarrow> None | h # hs \<Rightarrow> h_Score (newest h hs))
     }"

subsection \<open>Polling\<close>

record 'e Setters =
  set_Score :: "string \<Rightarrow> float64 \<Rightarrow> 'e list"
  set_MonitorScore :: "string \<Rightarrow> string \<Rightarrow> float64 \<Rightarrow> 'e list"
  set_MonitorOffset :: "string \<Rightarrow> string \<Rightarrow> float64 \<Rightarrow> 'e list"
  set_MonitorRTT :: "string \<Rightarrow> string \<Rightarrow> float64 \<Rightarrow> 'e list"
  set_ScrapeSuccess :: "float64 \<Rightarrow> 'e list"

record 'e Poller =
  IPv4 :: string
  Client_Timeout :: duration
  setters :: "'e Setters"

definition NewPoller :: "string \<Rightarrow> 'e Setters \<Rightarrow> 'e Poller" where
  "NewPoller ipv4 s = \<lparr>IPv4 = ipv4, Client_Timeout = 10 * Second, setters = s\<rparr>"

text \<open>Fetching a URL: the request cannot be built or fails, or there is a response with a status and a
  body, unless reading the body fails.\<close>

datatype http_result = RequestError | DoError | Response int "bytes option"

definition getJSON :: "http_result \<Rightarrow> bytes option" where
  "getJSON res =
     (case res of
        RequestError \<Rightarrow> None
      | DoError \<Rightarrow> None
      | Response status body \<Rightarrow> if status < 200 \<or> status \<ge> 300 then None else body)"

definition opt_call :: "('v \<Rightarrow> 'e list) \<Rightarrow> 'v option \<Rightarrow> 'e list" where
  "opt_call f v = (case v of None \<Rightarrow> [] | Some v \<Rightarrow> f v)"

definition publish_monitor :: "'e Setters \<Rightarrow> string \<Rightarrow> string \<times> Monitor \<Rightarrow> 'e list" where
  "publish_monitor s ip = (\<lambda>(monitor, vals).
     opt_call (set_MonitorScore s ip monitor) (Mon_Score vals)
     @ opt_call (set_MonitorOffset s ip monitor) (OffsetSeconds vals)
     @ opt_call (set_MonitorRTT s ip monitor) (RTTSeconds vals))"

record poll_env =
  http :: "string \<Rightarrow> http_result"
  json :: decoder
  order1 :: "(int, historyEntry) gomap \<Rightarrow> (int, historyEntry) gomap"
  order2 :: "(string, Monitor) gomap \<Rightarrow> (string, Monitor) gomap"

definition fetch_scores :: "poll_env \<Rightarrow> string \<Rightarrow> (pool_Parsed \<times> float64 option) option" where
  "fetch_scores env ip =
     do {
       data \<leftarrow> getJSON (http env (URLTemplate ip));
       overallData \<leftarrow> getJSON (http env (OverallURLTemplate ip));
       parsed \<leftarrow> Parse (json env) (order1 env) data;
       overallScore \<leftarrow> ParseOverallScore (json env) overallData;
       Some (parsed, overallScore)
     }"

definition PollOnce :: "poll_env \<Rightarrow> 'e Poller \<Rightarrow> 'e list" where
  "PollOnce env p =
     (if IPv4 p = [] then []
      else case fetch_scores env (IPv4 p) of
        None \<Rightarrow> set_ScrapeSuccess (setters p) 0
      | Some (parsed, overallScore) \<Rightarrow>
          opt_call (set_Score (setters p) (IPv4 p)) overallScore
          @ concat (map (publish_monitor (setters p) (IPv4 p)) (order2 env (pool_Monitors parsed)))
          @ set_ScrapeSuccess (setters p) 1)"

text \<open>\<open>RunForever\<close> as the sequence of its iterations: the \<open>k\<close>-th one polls in environment \<open>envs k\<close>. The
  result \<open>None\<close> means that the call does not return.\<close>

partial_function (option) RunForever :: "(nat \<Rightarrow> poll_env) \<Rightarrow> 'e Poller \<Rightarrow> nat \<Rightarrow> 'e list option" where
  "RunForever envs p k =
     do {
       let ev = PollOnce (envs k) p;
       evs \<leftarrow> RunForever envs p (Suc k);
       Some (ev @ evs)
     }"

lemma RunForever_never_returns: "RunForever envs p k = None"
proof (cases "RunForever envs p k")
  case (Some evs)
  have False
    by (rule RunForever.raw_induct [of "\<lambda>_ _ _ _. False", OF _ Some]) (auto simp: Let_def split: bind_splits)
  then show ?thesis ..
qed

subsection \<open>What a response reports\<close>

text \<open>The specification of parsing, on the decoded document. A \<open>ts\<close> value is older than another one if it is a
  smaller number, or a string that comes first in the dictionary, or a string where the other is a
  number, or missing where the other is not.\<close>

fun older :: "ts_token \<Rightarrow> ts_token \<Rightarrow> bool" where
  "older (TSNumber (Some x)) (TSNumber (Some y)) \<longleftrightarrow> x < y"
| "older (TSString s) (TSString t) \<longleftrightarrow> s < t"
| "older (TSString s) (TSNumber y) \<longleftrightarrow> True"
| "older TSAbsent (TSString t) \<longleftrightarrow> True"
| "older TSAbsent (TSNumber y) \<longleftrightarrow> True"
| "older TSNull (TSString t) \<longleftrightarrow> True"
| "older TSNull (TSNumber y) \<longleftrightarrow> True"
| "older _ _ \<longleftrightarrow> False"

definition readable :: "raw_entry \<Rightarrow> bool" where
  "readable r \<longleftrightarrow> fst r \<noteq> TSOther \<and> fst r \<noteq> TSNumber None"

text \<open>The newest entry, the first one in the document if several are equally new.\<close>

definition newest_entry :: "raw_entry list \<Rightarrow> raw_entry \<Rightarrow> bool" where
  "newest_entry rs r \<longleftrightarrow> (\<exists>i < length rs. rs ! i = r \<and> (\<forall>j < i. older (fst (rs ! j)) (fst r))
     \<and> (\<forall>j < length rs. i < j \<longrightarrow> \<not> older (fst r) (fst (rs ! j))))"

definition entries_of :: "int \<Rightarrow> raw_entry list \<Rightarrow> raw_entry list" where
  "entries_of mid rs = filter (\<lambda>(tok, score, offset, rtt, m). m = Some mid) rs"

definition monitor_ids :: "raw_entry list \<Rightarrow> int set" where
  "monitor_ids rs = {mid. entries_of mid rs \<noteq> []}"

text \<open>A monitor goes by the name of its last description, or by its number if there is none or it has no name.\<close>

definition reported_name :: "monitorMeta list \<Rightarrow> int \<Rightarrow> string" where
  "reported_name ms mid = (case filter (\<lambda>m. m_ID m = Some mid) ms of
     [] \<Rightarrow> FormatInt mid
   | d # ds \<Rightarrow> (case m_Name (last (d # ds)) of Some (c # n) \<Rightarrow> c # n | _ \<Rightarrow> FormatInt mid))"

definition reported_values :: "raw_entry \<Rightarrow> Monitor" where
  "reported_values = (\<lambda>(tok, score, offset, rtt, mid).
     \<lparr>Mon_Score = score, OffsetSeconds = offset, RTTSeconds = (case rtt of None \<Rightarrow> None | Some ms \<Rightarrow> Some (fl (ms / 1000)))\<rparr>)"

definition report :: "monitorMeta list \<Rightarrow> raw_entry list \<Rightarrow> (string \<times> Monitor) set" where
  "report ms rs = {(reported_name ms mid, reported_values r) |mid r. newest_entry (entries_of mid rs) r}"

text \<open>The overall score is the one of the newest entry, if there is an entry and it has a score.\<close>

definition newest_score :: "raw_entry list \<Rightarrow> float64 option \<Rightarrow> bool" where
  "newest_score rs v \<longleftrightarrow> (if rs = [] then v = None else \<exists>r. newest_entry rs r \<and> v = fst (snd r))"

text \<open>A URL serves a document if the response has a success status and a body which is that document, with
  timestamps that can be read.\<close>

definition serves :: "poll_env \<Rightarrow> string \<Rightarrow> monitorMeta list \<Rightarrow> raw_entry list \<Rightarrow> bool" where
  "serves env url ms rs \<longleftrightarrow> (\<exists>status body. http env url = Response status (Some body) \<and> 200 \<le> status \<and> status \<le> 299
     \<and> json env body = Some (ms, rs) \<and> (\<forall>r \<in> set rs. readable r))"

lemma newest_entry_unique: "newest_entry rs r \<Longrightarrow> newest_entry rs r' \<Longrightarrow> r = r'"
  unfolding newest_entry_def by (metis linorder_less_linear)

subsection \<open>The newest entry\<close>

text \<open>\<open>flexTS.less\<close> is a strict weak order, and so is the order of entries by age.\<close>

interpretation ts: slice_less flexTS_less
  by unfold_locales (auto simp: flexTS_less_def split: if_splits)

interpretation age: slice_less "\<lambda>a b. newer b a"
  by unfold_locales (auto simp: newer_def ts.irrefl intro: ts.trans dest: ts.weak)

context slice_less
begin

text \<open>The scan for the last element in the order: it keeps the first of several equivalent ones.\<close>

definition first_max :: "'a list \<Rightarrow> 'a \<Rightarrow> bool" where
  "first_max xs m \<longleftrightarrow> (\<exists>i < length xs. xs ! i = m \<and> (\<forall>j < i. lessf (xs ! j) m) \<and> (\<forall>j < length xs. i < j \<longrightarrow> \<not> lessf m (xs ! j)))"

lemma first_max_max: "first_max xs m \<Longrightarrow> x \<in> set xs \<Longrightarrow> \<not> lessf m x"
  unfolding first_max_def in_set_conv_nth using asym irrefl by (metis linorder_less_linear)

lemma first_max_snoc: "first_max xs m \<Longrightarrow> first_max (xs @ [x]) (if lessf m x then x else m)"
proof -
  assume m: "first_max xs m"
  show ?thesis
  proof (cases "lessf m x")
    case True
    have "lessf y x" if "y \<in> set xs" for y using first_max_max [OF m that] True weak by blast
    then show ?thesis using True unfolding first_max_def by (intro exI [of _ "length xs"]) (simp add: nth_append)
  next
    case False
    from m obtain i where "i < length xs" "xs ! i = m" "\<forall>j < i. lessf (xs ! j) m" "\<forall>j < length xs. i < j \<longrightarrow> \<not> lessf m (xs ! j)"
      unfolding first_max_def by blast
    then show ?thesis using False unfolding first_max_def by (intro exI [of _ i]) (auto simp: nth_append less_Suc_eq)
  qed
qed

lemma scan_first_max: "first_max (h # hs) (foldl (\<lambda>cur h. if lessf cur h then h else cur) h hs)"
proof (induction hs rule: rev_induct)
  case (snoc x hs)
  from first_max_snoc [OF this, of x] show ?case by simp
qed (simp add: first_max_def)

end

lemma newest_first: "age.first_max (h # hs) (newest h hs)"
  using age.scan_first_max [of h hs] by (simp add: newest_def)

subsection \<open>Decoded entries\<close>

definition entry_of :: "raw_entry \<Rightarrow> historyEntry" where
  "entry_of r = the (decode_entry r)"

lemma those_map: "those (map f xs) = (if \<exists>x \<in> set xs. f x = None then None else Some (map (\<lambda>x. the (f x)) xs))"
  by (induction xs) (auto split: option.splits)

lemma decode_entry_readable: "decode_entry r = None \<longleftrightarrow> \<not> readable r"
  by (cases r) (auto simp: decode_entry_def readable_def flexTS_UnmarshalJSON_def split: ts_token.splits option.splits)

lemma decode_entries:
  "those (map decode_entry rs) = (if \<forall>r \<in> set rs. readable r then Some (map entry_of rs) else None)"
  unfolding those_map decode_entry_readable entry_of_def by auto

lemma entry_of_simps:
  assumes "readable r"
  shows "h_Score (entry_of r) = fst (snd r)" "monitor_of (entry_of r) = reported_values r"
    "h_MonitorID (entry_of r) = Some mid \<longleftrightarrow> (case r of (tok, score, offset, rtt, m) \<Rightarrow> m = Some mid)"
proof -
  obtain tok score offset rtt m where r: "r = (tok, score, offset, rtt, m)" by (cases r)
  have "decode_entry r \<noteq> None" using assms decode_entry_readable by blast
  then obtain t where e: "entry_of r = \<lparr>h_TS = t, h_Score = score, h_Offset = offset, h_RTT = rtt, h_MonitorID = m\<rparr>"
    by (auto simp: r entry_of_def decode_entry_def)
  show "h_Score (entry_of r) = fst (snd r)" "monitor_of (entry_of r) = reported_values r"
    "h_MonitorID (entry_of r) = Some mid \<longleftrightarrow> (case r of (tok, score, offset, rtt, m) \<Rightarrow> m = Some mid)"
    by (simp_all add: e) (auto simp: r monitor_of_def reported_values_def split: option.splits)
qed

lemma newer_entry_of: "readable r \<Longrightarrow> readable r' \<Longrightarrow> newer (entry_of r') (entry_of r) \<longleftrightarrow> older (fst r) (fst r')"
  by (cases r; cases r'; cases "fst r"; cases "fst r'")
    (auto simp: readable_def entry_of_def decode_entry_def flexTS_UnmarshalJSON_def newer_def flexTS_less_def flexTS_zero_def
      split: option.splits)

lemma first_max_entry:
  assumes "\<forall>r \<in> set rs. readable r" "age.first_max (map entry_of rs) h"
  shows "\<exists>r. newest_entry rs r \<and> readable r \<and> h = entry_of r"
proof -
  from assms(2) obtain i where i: "i < length rs" "entry_of (rs ! i) = h" "\<forall>j < i. newer h (entry_of (rs ! j))"
    "\<forall>j < length rs. i < j \<longrightarrow> \<not> newer (entry_of (rs ! j)) h" unfolding age.first_max_def by auto
  have ok: "readable (rs ! j)" if "j < length rs" for j using assms(1) that by simp
  have "newest_entry rs (rs ! i)"
    unfolding newest_entry_def using i ok newer_entry_of by (intro exI [of _ i]) (auto simp flip: i(2))
  then show ?thesis using i ok by blast
qed

definition of_monitor :: "int \<Rightarrow> historyEntry list \<Rightarrow> historyEntry list" where
  "of_monitor mid hs = filter (\<lambda>h. h_MonitorID h = Some mid) hs"

lemma of_monitor_entries:
  "\<forall>r \<in> set rs. readable r \<Longrightarrow> of_monitor mid (map entry_of rs) = map entry_of (entries_of mid rs)"
  unfolding of_monitor_def entries_of_def filter_map by (auto simp: entry_of_simps(3) cong: filter_cong)

lemma newest_Nil: "newest h [] = h"
  by (simp add: newest_def)

lemma newest_snoc: "newest h (hs @ [x]) = (if newer x (newest h hs) then x else newest h hs)"
  by (simp add: newest_def)

lemma latestByMonitor_snoc: "latestByMonitor (hs @ [h]) = note_latest (latestByMonitor hs) h"
  by (simp add: latestByMonitor_def)

lemma map_of_latestByMonitor:
  "map_of (latestByMonitor hs) mid = (case of_monitor mid hs of [] \<Rightarrow> None | h # hs' \<Rightarrow> Some (newest h hs'))"
proof (induction hs rule: rev_induct)
  case (snoc h hs)
  then show ?case
    by (cases "h_MonitorID h")
      (auto simp: latestByMonitor_snoc note_latest_def of_monitor_def newest_snoc newest_Nil update_conv split: option.splits list.splits)
qed (simp add: latestByMonitor_def of_monitor_def)

lemma distinct_latestByMonitor: "distinct (map fst (latestByMonitor hs))"
proof (induction hs rule: rev_induct)
  case (snoc h hs)
  then show ?case by (auto simp: latestByMonitor_snoc note_latest_def distinct_update split: option.splits)
qed (simp add: latestByMonitor_def)

lemma dom_renamed:
  "fst ` set (foldl (\<lambda>m (k, v). AList.update (f k) (g v) m) m0 xs) = fst ` set m0 \<union> f ` fst ` set xs"
  by (induction xs arbitrary: m0) (simp_all add: dom_update case_prod_beta)

lemma set_latestByMonitor:
  "(mid, h) \<in> set (latestByMonitor hs) \<longleftrightarrow> map_of (latestByMonitor hs) mid = Some h"
  by (rule map_of_eq_Some_iff [OF distinct_latestByMonitor, symmetric])

lemma latestByMonitor_ids: "fst ` set (latestByMonitor hs) = {mid. of_monitor mid hs \<noteq> []}"
proof -
  have "mid \<in> fst ` set (latestByMonitor hs) \<longleftrightarrow> of_monitor mid hs \<noteq> []" for mid
    using map_of_eq_None_iff [of "latestByMonitor hs" mid]
    by (cases "of_monitor mid hs") (simp_all add: map_of_latestByMonitor)
  then show ?thesis by blast
qed

text \<open>The latest entries and the names, in terms of the specification.\<close>

lemma latest_entry:
  assumes "\<forall>r \<in> set rs. readable r" "(mid, h) \<in> set (latestByMonitor (map entry_of rs))"
  shows "\<exists>r. newest_entry (entries_of mid rs) r \<and> monitor_of h = reported_values r"
proof -
  let ?es = "entries_of mid rs"
  have ok: "\<forall>r \<in> set ?es. readable r" using assms(1) by (auto simp: entries_of_def)
  obtain e es where es: "?es = e # es" "h = newest (entry_of e) (map entry_of es)"
    using assms(2) unfolding set_latestByMonitor map_of_latestByMonitor of_monitor_entries [OF assms(1)]
    by (cases ?es) auto
  then have "age.first_max (map entry_of ?es) h" using newest_first by simp
  from first_max_entry [OF ok this] entry_of_simps(2) show ?thesis by blast
qed

lemma latest_ids: "\<forall>r \<in> set rs. readable r \<Longrightarrow> fst ` set (latestByMonitor (map entry_of rs)) = monitor_ids rs"
  by (simp add: latestByMonitor_ids of_monitor_entries monitor_ids_def)

lemma map_of_monitorsByID:
  "map_of (monitorsByID ms) mid = (case filter (\<lambda>m. m_ID m = Some mid) ms of [] \<Rightarrow> None | d # ds \<Rightarrow> Some (reported_name ms mid))"
proof (induction ms rule: rev_induct)
  case (snoc m ms)
  have "monitorsByID (ms @ [m]) = (case m_ID m of None \<Rightarrow> monitorsByID ms
      | Some i \<Rightarrow> AList.update i (case m_Name m of None \<Rightarrow> FormatInt i | Some n \<Rightarrow> if n \<noteq> [] then n else FormatInt i) (monitorsByID ms))"
    by (simp add: monitorsByID_def Let_def split: option.splits)
  with snoc show ?case
    by (auto simp: reported_name_def update_conv split: option.splits list.splits)
qed (simp add: monitorsByID_def)

lemma monitor_name_reported: "monitor_name (monitorsByID ms) mid = reported_name ms mid"
  by (auto simp: monitor_name_def map_of_monitorsByID reported_name_def split: list.splits)

lemma distinct_renamed: "distinct (map fst m0) \<Longrightarrow> distinct (map fst (foldl (\<lambda>m (k, v). AList.update (f k) (g v) m) m0 xs))"
  by (induction xs arbitrary: m0) (simp_all add: distinct_update case_prod_beta)

lemma values_renamed:
  "distinct (map fst m0) \<Longrightarrow> set (foldl (\<lambda>m (k, v). AList.update (f k) (g v) m) m0 xs) \<subseteq> set m0 \<union> {(f k, g v) |k v. (k, v) \<in> set xs}"
proof (induction xs rule: rev_induct)
  case (snoc x xs)
  obtain k v where x: "x = (k, v)" by (cases x)
  let ?m = "foldl (\<lambda>m (k, v). AList.update (f k) (g v) m) m0 xs"
  have d: "distinct (map fst ?m)" "distinct (map fst (AList.update (f k) (g v) ?m))"
    using distinct_renamed [OF snoc.prems, of f g xs] by (simp_all add: distinct_update)
  have "set (AList.update (f k) (g v) ?m) \<subseteq> insert (f k, g v) (set ?m)"
    using d by (auto simp: update_conv split: if_splits dest!: map_of_is_SomeI dest: map_of_SomeD)
  then show ?case using snoc x by fastforce
qed simp

lemma newest_score_entry:
  assumes "\<forall>r \<in> set raws. readable r"
  shows "newest_score raws (case map entry_of raws of [] \<Rightarrow> None | h # hs \<Rightarrow> h_Score (newest h hs))" (is "newest_score raws ?v")
proof (cases raws)
  case (Cons e es)
  have "age.first_max (map entry_of raws) (newest (entry_of e) (map entry_of es))" using newest_first Cons by simp
  from first_max_entry [OF assms this] obtain r where r: "newest_entry raws r" "readable r"
    "newest (entry_of e) (map entry_of es) = entry_of r" by blast
  then have "?v = fst (snd r)" using Cons entry_of_simps(1) [OF r(2)] by simp
  with r(1) have "\<exists>r. newest_entry raws r \<and> ?v = fst (snd r)" by blast
  then show ?thesis using Cons by (simp only: newest_score_def list.distinct if_False)
qed (simp add: newest_score_def)

lemma decode_response_readable:
  "decode_response Unmarshal data = Some resp \<longleftrightarrow> (\<exists>ms raws. Unmarshal data = Some (ms, raws) \<and> (\<forall>r \<in> set raws. readable r)
     \<and> resp = \<lparr>Monitors = ms, History = map entry_of raws\<rparr>)"
  by (cases "Unmarshal data") (auto simp: decode_response_def decode_entries split: if_splits)

lemma Parse_report:
  assumes "Unmarshal data = Some (ms, raws)" "\<forall>m. mset (order m) = mset m" "\<forall>r \<in> set raws. readable r"
  shows "\<exists>parsed. Parse Unmarshal order data = Some parsed \<and> distinct (map fst (pool_Monitors parsed))
    \<and> fst ` set (pool_Monitors parsed) = reported_name ms ` monitor_ids raws \<and> set (pool_Monitors parsed) \<subseteq> report ms raws
    \<and> newest_score raws (pool_Score parsed)"
proof -
  let ?hs = "map entry_of raws"
  let ?l = "order (latestByMonitor ?hs)"
  have l: "set ?l = set (latestByMonitor ?hs)" using assms(2) mset_eq_setD by blast
  have name: "monitor_name (monitorsByID ms) = reported_name ms" by (simp add: fun_eq_iff monitor_name_reported)
  define parsed where "parsed = \<lparr>pool_Score = (case ?hs of [] \<Rightarrow> None | h # hs \<Rightarrow> h_Score (newest h hs)),
    pool_Monitors = foldl (\<lambda>ms' (mid, h). AList.update (reported_name ms mid) (monitor_of h) ms') [] ?l\<rparr>"
  have p: "Parse Unmarshal order data = Some parsed"
    using assms(1,3) by (simp add: Parse_def decode_response_def decode_entries parsed_def name)
  have "set (pool_Monitors parsed) \<subseteq> {(reported_name ms mid, monitor_of h) |mid h. (mid, h) \<in> set ?l}"
    using values_renamed [of "[]" "reported_name ms" monitor_of ?l] by (simp add: parsed_def)
  also have "\<dots> \<subseteq> report ms raws" unfolding l report_def using latest_entry [OF assms(3)] by fastforce
  finally have r: "set (pool_Monitors parsed) \<subseteq> report ms raws" .
  show ?thesis
    using dom_renamed [of "reported_name ms" monitor_of "[]" ?l] distinct_renamed [of "[]" "reported_name ms" monitor_of ?l]
      p r newest_score_entry [OF assms(3)] latest_ids [OF assms(3)] by (intro exI [of _ parsed]) (simp add: parsed_def l)
qed

text \<open>With different names for different monitors nothing is overwritten.\<close>

lemma report_complete:
  assumes "inj_on (reported_name ms) (monitor_ids raws)" "fst ` M = reported_name ms ` monitor_ids raws" "M \<subseteq> report ms raws"
  shows "M = report ms raws"
proof
  have ids: "mid \<in> monitor_ids raws" if "newest_entry (entries_of mid raws) r" for mid r
    using that by (auto simp: newest_entry_def monitor_ids_def)
  show "report ms raws \<subseteq> M"
  proof
    fix x assume "x \<in> report ms raws"
    then obtain mid r where x: "x = (reported_name ms mid, reported_values r)" "newest_entry (entries_of mid raws) r"
      by (auto simp: report_def)
    have "reported_name ms mid \<in> fst ` M" using ids [OF x(2)] by (simp add: assms(2))
    then obtain v where v: "(reported_name ms mid, v) \<in> M" by auto
    then obtain mid' r' where m: "reported_name ms mid = reported_name ms mid'" "v = reported_values r'" "newest_entry (entries_of mid' raws) r'"
      using assms(3) by (auto simp: report_def)
    have "mid' = mid" using inj_onD [OF assms(1) m(1)] ids x(2) m(3) by blast
    then show "x \<in> M" using v x m(2,3) newest_entry_unique by blast
  qed
qed (rule assms(3))

text \<open>Both documents have to be served for the scores to be fetched.\<close>

lemma getJSON_Some: "getJSON res = Some body \<longleftrightarrow> (\<exists>status. res = Response status (Some body) \<and> 200 \<le> status \<and> status \<le> 299)"
  by (auto simp: getJSON_def split: http_result.splits)

lemma fetch_scores_served:
  assumes "fetch_scores env ip = Some (parsed, v)"
  shows "(\<exists>ms raws. serves env (URLTemplate ip) ms raws) \<and> (\<exists>ms raws. serves env (OverallURLTemplate ip) ms raws)"
proof -
  from assms obtain body body2 where
    "getJSON (http env (URLTemplate ip)) = Some body" "getJSON (http env (OverallURLTemplate ip)) = Some body2"
    "decode_response (json env) body \<noteq> None" "decode_response (json env) body2 \<noteq> None"
    by (auto simp: fetch_scores_def Parse_def ParseOverallScore_def split: bind_splits)
  then show ?thesis unfolding not_None_eq decode_response_readable getJSON_Some serves_def by blast
qed

lemma fetch_scores_Some:
  assumes "serves env (URLTemplate ip) ms raws" "serves env (OverallURLTemplate ip) oms oraws" "\<forall>m. mset (order1 env m) = mset m"
  shows "\<exists>parsed v. fetch_scores env ip = Some (parsed, v) \<and> distinct (map fst (pool_Monitors parsed))
    \<and> fst ` set (pool_Monitors parsed) = reported_name ms ` monitor_ids raws \<and> set (pool_Monitors parsed) \<subseteq> report ms raws
    \<and> newest_score oraws v"
proof -
  from assms(1,2) obtain body body2 where g: "getJSON (http env (URLTemplate ip)) = Some body" "json env body = Some (ms, raws)"
      "\<forall>r \<in> set raws. readable r" "getJSON (http env (OverallURLTemplate ip)) = Some body2" "json env body2 = Some (oms, oraws)"
      "\<forall>r \<in> set oraws. readable r" unfolding serves_def getJSON_Some by blast
  then show ?thesis
    using Parse_report [of "json env" body ms raws "order1 env", OF g(2) assms(3) g(3)] newest_score_entry [OF g(6)]
    by (auto simp: fetch_scores_def ParseOverallScore_def decode_response_def decode_entries)
qed

subsection \<open>Properties\<close>

text \<open>C16: what \<open>Parse\<close> reports. It fails exactly when some timestamp cannot be read. Otherwise it reports every monitor
  that occurs in the history, and only those, under its name, with the score, offset and round trip (in
  seconds) of the newest of its entries, and the score of the newest entry of all. If two monitors go by
  the same name one of them is reported, which one depends on the order in which the map is visited; if
  the names are different, the result does not depend on it.\<close>

theorem Parse_newest:
  assumes "Unmarshal data = Some (ms, raws)" "\<forall>m. mset (order m) = mset m"
  shows "if \<exists>r \<in> set raws. \<not> readable r then Parse Unmarshal order data = None
    else \<exists>parsed. Parse Unmarshal order data = Some parsed \<and> distinct (map fst (pool_Monitors parsed))
      \<and> fst ` set (pool_Monitors parsed) = reported_name ms ` monitor_ids raws \<and> set (pool_Monitors parsed) \<subseteq> report ms raws
      \<and> (inj_on (reported_name ms) (monitor_ids raws) \<longrightarrow> set (pool_Monitors parsed) = report ms raws)
      \<and> newest_score raws (pool_Score parsed)"
proof (cases "\<exists>r \<in> set raws. \<not> readable r")
  case True
  then show ?thesis using assms(1) by (auto simp: Parse_def decode_response_def decode_entries)
next
  case False
  then have "\<forall>r \<in> set raws. readable r" by blast
  from Parse_report [of Unmarshal data ms raws order, OF assms this] obtain parsed where "Parse Unmarshal order data = Some parsed" "distinct (map fst (pool_Monitors parsed))"
    "fst ` set (pool_Monitors parsed) = reported_name ms ` monitor_ids raws" "set (pool_Monitors parsed) \<subseteq> report ms raws"
    "newest_score raws (pool_Score parsed)" by blast
  with False report_complete [of ms raws "set (pool_Monitors parsed)"] show ?thesis by auto
qed

text \<open>A response with a named and an unnamed monitor, numbers and a string as timestamps.\<close>

definition example_entries :: "raw_entry list" where
  "example_entries = [(TSNumber (Some 100), Some 15, Some (1/1000), Some 20, Some 7), (TSNumber (Some 200), Some 19, None, Some 30, Some 7),
     (TSString ''2024'', Some 3, None, None, Some 8), (TSString ''2023'', Some 2, None, None, Some 8), (TSNull, Some 4, None, None, None)]"

definition example_decoder :: decoder where
  "example_decoder data = Some ([\<lparr>m_ID = Some 7, m_Name = Some ''zur1''\<rparr>, \<lparr>m_ID = Some 8, m_Name = Some ''''\<rparr>], example_entries)"

lemma example_newest:
  "newest_entry (entries_of 7 example_entries) (TSNumber (Some 200), Some 19, None, Some 30, Some 7)"
  "newest_entry (entries_of 8 example_entries) (TSString ''2024'', Some 3, None, None, Some 8)"
  "newest_entry example_entries (TSNumber (Some 200), Some 19, None, Some 30, Some 7)"
proof -
  let ?a = "(TSNumber (Some 100), Some 15, Some (1/1000), Some 20, Some 7) :: raw_entry"
  let ?b = "(TSNumber (Some 200), Some 19, None, Some 30, Some 7) :: raw_entry"
  let ?c = "(TSString ''2024'', Some 3, None, None, Some 8) :: raw_entry" and ?d = "(TSString ''2023'', Some 2, None, None, Some 8) :: raw_entry"
  have es: "entries_of 7 example_entries = [?a, ?b]" "entries_of 8 example_entries = [?c, ?d]"
    by (simp_all add: entries_of_def example_entries_def)
  have lt: "\<not> ''2024'' < ''2023''" by code_simp
  show "newest_entry (entries_of 7 example_entries) ?b" unfolding es newest_entry_def by (rule exI [of _ 1]) (simp add: less_Suc_eq)
  show "newest_entry (entries_of 8 example_entries) ?c"
    unfolding es newest_entry_def by (rule exI [of _ 0]) (simp add: less_Suc_eq lt)
  show "newest_entry example_entries ?b"
    unfolding newest_entry_def example_entries_def by (rule exI [of _ 1]) (auto simp: less_Suc_eq nth_Cons)
qed

lemma example_ids: "monitor_ids example_entries = {7, 8}"
  by (auto simp: monitor_ids_def entries_of_def example_entries_def)

theorem Parse_newest_witness:
  "\<exists>parsed. Parse example_decoder rev [] = Some parsed \<and> pool_Score parsed = Some 19
     \<and> set (pool_Monitors parsed) = {(''zur1'', \<lparr>Mon_Score = Some 19, OffsetSeconds = None, RTTSeconds = Some (fl (30 / 1000))\<rparr>),
         (''8'', \<lparr>Mon_Score = Some 3, OffsetSeconds = None, RTTSeconds = None\<rparr>)}"
proof -
  let ?ms = "[\<lparr>m_ID = Some 7, m_Name = Some ''zur1''\<rparr>, \<lparr>m_ID = Some 8, m_Name = Some ''''\<rparr>]"
  have name: "reported_name ?ms 7 = ''zur1''" "reported_name ?ms 8 = ''8''"
    by (simp_all add: reported_name_def) code_simp
  have ids: "newest_entry (entries_of mid example_entries) r \<Longrightarrow> mid = 7 \<or> mid = 8" for mid r
    using example_ids by (auto simp: newest_entry_def monitor_ids_def)
  have rep: "report ?ms example_entries = {(''zur1'', reported_values (TSNumber (Some 200), Some 19, None, Some 30, Some 7)),
      (''8'', reported_values (TSString ''2024'', Some 3, None, None, Some 8))}" (is "?L = ?R")
  proof (intro equalityI subsetI)
    fix x assume "x \<in> ?L"
    then obtain mid r where x: "x = (reported_name ?ms mid, reported_values r)" "newest_entry (entries_of mid example_entries) r"
      by (auto simp: report_def)
    from ids [OF x(2)] show "x \<in> ?R"
    proof
      assume mid: "mid = 7"
      from newest_entry_unique [OF x(2) [unfolded mid] example_newest(1)] show "x \<in> ?R" by (simp add: x(1) mid name(1))
    next
      assume mid: "mid = 8"
      from newest_entry_unique [OF x(2) [unfolded mid] example_newest(2)] show "x \<in> ?R" by (simp add: x(1) mid name(2))
    qed
  next
    have in_report: "(reported_name ?ms mid, reported_values r) \<in> ?L" if "newest_entry (entries_of mid example_entries) r" for mid r
      unfolding report_def using that by blast
    fix x assume "x \<in> ?R"
    then show "x \<in> ?L" using in_report [OF example_newest(1)] in_report [OF example_newest(2)] unfolding name by fast
  qed
  have inj: "inj_on (reported_name ?ms) (monitor_ids example_entries)" unfolding example_ids by (simp add: name)
  have e: "example_decoder [] = Some (?ms, example_entries)" "\<not> (\<exists>r \<in> set example_entries. \<not> readable r)" "example_entries \<noteq> []"
    by (simp_all add: example_decoder_def example_entries_def readable_def)
  have perm: "\<forall>m. mset (rev m) = mset (m :: (int, historyEntry) gomap)" by simp
  from Parse_newest [of example_decoder "[]" ?ms example_entries rev, OF e(1) perm] e(2,3) inj obtain parsed r where
    p: "Parse example_decoder rev [] = Some parsed" "set (pool_Monitors parsed) = report ?ms example_entries"
    and r: "newest_entry example_entries r" "pool_Score parsed = fst (snd r)" by (auto simp: newest_score_def)
  from newest_entry_unique [OF r(1) example_newest(3)] p r(2) show ?thesis
    by (intro exI [of _ parsed]) (simp add: rep reported_values_def)
qed

end
