(* ===== verification/Exporter.thy ===== *)
theory Exporter
  imports Manager GeoIp NtpPool Counting
begin

section \<open>cmd/exporter: configuration and wiring\<close>

text \<open>
  The program \<open>cmd/exporter/main.go\<close>: the configuration read from the environment, the adapters and
  callbacks that connect the components, the flush loop, the capture loop that opens the sockets and
  runs the workers, and how \<open>main\<close> can end. The environment variables, the outcome of \<open>net.Listen\<close>, of \<open>http.Serve\<close> and of
  the library calls, and the ticks of the ticker are arguments. The HTTP server that exposes the
  registry is not modelled.
\<close>

subsection \<open>Configuration\<close>

text \<open>\<open>strconv.Atoi\<close>: an optional sign and decimal digits, within the range of \<open>int\<close>.\<close>

definition Atoi :: "string \<Rightarrow> int option" where
  "Atoi s =
     (let (neg, ds) = (case s of [] \<Rightarrow> (False, s)
        | c # t \<Rightarrow> if c = CHR ''-'' then (True, t) else if c = CHR ''+'' then (False, t) else (False, s))
      in if ds = [] \<or> \<not> list_all is_digit ds then None
         else let n = (if neg then - int (dec_val ds) else int (dec_val ds))
              in if - (2 ^ 63) \<le> n \<and> n < 2 ^ 63 then Some n else None)"

type_synonym environ = "string \<Rightarrow> string"

definition getenv :: "environ \<Rightarrow> string \<Rightarrow> string \<Rightarrow> string" where
  "getenv env key dflt = (if env key = [] then dflt else env key)"

definition getenvInt :: "environ \<Rightarrow> string \<Rightarrow> int \<Rightarrow> int" where
  "getenvInt env key dflt =
     (if env key = [] then dflt else case Atoi (env key) of None \<Rightarrow> dflt | Some n \<Rightarrow> n)"

record config =
  ntppoolIPv4 :: string
  cfg_asnTopN :: int
  cfg_geoipDir :: string
  listenAddr :: string
  listenPort :: int
  clientsPollInterval :: int
  ntppoolPollInterval :: int
  captureWorkers :: int
  captureRingBytes :: int
  captureDisabled :: bool

definition read_config :: "environ \<Rightarrow> config" where
  "read_config env =
     \<lparr>ntppoolIPv4 = getenv env ''NTPPOOL_IPV4'' '''',
      cfg_asnTopN = getenvInt env ''NTP_ASN_TOP_N'' 25,
      cfg_geoipDir = getenv env ''GEOIP_DIR'' ''/geoip'',
      listenAddr = getenv env ''LISTEN_ADDR'' ''127.0.0.1'',
      listenPort = getenvInt env ''LISTEN_PORT'' 9124,
      clientsPollInterval = getenvInt env ''CLIENTS_POLL_INTERVAL'' 15,
      ntppoolPollInterval = getenvInt env ''NTPPOOL_POLL_INTERVAL'' 300,
      captureWorkers = ClampWorkers (getenvInt env ''NTP_CAPTURE_WORKERS'' 4),
      captureRingBytes = getenvInt env ''NTP_CAPTURE_RING_BYTES'' (64 * 2 ^ 20),
      captureDisabled = (getenv env ''NTP_CAPTURE_DISABLED'' '''' = ''1'')\<rparr>"

definition listen_address :: "config \<Rightarrow> string" where
  "listen_address cfg = listenAddr cfg @ '':'' @ FormatInt (listenPort cfg)"

subsection \<open>Adapters and callbacks\<close>

definition adapter_Resolve :: "geoip_Result \<Rightarrow> GeoResult" where
  "adapter_Resolve res = \<lparr>Country = res_Country res, Continent = res_Continent res, ASN = res_ASN res,
     HasASN = res_HasASN res, ASOrg = res_ASOrg res\<rparr>"

definition loaded_gauge :: "string \<Rightarrow> bool \<Rightarrow> event list" where
  "loaded_gauge db loaded = [GaugeSet NtpGeoipDatabaseLoaded [db] (if loaded then 1 else 0)]"

definition pool_setters :: "event Setters" where
  "pool_setters =
     \<lparr>set_Score = (\<lambda>ip v. [GaugeSet NtppoolScore [ip] v]),
      set_MonitorScore = (\<lambda>ip monitor v. [GaugeSet NtppoolMonitorScore [ip, monitor] v]),
      set_MonitorOffset = (\<lambda>ip monitor v. [GaugeSet NtppoolMonitorOffsetSeconds [ip, monitor] v]),
      set_MonitorRTT = (\<lambda>ip monitor v. [GaugeSet NtppoolMonitorRttSeconds [ip, monitor] v]),
      set_ScrapeSuccess = (\<lambda>v. [GaugeSet NtppoolScrapeSuccess [] v])\<rparr>"

subsection \<open>flushForever\<close>

text \<open>One tick of the ticker: what the clocks and \<open>mgrPtr.Load()\<close> return, with the drop counters of the
  sockets. \<open>math.Log\<close> is the parameter \<open>Log\<close>.\<close>

record 's flush_env =
  tick_now :: time
  tick_wall1 :: time
  tick_wall2 :: time
  tick_mgr :: "'s Manager option"
  tick_stats :: "'s \<Rightarrow> 32 word option"

definition flush_tick ::
    "(float64 \<Rightarrow> float64) \<Rightarrow> 's flush_env \<Rightarrow> u64 \<times> Collector \<Rightarrow> ((u64 \<times> Collector) \<times> event list) option" where
  "flush_tick Log tk = (\<lambda>(lastDrops, c).
     do {
       let readDrops = map_option (KernelDrops (tick_stats tk)) (tick_mgr tk);
       (c, l, ev) \<leftarrow> Flush Log (tick_now tk) (tick_wall1 tk) (tick_wall2 tk) readDrops (Some lastDrops) c;
       Some ((case l of None \<Rightarrow> lastDrops | Some d \<Rightarrow> d, c), ev)
     })"

fun flush_ticks ::
    "(float64 \<Rightarrow> float64) \<Rightarrow> 's flush_env list \<Rightarrow> u64 \<times> Collector \<Rightarrow> ((u64 \<times> Collector) \<times> event list) option" where
  "flush_ticks Log [] s = Some (s, [])"
| "flush_ticks Log (tk # tks) s =
     do {
       (s, ev) \<leftarrow> flush_tick Log tk s;
       (s, evs) \<leftarrow> flush_ticks Log tks s;
       Some (s, ev @ evs)
     }"

text \<open>The loop runs for the ticks that come before \<open>stop\<close>. \<open>time.NewTicker\<close> panics unless the interval is
  positive.\<close>

definition flushForever ::
    "(float64 \<Rightarrow> float64) \<Rightarrow> duration \<Rightarrow> 's flush_env list \<Rightarrow> u64 \<times> Collector \<Rightarrow> ((u64 \<times> Collector) \<times> event list) option" where
  "flushForever Log every tks s = (if every \<le> 0 then None else flush_ticks Log tks s)"

subsection \<open>runCapture\<close>

text \<open>Where the loop is: at its top; after \<open>Open\<close> failed, before \<open>Set(0)\<close>, and in the wait; after \<open>Open\<close>, before
  \<open>Set(1)\<close>, before \<open>mgrPtr.Store(mgr)\<close>, in \<open>Run\<close>, before \<open>mgrPtr.Store(nil)\<close>, before \<open>Close\<close>, before \<open>Set(0)\<close>.
  The scraper and the flush loop can look at any of them.\<close>

datatype 's cap_pc = CapTop | CapFailed | CapSleeping | CapOpened | CapStoring | CapRunning "'s run_state"
  | CapUnstoring | CapClosing | CapClearing | CapReturned

text \<open>\<open>base\<close> is the state the workers share, while they do not run; \<open>mgrPtr\<close> says whether the current
  manager is published, and \<open>scrape\<close> is the value last set on \<open>ntp_clients_scrape_success\<close>.\<close>

record 's cap_state =
  base :: "'s shared"
  mgrPtr :: bool
  scrape :: "float64 option"
  cap_stop :: bool
  cap_at :: "'s cap_pc"

definition new_manager :: "int \<Rightarrow> int \<Rightarrow> 's Manager" where
  "new_manager numWorkers ringBytes =
     \<lparr>NumWorkers = numWorkers, RingBytes = ringBytes, numBlocks = 0, prog = [], sockets = []\<rparr>"

definition cap_init :: "Collector \<Rightarrow> LocalIPs \<Rightarrow> 's Manager \<Rightarrow> 's cap_state" where
  "cap_init c local m = \<lparr>base = \<lparr>mgr = m, coll = c, addrs = local, closed_socks = [], emitted = []\<rparr>,
     mgrPtr = False, scrape = None, cap_stop = False, cap_at = CapTop\<rparr>"

text \<open>The library hands out new handles.\<close>

definition new_handles :: "'s shared \<Rightarrow> (nat \<Rightarrow> 's opened) \<Rightarrow> bool" where
  "new_handles sh ops \<longleftrightarrow> (\<forall>k. distinct (handed_out ops k @ closed_socks sh))"

inductive cap_step :: "int \<Rightarrow> int \<Rightarrow> 's cap_state \<Rightarrow> 's cap_state \<Rightarrow> bool" for numWorkers ringBytes :: int where
  Signal: "\<not> cap_stop s \<Longrightarrow> \<forall>r. cap_at s \<noteq> CapRunning r \<Longrightarrow> cap_step numWorkers ringBytes s (s\<lparr>cap_stop := True\<rparr>)"
| Top_stop: "cap_at s = CapTop \<Longrightarrow> cap_stop s \<Longrightarrow> cap_step numWorkers ringBytes s (s\<lparr>cap_at := CapReturned\<rparr>)"
| Open_fails: "cap_at s = CapTop \<Longrightarrow> \<not> cap_stop s \<Longrightarrow> new_handles (base s) ops \<Longrightarrow>
    Open ops (new_manager numWorkers ringBytes) = (m, False, cl, ev) \<Longrightarrow>
    cap_step numWorkers ringBytes s (s\<lparr>base := (base s)\<lparr>mgr := m, closed_socks := closed_socks (base s) @ cl, emitted := emitted (base s) @ ev\<rparr>,
      cap_at := CapFailed\<rparr>)"
| Failed_set: "cap_at s = CapFailed \<Longrightarrow> cap_step numWorkers ringBytes s (s\<lparr>scrape := Some 0, cap_at := CapSleeping\<rparr>)"
| Wait_stop: "cap_at s = CapSleeping \<Longrightarrow> cap_stop s \<Longrightarrow> cap_step numWorkers ringBytes s (s\<lparr>cap_at := CapReturned\<rparr>)"
| Wait_over: "cap_at s = CapSleeping \<Longrightarrow> cap_step numWorkers ringBytes s (s\<lparr>cap_at := CapTop\<rparr>)"
| Open_ok: "cap_at s = CapTop \<Longrightarrow> \<not> cap_stop s \<Longrightarrow> new_handles (base s) ops \<Longrightarrow>
    Open ops (new_manager numWorkers ringBytes) = (m, True, cl, ev) \<Longrightarrow>
    sh = (base s)\<lparr>mgr := m, closed_socks := closed_socks (base s) @ cl, emitted := emitted (base s) @ ev\<rparr> \<Longrightarrow>
    cap_step numWorkers ringBytes s (s\<lparr>base := sh, cap_at := CapOpened\<rparr>)"
| Open_set: "cap_at s = CapOpened \<Longrightarrow> cap_step numWorkers ringBytes s (s\<lparr>scrape := Some 1, cap_at := CapStoring\<rparr>)"
| Store: "cap_at s = CapStoring \<Longrightarrow>
    cap_step numWorkers ringBytes s (s\<lparr>mgrPtr := True, cap_at := CapRunning (Run_init (base s) (cap_stop s))\<rparr>)"
| Inner: "cap_at s = CapRunning r \<Longrightarrow> Run_step r r' \<Longrightarrow>
    cap_step numWorkers ringBytes s (s\<lparr>cap_at := CapRunning r', cap_stop := stop_closed r'\<rparr>)"
| Run_done: "cap_at s = CapRunning r \<Longrightarrow> pc r = RunReturned \<Longrightarrow>
    cap_step numWorkers ringBytes s (s\<lparr>base := shared_st r, cap_at := CapUnstoring\<rparr>)"
| Unstore: "cap_at s = CapUnstoring \<Longrightarrow> cap_step numWorkers ringBytes s (s\<lparr>mgrPtr := False, cap_at := CapClosing\<rparr>)"
| Close_all: "cap_at s = CapClosing \<Longrightarrow>
    cap_step numWorkers ringBytes s (s\<lparr>base := (base s)\<lparr>closed_socks := closed_socks (base s) @ Close (mgr (base s))\<rparr>, cap_at := CapClearing\<rparr>)"
| Clear: "cap_at s = CapClearing \<Longrightarrow> cap_step numWorkers ringBytes s (s\<lparr>scrape := Some 0, cap_at := CapTop\<rparr>)"

subsection \<open>main\<close>

text \<open>The ways \<open>main\<close> can end: \<open>log.Fatalf\<close> when the address cannot be bound or when \<open>http.Serve\<close> fails later, a
  panic of \<open>time.NewTicker\<close> in the goroutine of the flush loop, or a return. Whether \<open>http.Serve\<close> fails is
  an argument.\<close>

datatype main_end = Fatal | Panicked | Returned

definition main_poller :: "config \<Rightarrow> event Poller" where
  "main_poller cfg = NewPoller (ntppoolIPv4 cfg) pool_setters"

definition main_geo :: "('r, 'c) geo_libs \<Rightarrow> config \<Rightarrow> ('r, 'c) Resolver" where
  "main_geo libs cfg = geoip_New libs (cfg_geoipDir cfg) 8192 (Some loaded_gauge)"

definition main_collector :: "config \<Rightarrow> Collector option" where
  "main_collector cfg = Collector_New (cfg_asnTopN cfg) (captureWorkers cfg)"

definition main_flush_interval :: "config \<Rightarrow> duration" where
  "main_flush_interval cfg = int64 (clientsPollInterval cfg * Second)"

definition exporter_main :: "environ \<Rightarrow> (string \<Rightarrow> bool) \<Rightarrow> bool \<Rightarrow> (nat \<Rightarrow> poll_env) \<Rightarrow> main_end set" where
  "exporter_main env listen serve_fails envs =
     (let cfg = read_config env
      in if \<not> listen (listen_address cfg) then {Fatal}
         else (if serve_fails then {Fatal} else {})
           \<union> (if main_flush_interval cfg \<le> 0 then {Panicked} else {})
           \<union> (case RunForever envs (main_poller cfg) 0 of None \<Rightarrow> {} | Some evs \<Rightarrow> {Returned}))"

subsection \<open>Configuration values\<close>

lemma Atoi_FormatInt: "- (2 ^ 63) \<le> n \<Longrightarrow> n < 2 ^ 63 \<Longrightarrow> Atoi (FormatInt n) = Some n"
proof -
  assume n: "- (2 ^ 63) \<le> n" "n < 2 ^ 63"
  have digits: "list_all is_digit (FormatUint k)" for k using FormatUint_digits by (simp add: list_all_iff)
  have sign: "\<not> is_digit CHR ''-''" "\<not> is_digit CHR ''+''" by (simp_all add: is_digit_def)
  show ?thesis
  proof (cases "n < 0")
    case True
    then show ?thesis using n digits by (simp add: Atoi_def FormatInt_def)
  next
    case False
    obtain c s where cs: "FormatUint (nat n) = c # s" using FormatUint_ne [of "nat n"] by (cases "FormatUint (nat n)") auto
    then have "c \<noteq> CHR ''-''" "c \<noteq> CHR ''+''" using digits [of "nat n"] sign by auto
    then show ?thesis using False n digits [of "nat n"] cs dec_val_FormatUint [of "nat n"] by (simp add: Atoi_def FormatInt_def)
  qed
qed


subsection \<open>The capture loop\<close>

definition base_ok :: "int \<Rightarrow> 's shared \<Rightarrow> bool" where
  "base_ok nw sh \<longleftrightarrow> Collector_ok (coll sh) \<and> nat (ClampWorkers nw) \<le> length (workers (coll sh))
     \<and> distinct (closed_socks sh) \<and> list_all event_ok (emitted sh)"

definition cap_inv :: "int \<Rightarrow> 's cap_state \<Rightarrow> bool" where
  "cap_inv nw s \<longleftrightarrow> nat (ClampWorkers nw) < 2 ^ 32
     \<and> (let base_full = length (sockets (mgr (base s))) = nat (ClampWorkers nw); up = (scrape s = Some 1)
        in case cap_at s of
          CapOpened \<Rightarrow> ready (base s) \<and> base_full \<and> \<not> up \<and> \<not> mgrPtr s
        | CapStoring \<Rightarrow> ready (base s) \<and> base_full \<and> up \<and> \<not> mgrPtr s
        | CapRunning r \<Rightarrow> Run_inv r \<and> length (socks_of r) = nat (ClampWorkers nw) \<and> stop_closed r = cap_stop s \<and> up \<and> mgrPtr s
        | CapUnstoring \<Rightarrow> shared_ok (base s) \<and> base_full \<and> up \<and> mgrPtr s
        | CapClosing \<Rightarrow> shared_ok (base s) \<and> base_full \<and> up \<and> \<not> mgrPtr s
        | CapClearing \<Rightarrow> base_ok nw (base s) \<and> up \<and> \<not> mgrPtr s
        | CapReturned \<Rightarrow> base_ok nw (base s) \<and> \<not> up \<and> \<not> mgrPtr s \<and> cap_stop s
        | _ \<Rightarrow> base_ok nw (base s) \<and> \<not> up \<and> \<not> mgrPtr s)"

lemma Open_cases:
  assumes "Open ops m = (m', ok, cl, ev)"
  shows "if ok then cl = [] \<and> sockets m' = handed_out ops (nat (ClampWorkers (NumWorkers m)))
      \<and> length (sockets m') = nat (ClampWorkers (NumWorkers m)) \<and> sockets m' \<noteq> [] \<and> list_all event_ok ev
    else ev = [] \<and> (\<exists>j. mset cl = mset (handed_out ops j))"
proof (cases "\<forall>i < nat (ClampWorkers (NumWorkers m)). opens (ops i)")
  case True
  with Open_outcome [OF refl, of m ops 0] obtain m2 ev2 where
    "Open ops m = (m2, True, [], ev2)" "sockets m2 = handed_out ops (nat (ClampWorkers (NumWorkers m)))"
    "length (sockets m2) = nat (ClampWorkers (NumWorkers m))" "1 \<le> nat (ClampWorkers (NumWorkers m))" "list_all event_ok ev2" by blast
  with assms show ?thesis by (cases "sockets m2") auto
next
  case False
  then obtain k where k: "k < nat (ClampWorkers (NumWorkers m))" "\<not> opens (ops k)" by blast
  define j where "j = (LEAST j. \<not> opens (ops j))"
  have "\<not> opens (ops j)" using LeastI [of "\<lambda>j. \<not> opens (ops j)" k] k(2) unfolding j_def by blast
  moreover have "\<forall>i < j. opens (ops i)" using not_less_Least [of _ "\<lambda>j. \<not> opens (ops j)"] unfolding j_def by blast
  moreover have "j < nat (ClampWorkers (NumWorkers m))"
    using Least_le [of "\<lambda>j. \<not> opens (ops j)" k] k unfolding j_def by simp
  ultimately obtain m2 cl2 where "Open ops m = (m2, False, cl2, [])" "mset cl2 = mset (handed_out ops (Suc j))"
    using Open_outcome [OF refl, of m ops j] by blast
  with assms show ?thesis by auto
qed

lemma Run_init_simps [simp]: "shared_st (Run_init sh stop) = sh" "stop_closed (Run_init sh stop) = stop"
  by (simp_all add: Run_init_def)

lemma cap_inv_open_ok:
  assumes "base_ok nw (base s)" "new_handles (base s) ops" "Open ops (new_manager nw rb) = (m, True, cl, ev)" "nat (ClampWorkers nw) < 2 ^ 32"
    "sh = (base s)\<lparr>mgr := m, closed_socks := closed_socks (base s) @ cl, emitted := emitted (base s) @ ev\<rparr>"
  shows "ready sh \<and> length (sockets (mgr sh)) = nat (ClampWorkers nw)"
proof -
  from Open_cases [OF assms(3)] have o: "cl = []" "sockets m = handed_out ops (nat (ClampWorkers nw))"
    "length (sockets m) = nat (ClampWorkers nw)" "sockets m \<noteq> []" "list_all event_ok ev" by (auto simp: new_manager_def)
  have "handles_ok m (closed_socks (base s))" using assms(2) o(2) by (simp add: handles_ok_def new_handles_def)
  then have "ready sh" using assms(1,4,5) o ClampWorkers_pos [of nw] by (simp add: ready_def shared_ok_def base_ok_def)
  then show ?thesis using o(3) assms(5) by auto
qed

lemma cap_inv_step: "cap_step nw rb s t \<Longrightarrow> cap_inv nw s \<Longrightarrow> cap_inv nw t"
proof (induction rule: cap_step.induct)
  case (Open_fails s ops m cl ev)
  have "distinct (closed_socks (base s) @ cl)"
  proof -
    from Open_cases [OF Open_fails(4)] obtain j where "mset cl = mset (handed_out ops j)" by auto
    then have "mset (handed_out ops j @ closed_socks (base s)) = mset (closed_socks (base s) @ cl)" by simp
    then show ?thesis using Open_fails(3) unfolding new_handles_def by (metis mset_eq_imp_distinct_iff)
  qed
  with Open_fails Open_cases [OF Open_fails(4)] show ?case by (auto simp: cap_inv_def base_ok_def)
next
  case (Open_ok s ops m cl ev sh)
  then have "base_ok nw (base s)" "nat (ClampWorkers nw) < 2 ^ 32" by (auto simp: cap_inv_def)
  from cap_inv_open_ok [OF this(1) Open_ok(3,4) this(2) Open_ok(5)] this(2) Open_ok(1,6) show ?case
    by (simp add: cap_inv_def)
next
  case (Store s)
  then show ?case using Run_init_inv by (auto simp: cap_inv_def)
next
  case (Inner s r r')
  then have "Run_inv r" by (simp add: cap_inv_def)
  with Inner Run_inv_step [OF Inner(2)] Run_step_length [OF Inner(2)] show ?case by (simp add: cap_inv_def)
next
  case (Run_done s r)
  then show ?case by (auto simp: cap_inv_def Run_inv_def)
next
  case (Close_all s)
  then show ?case by (auto simp: cap_inv_def base_ok_def shared_ok_def handles_ok_def Close_def)
qed (auto simp: cap_inv_def Let_def split: cap_pc.splits)

text \<open>What the capture workers share with the rest of the process, running or not.\<close>

definition cap_sh :: "'s cap_state \<Rightarrow> 's shared" where
  "cap_sh s = (case cap_at s of CapRunning r \<Rightarrow> shared_st r | _ \<Rightarrow> base s)"

text \<open>What is left to do after \<open>stop\<close>, where a step inside \<open>Run\<close> counts for \<open>a\<close>.\<close>

definition cap_work :: "nat \<Rightarrow> 's cap_state \<Rightarrow> nat" where
  "cap_work a s = (case cap_at s of
       CapReturned \<Rightarrow> 0 | CapTop \<Rightarrow> 1 | CapSleeping \<Rightarrow> 2 | CapFailed \<Rightarrow> 3
     | CapClearing \<Rightarrow> 2 | CapClosing \<Rightarrow> 3 | CapUnstoring \<Rightarrow> 4 | CapRunning r \<Rightarrow> a * Run_work r + 5
     | CapStoring \<Rightarrow> a * (4 * length (sockets (mgr (base s))) + 3) + 6
     | CapOpened \<Rightarrow> a * (4 * length (sockets (mgr (base s))) + 3) + 7)"

lemma cap_work_bound: "cap_inv nw s \<Longrightarrow> cap_work a s \<le> a * (4 * nat (ClampWorkers nw) + 3) + 7"
proof (cases "cap_at s")
  case (CapRunning r)
  assume "cap_inv nw s"
  then have "Run_work r \<le> 4 * nat (ClampWorkers nw) + 3" using CapRunning Run_work_bound [of r] by (simp add: cap_inv_def)
  from mult_le_mono2 [OF this, of a] show ?thesis unfolding cap_work_def CapRunning cap_pc.case by linarith
qed (simp_all add: cap_inv_def cap_work_def)

lemma cap_work_step:
  "cap_step nw rb s t \<Longrightarrow> cap_inv nw s \<Longrightarrow> cap_stop s \<Longrightarrow> 0 < a \<Longrightarrow> cap_work a t < cap_work a s"
proof (induction rule: cap_step.induct)
  case (Inner s r r')
  then have "Run_work r' < Run_work r" using capture_run.work_step [of r r'] by (simp add: cap_inv_def)
  with Inner show ?case by (simp add: cap_work_def)
qed (simp_all add: cap_inv_def cap_work_def Run_work_def Run_init_def)

lemma cap_progress:
  assumes "cap_inv nw s" "cap_stop s" "cap_at s \<noteq> CapReturned"
  shows "\<exists>t. cap_step nw rb s t \<and> coll (cap_sh t) = coll (cap_sh s) \<and> addrs (cap_sh t) = addrs (cap_sh s)"
proof (cases "cap_at s")
  case (CapRunning r)
  show ?thesis
  proof (cases "pc r = RunReturned")
    case True
    from cap_step.Run_done [OF CapRunning this] show ?thesis
      using CapRunning by (intro exI conjI) (auto simp: cap_sh_def)
  next
    case False
    have "Run_inv r" "stop_closed r" using assms CapRunning by (auto simp: cap_inv_def)
    with False Run_progress obtain r' where "Run_step r r'" "coll (shared_st r') = coll (shared_st r)"
      "addrs (shared_st r') = addrs (shared_st r)" by blast
    with cap_step.Inner [OF CapRunning this(1)] CapRunning show ?thesis by (intro exI conjI) (auto simp: cap_sh_def)
  qed
next
  case CapTop
  from cap_step.Top_stop [OF this assms(2)] CapTop show ?thesis by (intro exI conjI) (auto simp: cap_sh_def)
next
  case CapSleeping
  from cap_step.Wait_stop [OF this assms(2)] CapSleeping show ?thesis by (intro exI conjI) (auto simp: cap_sh_def)
qed (use assms(3) cap_step.Failed_set [of s nw rb] cap_step.Open_set [of s nw rb] cap_step.Store [of s nw rb]
    cap_step.Unstore [of s nw rb] cap_step.Close_all [of s nw rb] cap_step.Clear [of s nw rb] in \<open>force simp: cap_sh_def\<close>)+

interpretation capture_loop: stoppable "cap_step nw rb" "cap_inv nw" cap_stop "\<lambda>s. cap_at s = CapReturned" "cap_work 1" for nw rb
proof unfold_locales
  fix s t :: "'a cap_state"
  assume inv: "cap_inv nw s" and stop: "cap_stop s" and step: "cap_step nw rb s t"
  show "cap_stop t"
    using step inv stop capture_run.stopped_step by (induction rule: cap_step.induct) (auto simp: cap_inv_def)
  show "cap_work 1 t < cap_work 1 s" by (rule cap_work_step [OF step inv stop]) simp
qed (blast intro: cap_inv_step dest: cap_progress)+

text \<open>A configuration as environment variables.\<close>

definition config_env :: "config \<Rightarrow> environ" where
  "config_env cfg key = (case map_of
     [(''NTPPOOL_IPV4'', ntppoolIPv4 cfg), (''NTP_ASN_TOP_N'', FormatInt (cfg_asnTopN cfg)), (''GEOIP_DIR'', cfg_geoipDir cfg),
      (''LISTEN_ADDR'', listenAddr cfg), (''LISTEN_PORT'', FormatInt (listenPort cfg)),
      (''CLIENTS_POLL_INTERVAL'', FormatInt (clientsPollInterval cfg)),
      (''NTPPOOL_POLL_INTERVAL'', FormatInt (ntppoolPollInterval cfg)),
      (''NTP_CAPTURE_WORKERS'', FormatInt (captureWorkers cfg)), (''NTP_CAPTURE_RING_BYTES'', FormatInt (captureRingBytes cfg)),
      (''NTP_CAPTURE_DISABLED'', if captureDisabled cfg then ''1'' else '''')] key of None \<Rightarrow> [] | Some v \<Rightarrow> v)"

definition is_int :: "int \<Rightarrow> bool" where
  "is_int n \<longleftrightarrow> - (2 ^ 63) \<le> n \<and> n < 2 ^ 63"

lemma getenvInt_FormatInt: "env key = FormatInt n \<Longrightarrow> is_int n \<Longrightarrow> getenvInt env key dflt = n"
  using Atoi_FormatInt [of n] by (auto simp: getenvInt_def is_int_def FormatInt_def)

subsection \<open>Properties\<close>

text \<open>The capture loop starts from the collector that \<open>main\<close> sized with the same worker count.\<close>

lemma main_collector_ok:
  assumes "main_collector cfg = Some c" "captureWorkers cfg < 2 ^ 32"
  shows "cap_inv (captureWorkers cfg) (cap_init c local m)"
proof -
  have "Collector_ok c" "length (workers c) = nat (max 1 (captureWorkers cfg))"
    using assms(1) Collector_New_ok [of "cfg_asnTopN cfg" "captureWorkers cfg"] by (auto simp: main_collector_def)
  then show ?thesis using assms(2) by (auto simp: cap_inv_def cap_init_def base_ok_def ClampWorkers_def)
qed

text \<open>C15: \<open>runCapture\<close>, over every schedule and every outcome of the library calls. The gauge
  \<open>ntp_clients_scrape_success\<close> is 1 from the \<open>Set(1)\<close> after a successful \<open>Open\<close> to the \<open>Set(0)\<close> after \<open>Close\<close>, so it is
  1 whenever workers run, and for the moments before \<open>Run\<close> starts and after it has returned; the manager
  is published from before \<open>Run\<close> to just after it. A published manager has one open socket for each
  worker. No worker ever panics, each has a counter slot of its own in the collector, and the
  loop returns only after \<open>stop\<close>.\<close>

theorem runCapture_health:
  assumes "main_collector cfg = Some c" "captureWorkers cfg < 2 ^ 32"
    "(cap_step (captureWorkers cfg) (captureRingBytes cfg))\<^sup>*\<^sup>* (cap_init c local m) s"
  shows "(scrape s = Some 1 \<longleftrightarrow> (\<exists>r. cap_at s = CapRunning r) \<or> cap_at s \<in> {CapStoring, CapUnstoring, CapClosing, CapClearing})
    \<and> (mgrPtr s \<longleftrightarrow> (\<exists>r. cap_at s = CapRunning r) \<or> cap_at s = CapUnstoring)
    \<and> (mgrPtr s \<longrightarrow> length (sockets (mgr (cap_sh s))) = nat (ClampWorkers (captureWorkers cfg))
        \<and> distinct (sockets (mgr (cap_sh s))) \<and> set (sockets (mgr (cap_sh s))) \<inter> set (closed_socks (cap_sh s)) = {})
    \<and> (\<forall>r. cap_at s = CapRunning r \<longrightarrow> \<not> Run_panics r \<and> length (gors r) \<le> length (workers (coll (shared_st r)))
        \<and> list_all event_ok (emitted (shared_st r)))
    \<and> (cap_at s = CapReturned \<longrightarrow> cap_stop s)"
proof -
  have inv: "cap_inv (captureWorkers cfg) s"
    using capture_loop.inv_steps [OF assms(3) main_collector_ok [OF assms(1,2)]] .
  have "\<not> Run_panics r \<and> length (gors r) \<le> length (workers (coll (shared_st r))) \<and> list_all event_ok (emitted (shared_st r))"
    if "cap_at s = CapRunning r" for r
  proof -
    have r: "Run_inv r" using inv that by (simp add: cap_inv_def)
    then show ?thesis using Run_inv_no_panic [OF r] gors_le [OF r] by (auto simp: Run_inv_def shared_ok_def)
  qed
  moreover have "mgrPtr s \<longrightarrow> length (sockets (mgr (cap_sh s))) = nat (ClampWorkers (captureWorkers cfg)) \<and> shared_ok (cap_sh s)"
    using inv by (auto simp: cap_inv_def cap_sh_def Run_inv_def Let_def split: cap_pc.splits)
  moreover have "(scrape s = Some 1 \<longleftrightarrow> (\<exists>r. cap_at s = CapRunning r) \<or> cap_at s \<in> {CapStoring, CapUnstoring, CapClosing, CapClearing})
    \<and> (mgrPtr s \<longleftrightarrow> (\<exists>r. cap_at s = CapRunning r) \<or> cap_at s = CapUnstoring) \<and> (cap_at s = CapReturned \<longrightarrow> cap_stop s)"
    using inv by (cases "cap_at s") (simp_all add: cap_inv_def)
  ultimately show ?thesis by (simp add: shared_ok_def handles_ok_def)
qed

text \<open>\<open>runCapture\<close> returns once \<open>stop\<close> is closed: from then on every schedule is finite and ends with the loop
  returned, the workers included.\<close>

lemma runCapture_stops:
  assumes "main_collector cfg = Some c" "captureWorkers cfg < 2 ^ 32"
    "(cap_step (captureWorkers cfg) (captureRingBytes cfg))\<^sup>*\<^sup>* (cap_init c local m) s" "cap_stop s"
  shows "(\<forall>n t. (cap_step (captureWorkers cfg) (captureRingBytes cfg) ^^ n) s t \<longrightarrow>
        n \<le> 4 * nat (ClampWorkers (captureWorkers cfg)) + 10)
    \<and> (\<forall>t. (cap_step (captureWorkers cfg) (captureRingBytes cfg))\<^sup>*\<^sup>* s t
         \<and> (\<nexists>u. cap_step (captureWorkers cfg) (captureRingBytes cfg) t u) \<longrightarrow> cap_at t = CapReturned)"
proof -
  have inv: "cap_inv (captureWorkers cfg) s"
    using capture_loop.inv_steps [OF assms(3) main_collector_ok [OF assms(1,2)]] .
  have "n \<le> 4 * nat (ClampWorkers (captureWorkers cfg)) + 10"
    if "(cap_step (captureWorkers cfg) (captureRingBytes cfg) ^^ n) s t" for n t
    using capture_loop.run_bounded [OF inv assms(4) that] cap_work_bound [OF inv, of 1] by simp
  then show ?thesis using capture_loop.stuck_finished [OF inv assms(4)] by blast
qed

text \<open>C27: the configuration round trip: a configuration written out as environment variables is read back
  unchanged, for every value in the range of \<open>int\<close>.\<close>

theorem config_roundtrip:
  assumes "cfg_geoipDir cfg \<noteq> []" "listenAddr cfg \<noteq> []" "1 \<le> captureWorkers cfg"
    "\<forall>n \<in> {cfg_asnTopN cfg, listenPort cfg, clientsPollInterval cfg, ntppoolPollInterval cfg, captureWorkers cfg, captureRingBytes cfg}. is_int n"
  shows "read_config (config_env cfg) = cfg"
proof -
  have "getenvInt (config_env cfg) ''NTP_ASN_TOP_N'' d = cfg_asnTopN cfg"
    "getenvInt (config_env cfg) ''LISTEN_PORT'' d = listenPort cfg"
    "getenvInt (config_env cfg) ''CLIENTS_POLL_INTERVAL'' d = clientsPollInterval cfg"
    "getenvInt (config_env cfg) ''NTPPOOL_POLL_INTERVAL'' d = ntppoolPollInterval cfg"
    "getenvInt (config_env cfg) ''NTP_CAPTURE_WORKERS'' d = captureWorkers cfg"
    "getenvInt (config_env cfg) ''NTP_CAPTURE_RING_BYTES'' d = captureRingBytes cfg" for d
    using assms(4) by (auto intro!: getenvInt_FormatInt simp: config_env_def)
  moreover have "getenv (config_env cfg) ''NTPPOOL_IPV4'' '''' = ntppoolIPv4 cfg"
    "getenv (config_env cfg) ''GEOIP_DIR'' d = cfg_geoipDir cfg" "getenv (config_env cfg) ''LISTEN_ADDR'' d = listenAddr cfg"
    "(getenv (config_env cfg) ''NTP_CAPTURE_DISABLED'' '''' = ''1'') = captureDisabled cfg" for d
    using assms(1,2) by (auto simp: getenv_def config_env_def)
  ultimately show ?thesis using assms(3) by (simp add: read_config_def ClampWorkers_def)
qed

definition default_config :: config where
  "default_config = read_config (\<lambda>_. [])"

lemma default_config_simps:
  "captureWorkers default_config = 4" "cfg_asnTopN default_config = 25" "clientsPollInterval default_config = 15"
  "ntppoolIPv4 default_config = []"
  by (simp_all add: default_config_def read_config_def getenvInt_def getenv_def ClampWorkers_def)

theorem config_roundtrip_witness: "read_config (config_env default_config) = default_config"
  by (rule config_roundtrip) (simp_all add: default_config_def read_config_def getenvInt_def getenv_def ClampWorkers_def is_int_def)

text \<open>Four workers with the handles 0 to 3.\<close>

definition example_ops :: "nat \<Rightarrow> nat opened" where
  "example_ops i = (Some i, True, True)"

text \<open>Steps that leave alone what the capture shares with the rest of the process.\<close>

definition silent_cap :: "config \<Rightarrow> 's cap_state \<Rightarrow> 's cap_state \<Rightarrow> bool" where
  "silent_cap cfg s t \<longleftrightarrow> cap_step (captureWorkers cfg) (captureRingBytes cfg) s t
     \<and> coll (cap_sh t) = coll (cap_sh s) \<and> addrs (cap_sh t) = addrs (cap_sh s)"

lemma silent_cap_steps:
  "(silent_cap cfg)\<^sup>*\<^sup>* s t \<Longrightarrow> (cap_step (captureWorkers cfg) (captureRingBytes cfg))\<^sup>*\<^sup>* s t"
  by (rule rtranclp_mono [THEN predicate2D]) (auto simp: silent_cap_def)

lemma silent_inner:
  assumes "silent_step\<^sup>*\<^sup>* r r'" "cap_at s = CapRunning r" "cap_stop s = stop_closed r"
  shows "\<exists>t. (silent_cap cfg)\<^sup>*\<^sup>* s t \<and> cap_at t = CapRunning r' \<and> cap_stop t = stop_closed r'"
  using assms(1)
proof (induction rule: rtranclp_induct)
  case (step r1 r2)
  then obtain t where t: "(silent_cap cfg)\<^sup>*\<^sup>* s t" "cap_at t = CapRunning r1" by blast
  let ?u = "t\<lparr>cap_at := CapRunning r2, cap_stop := stop_closed r2\<rparr>"
  have "cap_step (captureWorkers cfg) (captureRingBytes cfg) t ?u"
    by (rule cap_step.Inner [OF t(2)]) (use step(2) in \<open>simp add: silent_step_def\<close>)
  then have "silent_cap cfg t ?u" using step(2) t(2) by (simp add: silent_cap_def silent_step_def cap_sh_def)
  with t(1) show ?case by (intro exI [of _ ?u]) auto
qed (use assms(2,3) in blast)

lemma example_open:
  fixes m :: "nat Manager"
  shows "\<exists>s sh. (silent_cap default_config)\<^sup>*\<^sup>* (cap_init c local m) s \<and> cap_at s = CapRunning (Run_init sh False)
    \<and> \<not> cap_stop s \<and> coll sh = c \<and> addrs sh = local \<and> length (sockets (mgr sh)) = 4"
proof -
  let ?s = "cap_init c local m :: nat cap_state"
  let ?m = "new_manager (captureWorkers default_config) (captureRingBytes default_config) :: nat Manager"
  have h: "handed_out example_ops k = [0..<k]" for k by (induction k) (simp_all add: handed_out_def example_ops_def)
  then have new: "new_handles (base ?s) example_ops" by (simp add: new_handles_def cap_init_def)
  have "opens (example_ops i)" for i by (simp add: example_ops_def newSocket_cases)
  then obtain m' ev where o: "Open example_ops ?m = (m', True, [], ev)"
    using Open_outcome [OF refl, of ?m example_ops 0] by blast
  define sh where "sh = (base ?s)\<lparr>mgr := m', closed_socks := closed_socks (base ?s) @ [], emitted := emitted (base ?s) @ ev\<rparr>"
  define s1 where "s1 = ?s\<lparr>base := sh, cap_at := CapOpened\<rparr>"
  define s2 where "s2 = s1\<lparr>scrape := Some 1, cap_at := CapStoring\<rparr>"
  define s3 where "s3 = s2\<lparr>mgrPtr := True, cap_at := CapRunning (Run_init (base s2) (cap_stop s2))\<rparr>"
  note step = silent_cap_def cap_sh_def cap_init_def sh_def
  have "silent_cap default_config ?s s1"
    using cap_step.Open_ok [OF _ _ new o sh_def] by (simp add: step s1_def)
  moreover have "silent_cap default_config s1 s2"
    unfolding s2_def using cap_step.Open_set [of s1] by (simp add: step s1_def)
  moreover have "silent_cap default_config s2 s3"
    unfolding s3_def using cap_step.Store [of s2] by (simp add: step s2_def)
  ultimately have "(silent_cap default_config)\<^sup>*\<^sup>* ?s s3" by (meson rtranclp.rtrancl_into_rtrancl rtranclp.rtrancl_refl)
  moreover have "length (sockets m') = 4" using Open_cases [OF o] h by (simp add: new_manager_def default_config_simps ClampWorkers_def)
  ultimately show ?thesis
    by (intro exI [of _ s3] exI [of _ sh] conjI) (simp_all add: s3_def s2_def s1_def sh_def cap_init_def)
qed

theorem runCapture_health_witness:
  "\<exists>c (s :: nat cap_state) r. main_collector default_config = Some c
     \<and> (cap_step (captureWorkers default_config) (captureRingBytes default_config))\<^sup>*\<^sup>* (cap_init c (NewFixedLocalIPs [] 0) (new_manager 0 0)) s
     \<and> cap_at s = CapRunning r \<and> scrape s = Some 1 \<and> mgrPtr s \<and> length (sockets (mgr (cap_sh s))) = 4 \<and> \<not> Run_panics r"
proof -
  obtain c where c: "main_collector default_config = Some c" using fresh_collector by (auto simp: main_collector_def)
  from example_open obtain s :: "nat cap_state" and r where
    o: "(silent_cap default_config)\<^sup>*\<^sup>* (cap_init c (NewFixedLocalIPs [] 0) (new_manager 0 0)) s" and s: "cap_at s = CapRunning r" by blast
  have n: "captureWorkers default_config < 2 ^ 32" "nat (ClampWorkers (captureWorkers default_config)) = 4"
    by (simp_all add: default_config_simps ClampWorkers_def)
  from runCapture_health [OF c n(1) silent_cap_steps [OF o]] s n(2) have
    "scrape s = Some 1" "mgrPtr s" "length (sockets (mgr (cap_sh s))) = 4" "\<not> Run_panics r" by auto
  with c silent_cap_steps [OF o] s show ?thesis by blast
qed

text \<open>The flush loop never panics and keeps the collector well formed, whatever the managers and their
  counters do between ticks, provided the configured interval is positive; otherwise the ticker panics
  and takes the process down.\<close>

lemma flushForever_safe:
  assumes "Collector_ok c"
  shows "if 0 < every
    then \<exists>d c' ev. flushForever Log every tks (d0, c) = Some ((d, c'), ev) \<and> Collector_ok c'
      \<and> length (workers c') = length (workers c) \<and> list_all event_ok ev
    else flushForever Log every tks (d0, c) = None"
proof -
  have "\<exists>d c' ev. flush_ticks Log tks (d0, c) = Some ((d, c'), ev) \<and> Collector_ok c'
      \<and> length (workers c') = length (workers c) \<and> list_all event_ok ev"
    using assms
  proof (induction tks arbitrary: d0 c)
    case (Cons tk tks)
    obtain c1 l ev where f: "Flush Log (tick_now tk) (tick_wall1 tk) (tick_wall2 tk) (map_option (KernelDrops (tick_stats tk)) (tick_mgr tk))
        (Some d0) c = Some (c1, l, ev)" "Collector_ok c1" "list_all event_ok ev" "length (workers c1) = length (workers c)"
      using Flush_keeps [OF Cons.prems] by blast
    with Cons.IH [OF f(2), of "case l of None \<Rightarrow> d0 | Some d \<Rightarrow> d"] show ?case by (auto simp: flush_tick_def)
  qed simp
  then show ?thesis by (simp add: flushForever_def)
qed

text \<open>What the flush loop reads from the sockets of the managers published at its ticks: the sum of the drop
  counters that can be read. The drops between two readings are their difference, if it is positive.\<close>

definition readings :: "'s flush_env list \<Rightarrow> nat list" where
  "readings tks = concat (map (\<lambda>tk. case tick_mgr tk of None \<Rightarrow> []
     | Some m \<Rightarrow> [\<Sum>s \<leftarrow> sockets m. case tick_stats tk s of None \<Rightarrow> 0 | Some d \<Rightarrow> unat d]) tks)"

fun rises :: "nat \<Rightarrow> nat list \<Rightarrow> nat" where
  "rises d [] = 0"
| "rises d (r # rs) = (if d \<le> r then r - d else 0) + rises r rs"

lemma rises_sorted: "sorted (d # rs) \<Longrightarrow> rises d rs + d = last (d # rs)"
proof (induction rs arbitrary: d)
  case (Cons a rs)
  from Cons.IH [of a] Cons.prems show ?case by simp
qed simp

lemma KernelDrops_sum:
  fixes stats :: "'s \<Rightarrow> 32 word option"
  assumes "length (sockets m) \<le> 2 ^ 21"
  shows "unat (KernelDrops stats m) = (\<Sum>s \<leftarrow> sockets m. case stats s of None \<Rightarrow> 0 | Some d \<Rightarrow> unat d)"
    "unat (KernelDrops stats m) \<le> 2 ^ 21 * (2 ^ 32 - 1)"
proof -
  define drop where "drop = (\<lambda>s. case stats s of None \<Rightarrow> (0 :: nat) | Some d \<Rightarrow> unat d)"
  have u: "unat d < 2 ^ 32" for d :: "32 word" using unsigned_less [of d, where 'a = nat] by simp
  have d: "drop s \<le> 2 ^ 32 - 1" for s
  proof (cases "stats s")
    case (Some d)
    then show ?thesis using u [of d] by (simp add: drop_def)
  qed (simp add: drop_def)
  have le: "(\<Sum>s \<leftarrow> xs. drop s) \<le> length xs * (2 ^ 32 - 1)" for xs using d by (induction xs) (auto intro: add_mono)
  have fold: "unat (foldl (\<lambda>total s. case stats s of None \<Rightarrow> total | Some d \<Rightarrow> total + ucast d) t xs) = unat t + (\<Sum>s \<leftarrow> xs. drop s)"
    if "unat t + (\<Sum>s \<leftarrow> xs. drop s) < 2 ^ 64" for t :: u64 and xs
    using that
  proof (induction xs arbitrary: t)
    case (Cons x xs)
    show ?case
    proof (cases "stats x")
      case (Some d)
      have "unat (ucast d :: u64) = unat d" using u [of d] by (simp add: unsigned_ucast_eq take_bit_eq_mod)
      then have "unat (t + ucast d) = unat t + unat d" using Cons.prems Some by (simp add: drop_def unat_word_ariths(1))
      then show ?thesis using Cons Some by (simp add: drop_def)
    qed (use Cons in \<open>simp add: drop_def\<close>)
  qed simp
  have b: "(\<Sum>s \<leftarrow> sockets m. drop s) \<le> 2 ^ 21 * (2 ^ 32 - 1)" using le [of "sockets m"] assms by simp
  with fold [of 0 "sockets m"] show "unat (KernelDrops stats m) = (\<Sum>s \<leftarrow> sockets m. case stats s of None \<Rightarrow> 0 | Some d \<Rightarrow> unat d)"
    "unat (KernelDrops stats m) \<le> 2 ^ 21 * (2 ^ 32 - 1)" by (simp_all add: KernelDrops_def drop_def)
qed

lemma flush_drops_rise:
  assumes "unat cur < 2 ^ 53"
  shows "fst (flush_drops (Some cur) (Some prev)) = Some cur"
    "counted NtpCaptureKernelDropsTotal [] (snd (flush_drops (Some cur) (Some prev))) =
      of_nat (if unat prev \<le> unat cur then unat cur - unat prev else 0)"
  using assms fl_of_nat [of "unat cur - unat prev"]
  by (auto simp: flush_drops_def counted_single word_le_nat_alt unat_sub word_gt_0)

lemma flush_ticks_drops:
  assumes "Collector_ok c" "\<forall>tk \<in> set tks. \<forall>m. tick_mgr tk = Some m \<longrightarrow> length (sockets m) \<le> 2 ^ 21"
  shows "\<exists>d c' ev. flush_ticks Log tks (d0, c) = Some ((d, c'), ev)
    \<and> counted NtpCaptureKernelDropsTotal [] ev = of_nat (rises (unat d0) (readings tks))"
  using assms
proof (induction tks arbitrary: d0 c)
  case (Cons tk tks)
  let ?r = "map_option (KernelDrops (tick_stats tk)) (tick_mgr tk)"
  obtain c1 l ev where f: "Flush Log (tick_now tk) (tick_wall1 tk) (tick_wall2 tk) ?r (Some d0) c = Some (c1, l, ev)" "Collector_ok c1"
    using Flush_keeps [OF Cons.prems(1)] by blast
  let ?d = "case l of None \<Rightarrow> d0 | Some d \<Rightarrow> d"
  have drops: "l = fst (flush_drops ?r (Some d0))" "counted NtpCaptureKernelDropsTotal [] ev = counted NtpCaptureKernelDropsTotal [] (snd (flush_drops ?r (Some d0)))"
    using Flush_drops [OF Cons.prems(1) f(1)] by simp_all
  have "counted NtpCaptureKernelDropsTotal [] ev + of_nat (rises (unat ?d) (readings tks)) = of_nat (rises (unat d0) (readings (tk # tks)))"
  proof (cases "tick_mgr tk")
    case None
    then show ?thesis using drops by (simp add: flush_drops_def readings_def)
  next
    case (Some m)
    then have "length (sockets m) \<le> 2 ^ 21" using Cons.prems(2) by auto
    note k = KernelDrops_sum [OF this, of "tick_stats tk"]
    then have "unat (KernelDrops (tick_stats tk) m) < 2 ^ 53" by simp
    from flush_drops_rise [OF this, of d0] Some drops k(1) show ?thesis by (simp add: readings_def)
  qed
  with Cons.IH [OF f(2), of ?d] Cons.prems(2) f(1) show ?case by (fastforce simp: flush_tick_def)
qed (simp add: readings_def)

text \<open>C40: the accounting of the frames the kernel dropped. Over any number of flushes, whatever managers are published at
  the ticks, the amounts added to \<open>ntp_capture_kernel_drops_total\<close> are the increases from one reading of
  the socket counters to the next; so while the counters do not go back the counter is the last
  reading, and a reading below the one before, which a new socket gives, adds nothing.\<close>

theorem kernel_drops_published:
  assumes "Collector_ok c" "0 < every" "\<forall>tk \<in> set tks. \<forall>m. tick_mgr tk = Some m \<longrightarrow> length (sockets m) \<le> 2 ^ 21"
  shows "\<exists>d c' ev. flushForever Log every tks (0, c) = Some ((d, c'), ev)
    \<and> counted NtpCaptureKernelDropsTotal [] ev = of_nat (rises 0 (readings tks))
    \<and> (sorted (readings tks) \<longrightarrow> counted NtpCaptureKernelDropsTotal [] ev = of_nat (last (0 # readings tks)))"
proof -
  obtain d c' ev where f: "flush_ticks Log tks (0, c) = Some ((d, c'), ev)"
    "counted NtpCaptureKernelDropsTotal [] ev = of_nat (rises 0 (readings tks))"
    using flush_ticks_drops [OF assms(1,3), of Log 0] by auto
  moreover have "rises 0 (readings tks) = last (0 # readings tks)" if "sorted (readings tks)"
    using rises_sorted [of 0 "readings tks"] that by simp
  ultimately show ?thesis using assms(2) by (auto simp: flushForever_def)
qed

text \<open>One socket that counts to 5 and to 9; a tick between two managers; a new socket that counts to 2 and to 3.\<close>

definition example_ticks :: "nat flush_env list" where
  "example_ticks = map (\<lambda>d. \<lparr>tick_now = 0, tick_wall1 = 0, tick_wall2 = 0,
     tick_mgr = map_option (\<lambda>_. (new_manager 1 0)\<lparr>sockets := [0]\<rparr>) d, tick_stats = (\<lambda>_. d)\<rparr>) [Some 5, Some 9, None, Some 2, Some 3]"

theorem kernel_drops_published_witness:
  "\<exists>c d c' ev. Collector_New 25 1 = Some c \<and> flushForever (\<lambda>x. x - 1) Second example_ticks (0, c) = Some ((d, c'), ev)
     \<and> counted NtpCaptureKernelDropsTotal [] ev = 10"
proof -
  obtain c where c: "Collector_New 25 1 = Some c" "Collector_ok c" using fresh_collector [of 25 1] by auto
  have r: "readings example_ticks = [5, 9, 2, 3]" by (simp add: readings_def example_ticks_def)
  have "\<forall>tk \<in> set example_ticks. \<forall>m. tick_mgr tk = Some m \<longrightarrow> length (sockets m) \<le> 2 ^ 21" by (simp add: example_ticks_def)
  from kernel_drops_published [OF c(2) _ this, of Second "\<lambda>x. x - 1"] c(1) show ?thesis unfolding r by (auto simp: Second_def)
qed

lemma set_opt_call: "set (opt_call g v) = (case v of None \<Rightarrow> {} | Some x \<Rightarrow> set (g x))"
  by (simp add: opt_call_def split: option.splits)

lemma set_publish_monitor:
  "set (publish_monitor pool_setters ip (monitor, vals)) =
     {GaugeSet NtppoolMonitorScore [ip, monitor] v |v. Mon_Score vals = Some v}
     \<union> {GaugeSet NtppoolMonitorOffsetSeconds [ip, monitor] v |v. OffsetSeconds vals = Some v}
     \<union> {GaugeSet NtppoolMonitorRttSeconds [ip, monitor] v |v. RTTSeconds vals = Some v}"
  by (auto simp: publish_monitor_def set_opt_call pool_setters_def split: option.splits)

lemma set_publish_score: "set (opt_call (set_Score pool_setters ip) v) = {GaugeSet NtppoolScore [ip] x |x. v = Some x}"
  by (auto simp: set_opt_call pool_setters_def split: option.splits)

lemma PollOnce_gauges:
  assumes "\<forall>m. set (order2 env m) = set m" "e \<in> set (PollOnce env (NewPoller ip pool_setters))"
  shows "event_ok e \<and> (\<exists>m ls v. e = GaugeSet m ls v)"
proof -
  have s: "set_ScrapeSuccess pool_setters v = [GaugeSet NtppoolScrapeSuccess [] v]" for v by (simp add: pool_setters_def)
  show ?thesis
    using assms by (cases "fetch_scores env ip")
      (auto simp: PollOnce_def NewPoller_def s set_publish_score set_publish_monitor split: if_splits)
qed

text \<open>The calls that publish the values of a set of monitors.\<close>

definition monitor_gauges :: "string \<Rightarrow> (string \<times> Monitor) set \<Rightarrow> event set" where
  "monitor_gauges ip M =
     {GaugeSet NtppoolMonitorScore [ip, monitor] v |monitor vals v. (monitor, vals) \<in> M \<and> Mon_Score vals = Some v}
     \<union> {GaugeSet NtppoolMonitorOffsetSeconds [ip, monitor] v |monitor vals v. (monitor, vals) \<in> M \<and> OffsetSeconds vals = Some v}
     \<union> {GaugeSet NtppoolMonitorRttSeconds [ip, monitor] v |monitor vals v. (monitor, vals) \<in> M \<and> RTTSeconds vals = Some v}"

lemma monitor_gauges_insert:
  "monitor_gauges ip (insert (monitor, vals) M) = set (publish_monitor pool_setters ip (monitor, vals)) \<union> monitor_gauges ip M"
  unfolding monitor_gauges_def set_publish_monitor by blast

lemma set_publish_monitors:
  "set (concat (map (publish_monitor pool_setters ip) ms)) = monitor_gauges ip (set ms)"
proof (induction ms)
  case (Cons x ms)
  then show ?case by (cases x) (simp add: monitor_gauges_insert)
qed (simp add: monitor_gauges_def)

lemma PollOnce_fetched:
  assumes "ip \<noteq> []" "fetch_scores env ip = Some (parsed, v)" "\<forall>m. set (order2 env m) = set m"
  shows "\<exists>ev. PollOnce env (NewPoller ip pool_setters) = ev @ [GaugeSet NtppoolScrapeSuccess [] 1]
    \<and> set ev = {GaugeSet NtppoolScore [ip] x |x. v = Some x} \<union> monitor_gauges ip (set (pool_Monitors parsed))"
proof -
  let ?ev = "opt_call (set_Score pool_setters ip) v @ concat (map (publish_monitor pool_setters ip) (order2 env (pool_Monitors parsed)))"
  have "PollOnce env (NewPoller ip pool_setters) = ?ev @ [GaugeSet NtppoolScrapeSuccess [] 1]"
    using assms by (simp add: PollOnce_def NewPoller_def) (simp add: pool_setters_def)
  moreover have "set ?ev = {GaugeSet NtppoolScore [ip] x |x. v = Some x} \<union> monitor_gauges ip (set (pool_Monitors parsed))"
    by (simp only: set_append set_publish_monitors set_publish_score assms(3))
  ultimately show ?thesis by (intro exI [of _ ?ev] conjI)
qed

text \<open>C28: a poll is all or nothing. Without an address nothing happens. Unless both score pages of the server answer
  with a success status and a document that can be decoded, only the scrape gauge is set, to 0, and the
  last known scores stay. Otherwise the overall score is published, which is the one of the newest entry of
  the second document, and for every monitor name of the first document the values of the newest entry of a monitor that
  goes by that name (of the only one, if the names are different), and the scrape gauge is set to 1 last.
  Every call is one the metrics library accepts.\<close>

theorem PollOnce_publishes:
  assumes "\<forall>m. mset (order1 env m) = mset m" "\<forall>m. set (order2 env m) = set m"
    "url = ''https://www.ntppool.org/scores/'' @ ip @ ''/json?limit=10&monitor=*''"
    "overall = ''https://www.ntppool.org/scores/'' @ ip @ ''/json?limit=1''"
  shows "list_all event_ok (PollOnce env (NewPoller ip pool_setters))
    \<and> (ip = [] \<longrightarrow> PollOnce env (NewPoller ip pool_setters) = [])
    \<and> (ip \<noteq> [] \<and> \<not> ((\<exists>ms rs. serves env url ms rs) \<and> (\<exists>ms rs. serves env overall ms rs)) \<longrightarrow>
        PollOnce env (NewPoller ip pool_setters) = [GaugeSet NtppoolScrapeSuccess [] 0])
    \<and> (\<forall>ms rs oms ors. ip \<noteq> [] \<and> serves env url ms rs \<and> serves env overall oms ors \<longrightarrow>
        (\<exists>ev v M. PollOnce env (NewPoller ip pool_setters) = ev @ [GaugeSet NtppoolScrapeSuccess [] 1]
          \<and> set ev = {GaugeSet NtppoolScore [ip] x |x. v = Some x} \<union> monitor_gauges ip M \<and> newest_score ors v
          \<and> fst ` M = reported_name ms ` monitor_ids rs \<and> inj_on fst M \<and> M \<subseteq> report ms rs
          \<and> (inj_on (reported_name ms) (monitor_ids rs) \<longrightarrow> M = report ms rs)))" (is "_ \<and> _ \<and> ?down \<and> ?up")
proof -
  have urls: "url = URLTemplate ip" "overall = OverallURLTemplate ip"
    using assms(3,4) by (simp_all add: URLTemplate_def OverallURLTemplate_def URL_prefix_def)
  have ?down
  proof
    assume a: "ip \<noteq> [] \<and> \<not> ((\<exists>ms rs. serves env url ms rs) \<and> (\<exists>ms rs. serves env overall ms rs))"
    then have "fetch_scores env ip = None" using fetch_scores_served [of env ip] unfolding urls by fastforce
    with a show "PollOnce env (NewPoller ip pool_setters) = [GaugeSet NtppoolScrapeSuccess [] 0]"
      by (simp add: PollOnce_def NewPoller_def pool_setters_def)
  qed
  moreover have ?up
  proof (intro allI impI)
    fix ms rs oms ors assume a: "ip \<noteq> [] \<and> serves env url ms rs \<and> serves env overall oms ors"
    with fetch_scores_Some [OF _ _ assms(1), of ip ms rs oms ors] obtain parsed v where
      f: "fetch_scores env ip = Some (parsed, v)" and p: "distinct (map fst (pool_Monitors parsed))"
        "fst ` set (pool_Monitors parsed) = reported_name ms ` monitor_ids rs" "set (pool_Monitors parsed) \<subseteq> report ms rs"
        "newest_score ors v" unfolding urls by blast
    from PollOnce_fetched [OF _ f assms(2)] a obtain ev where
      "PollOnce env (NewPoller ip pool_setters) = ev @ [GaugeSet NtppoolScrapeSuccess [] 1]"
      "set ev = {GaugeSet NtppoolScore [ip] x |x. v = Some x} \<union> monitor_gauges ip (set (pool_Monitors parsed))" by blast
    with p show "\<exists>ev v M. PollOnce env (NewPoller ip pool_setters) = ev @ [GaugeSet NtppoolScrapeSuccess [] 1]
        \<and> set ev = {GaugeSet NtppoolScore [ip] x |x. v = Some x} \<union> monitor_gauges ip M \<and> newest_score ors v
        \<and> fst ` M = reported_name ms ` monitor_ids rs \<and> inj_on fst M \<and> M \<subseteq> report ms rs
        \<and> (inj_on (reported_name ms) (monitor_ids rs) \<longrightarrow> M = report ms rs)"
      using report_complete [OF _ p(2,3)]
      by (intro exI [of _ ev] exI [of _ v] exI [of _ "set (pool_Monitors parsed)"]) (simp add: distinct_map)
  qed
  moreover have "ip = [] \<longrightarrow> PollOnce env (NewPoller ip pool_setters) = []" by (simp add: PollOnce_def NewPoller_def)
  ultimately show ?thesis using PollOnce_gauges [OF assms(2)] by (auto simp: list_all_iff)
qed

text \<open>Two pages that are served, and a second one that answers with status 503.\<close>

definition example_env :: "int \<Rightarrow> poll_env" where
  "example_env status = \<lparr>http = (\<lambda>url. Response (if url = OverallURLTemplate ''192.0.2.1'' then status else 200) (Some [])),
     json = example_decoder, order1 = rev, order2 = rev\<rparr>"

theorem PollOnce_publishes_witness:
  "(\<exists>ev. PollOnce (example_env 200) (NewPoller ''192.0.2.1'' pool_setters) = ev @ [GaugeSet NtppoolScrapeSuccess [] 1]
      \<and> GaugeSet NtppoolScore [''192.0.2.1''] 19 \<in> set ev)
   \<and> PollOnce (example_env 503) (NewPoller ''192.0.2.1'' pool_setters) = [GaugeSet NtppoolScrapeSuccess [] 0]"
proof -
  let ?ms = "[\<lparr>m_ID = Some 7, m_Name = Some ''zur1''\<rparr>, \<lparr>m_ID = Some 8, m_Name = Some ''''\<rparr>]"
  let ?url = "''https://www.ntppool.org/scores/'' @ ''192.0.2.1'' @ ''/json?limit=10&monitor=*''"
  let ?overall = "''https://www.ntppool.org/scores/'' @ ''192.0.2.1'' @ ''/json?limit=1''"
  have o: "\<forall>m. mset (order1 (example_env st) m) = mset m" "\<forall>m. set (order2 (example_env st) m) = set m" for st
    by (simp_all add: example_env_def)
  have u: "OverallURLTemplate ''192.0.2.1'' = ?overall" by (simp add: OverallURLTemplate_def URL_prefix_def)
  have served: "serves (example_env 200) url ?ms example_entries" for url
    by (simp add: serves_def example_env_def example_decoder_def example_entries_def readable_def)
  have unserved: "\<not> serves (example_env 503) ?overall ms rs" for ms rs
    unfolding serves_def by (simp add: example_env_def u)
  note poll = PollOnce_publishes [OF o refl refl, of _ "''192.0.2.1''", THEN conjunct2, THEN conjunct2]
  have down: "PollOnce (example_env 503) (NewPoller ''192.0.2.1'' pool_setters) = [GaugeSet NtppoolScrapeSuccess [] 0]"
    by (rule poll [THEN conjunct1, THEN mp]) (use unserved in simp)
  have ne: "''192.0.2.1'' \<noteq> []" by simp
  obtain ev v M where
    ev: "PollOnce (example_env 200) (NewPoller ''192.0.2.1'' pool_setters) = ev @ [GaugeSet NtppoolScrapeSuccess [] 1]"
      "set ev = {GaugeSet NtppoolScore [''192.0.2.1''] x |x. v = Some x} \<union> monitor_gauges ''192.0.2.1'' M" "newest_score example_entries v"
    using poll [THEN conjunct2, rule_format, OF conjI [OF ne conjI [OF served served]]] by (elim exE conjE) (rule that)
  have "example_entries \<noteq> []" by (simp add: example_entries_def)
  with ev(3) obtain r where r: "newest_entry example_entries r" "v = fst (snd r)" unfolding newest_score_def by (simp only: if_False) blast
  from newest_entry_unique [OF r(1) example_newest(3)] r(2) have "v = Some 19" by simp
  then have "GaugeSet NtppoolScore [''192.0.2.1''] 19 \<in> set ev" unfolding ev(2) by (intro UnI1) blast
  with ev(1) down show ?thesis by (intro conjI exI [of _ ev])
qed

text \<open>\<open>main\<close> never returns: it ends with the process, in \<open>log.Fatalf\<close> or a panic, or goes on polling. The
  poller's loop ignores \<open>stop\<close>, so this holds after a signal has closed \<open>stop\<close> and the capture workers have
  exited, too.\<close>

lemma main_never_returns: "Returned \<notin> exporter_main env listen serve_fails envs"
  by (simp add: exporter_main_def Let_def RunForever_never_returns)

end
