(* ===== verification/Interleaving.thy ===== *)
theory Interleaving
  imports Clients
begin

section \<open>The collector under concurrency\<close>

text \<open>
  \<open>HandleFrame\<close> runs on every capture goroutine and \<open>Flush\<close> on another one. Both are sequences of
  atomic actions (\<open>exec\<close>), so their concurrent runs are the interleavings of such sequences: the
  step relation \<open>step\<close> lets any goroutine perform its next action or start a new handler. Running a
  program alone is the handler (\<open>handlers_are_programs\<close>); invariants of all interleavings are proved
  by rule induction over \<open>reachable\<close>.
\<close>

subsection \<open>Atomic actions\<close>

text \<open>The actions a goroutine performs on the collector, each atomic in the Go program: one atomic
  instruction, one critical section, one metric call, or work on the goroutine's own variables.\<close>

datatype action =
    Tick time | Cas int time | Sweep nat time | Emit event
  | CountRequest nat GeoResult string string | Touch string time | Unique string time | Put string bytes time
  | CountResponse nat GeoResult | Take string bytes time
  | Drain nat | ReadDrops "u64 option" | PublishRequests | AsnTotals | PublishRest
  | Evict nat time | SetActive | MergeHours "float64 \<Rightarrow> float64" time

text \<open>The variables of a goroutine in \<open>Flush\<close>: the snapshot, the top AS numbers, the count of active
  clients, and the drop counter \<open>lastDrops\<close> points to.\<close>

record locals =
  acc :: workerCounters
  topset :: "(int, bool) gomap"
  actives :: nat
  drops :: "u64 option"

text \<open>One action: the new state, the metric calls, and the actions it puts in front of the rest.\<close>

fun exec :: "action \<Rightarrow> Collector \<times> locals \<Rightarrow> ((Collector \<times> locals) \<times> event list \<times> action list) option" where
  "exec (Tick ts) (c, t) =
     (let (c', n) = tick c in Some ((c', t), [], if n \<ge> PendingSweepEvery then [Cas n ts] else []))"
| "exec (Cas n ts) (c, t) =
     (let (c', doSweep) = cas_reset n c
      in Some ((c', t), [], if doSweep then map (\<lambda>i. Sweep i (ts - PendingTTL)) [0..<NumShards] else []))"
| "exec (Sweep i cutoff) (c, t) = Some ((upd_shard i (sweep_shard cutoff) c, t), [], [])"
| "exec (Emit e) (c, t) = Some ((c, t), [e], [])"
| "exec (CountRequest wi geo fam ver) (c, t) =
     (if wi < length (workers c) then Some ((upd_worker wi (count_request geo fam ver) c, t), [], []) else None)"
| "exec (Touch ip now) (c, t) =
     (let (c', ev) = on_shard ip (touch_active ip now) c in Some ((c', t), ev, []))"
| "exec (Unique ip w) (c, t) = map_option (\<lambda>c'. ((c', t), [], [])) (add_unique ip w c)"
| "exec (Put ip x ts) (c, t) =
     (let (c', ev) = on_shard ip (put_pending ip x ts) c in Some ((c', t), ev, []))"
| "exec (CountResponse wi geo) (c, t) =
     (if wi < length (workers c) then Some ((upd_worker wi (count_response geo) c, t), [], []) else None)"
| "exec (Take ip x ts) (c, t) =
     (let (c', ev) = on_shard ip (take_pending ip x ts) c in Some ((c', t), ev, []))"
| "exec (Drain i) (c, t) =
     (if i < length (workers c)
      then let (c', a) = drain_worker i (c, acc t) in Some ((c', t\<lparr>acc := a\<rparr>), [], []) else None)"
| "exec (ReadDrops r) (c, t) =
     (let (l, ev) = flush_drops r (drops t) in Some ((c, t\<lparr>drops := l\<rparr>), ev, []))"
| "exec PublishRequests (c, t) = Some ((c, t), publish_requests (acc t), [])"
| "exec AsnTotals (c, t) = (let (c', top) = flush_asn (acc t) c in Some ((c', t\<lparr>topset := top\<rparr>), [], []))"
| "exec PublishRest (c, t) =
     Some ((c, t), publish_asn (topset t) (acc t) @ publish_version (acc t) @ publish_family (acc t), [])"
| "exec (Evict i cutoff) (c, t) =
     (let (c', n) = evict_one cutoff i (c, actives t) in Some ((c', t\<lparr>actives := n\<rparr>), [], []))"
| "exec SetActive (c, t) = Some ((c, t), [GaugeSet NtpClientsActive [] (fl (of_nat (actives t)))], [])"
| "exec (MergeHours Log w) (c, t) = map_option (\<lambda>(c', ev). ((c', t), ev, [])) (flush_unique Log w c)"

text \<open>The programs of the two handlers.\<close>

definition frame_prog ::
    "(string \<Rightarrow> GeoResult) \<Rightarrow> time \<Rightarrow> time \<Rightarrow> nat \<Rightarrow> string \<Rightarrow> string \<Rightarrow> string \<Rightarrow> string \<Rightarrow> bytes option \<Rightarrow> time \<Rightarrow> action list" where
  "frame_prog R now wall wi d ip fam ver xid ts =
     [Tick ts, Emit (Inc NtpCapturePacketsTotal [d])] @
     (if d = ''request''
      then [CountRequest wi (R ip) fam ver, Touch ip now, Unique ip wall] @
           (case xid of None \<Rightarrow> [] | Some x \<Rightarrow> [Put ip x ts])
      else CountResponse wi (R ip) # (case xid of None \<Rightarrow> [] | Some x \<Rightarrow> [Take ip x ts]))"

definition flush_prog ::
    "nat \<Rightarrow> (float64 \<Rightarrow> float64) \<Rightarrow> time \<Rightarrow> time \<Rightarrow> time \<Rightarrow> u64 option \<Rightarrow> action list" where
  "flush_prog n Log now wall1 wall2 r =
     map Drain [0..<n] @ [ReadDrops r, PublishRequests, AsnTotals, PublishRest] @
     map (\<lambda>i. Evict i (now - ActiveWindow)) [0..<NumShards] @ [SetActive] @
     map (\<lambda>i. Sweep i (wall1 - PendingTTL)) [0..<NumShards] @ [MergeHours Log wall2]"

text \<open>A goroutine running alone.\<close>

fun weight :: "action \<Rightarrow> nat" where
  "weight (Tick ts) = NumShards + 3"
| "weight (Cas n ts) = NumShards + 2"
| "weight _ = 1"

lemma exec_weight: "exec a s = Some (s', ev, extra) \<Longrightarrow> sum_list (map weight extra) < weight a"
  by (cases s, cases a) (auto simp: Let_def comp_def sum_list_triv split: prod.splits if_splits)

function run_prog :: "action list \<Rightarrow> Collector \<times> locals \<Rightarrow> ((Collector \<times> locals) \<times> event list) option" where
  "run_prog [] s = Some (s, [])"
| "run_prog (a # as) s =
     (case exec a s of None \<Rightarrow> None
      | Some (s', ev, extra) \<Rightarrow> map_option (\<lambda>r. (fst r, ev @ snd r)) (run_prog (extra @ as) s'))"
  by pat_completeness auto
termination
  by (relation "measure (\<lambda>(as, s). sum_list (map weight as))") (auto dest: exec_weight)

lemma run_prog_append:
  "run_prog (as @ bs) s =
     (case run_prog as s of None \<Rightarrow> None
      | Some (s', ev) \<Rightarrow> map_option (\<lambda>r. (fst r, ev @ snd r)) (run_prog bs s'))"
proof (induction as s rule: run_prog.induct)
  case (1 s)
  then show ?case by (cases "run_prog bs s") auto
next
  case (2 a as s)
  show ?case
  proof (cases "exec a s")
    case (Some r)
    obtain s' ev extra where r: "r = (s', ev, extra)" by (cases r)
    have IH: "run_prog ((extra @ as) @ bs) s' =
        (case run_prog (extra @ as) s' of None \<Rightarrow> None
         | Some (s', ev) \<Rightarrow> map_option (\<lambda>r. (fst r, ev @ snd r)) (run_prog bs s'))"
      by (rule 2 [OF Some [unfolded r] refl refl])
    then show ?thesis
      using Some r by (cases "run_prog (extra @ as) s'") (auto simp: option.map_comp comp_def case_prod_beta split: option.splits)
  qed simp
qed

lemma run_prog_sweeps:
  "run_prog (map (\<lambda>i. Sweep i cutoff) is) (c, t) = Some ((foldl (\<lambda>c i. upd_shard i (sweep_shard cutoff) c) c is, t), [])"
  by (induction "is" arbitrary: c) simp_all

lemma run_prog_maybe_sweep:
  assumes "Collector_ok c"
  shows "run_prog [Tick ts] (c, t) = Some ((maybe_sweep ts c, t), [])"
proof -
  have "length (shards c) = NumShards" using assms by (simp add: Collector_ok_def)
  then show ?thesis
    by (simp add: maybe_sweep_def tick_def cas_reset_def run_prog_sweeps sweep_pending_def Let_def)
qed

lemma run_prog_Cons: "exec a s = Some (s', ev, []) \<Longrightarrow>
   run_prog (a # as) s = map_option (\<lambda>r. (fst r, ev @ snd r)) (run_prog as s')"
  by simp

lemma frame_prog_runs:
  assumes "Collector_ok c" "wi < length (workers c)"
  shows "run_prog (frame_prog R now wall wi d ip fam ver xid ts) (c, t) =
    map_option (\<lambda>(c', ev). ((c', t), ev)) (HandleFrame R now wall wi d ip fam ver xid ts c)"
proof -
  have "run_prog (frame_prog R now wall wi d ip fam ver xid ts) (c, t) =
      run_prog (tl (frame_prog R now wall wi d ip fam ver xid ts)) (maybe_sweep ts c, t)"
    using run_prog_append [of "[Tick ts]" "tl (frame_prog R now wall wi d ip fam ver xid ts)" "(c, t)"]
      run_prog_maybe_sweep [OF assms(1), of ts t] by (simp add: frame_prog_def option.map_ident_strong case_prod_beta)
  then show ?thesis
    using assms(2)
    by (cases xid) (auto simp: frame_prog_def HandleFrame_def Let_def case_prod_beta option.map_comp comp_def
        split: option.split bind_splits)
qed

text \<open>The variables of \<open>Flush\<close> when it starts.\<close>

definition fresh_locals :: "locals \<Rightarrow> locals" where
  "fresh_locals t = t\<lparr>acc := newWorkerCounters, topset := [], actives := 0\<rparr>"

lemma run_prog_drains:
  "\<forall>i \<in> set is. i < length (workers c) \<Longrightarrow> run_prog (map Drain is) (c, t) =
     (let (c', a) = foldl (\<lambda>s i. drain_worker i s) (c, acc t) is in Some ((c', t\<lparr>acc := a\<rparr>), []))"
proof (induction "is" arbitrary: c t)
  case (Cons i "is")
  obtain c1 a where d: "drain_worker i (c, acc t) = (c1, a)" by (cases "drain_worker i (c, acc t)")
  then have "length (workers c1) = length (workers c)" by (auto simp: drain_worker_def)
  then show ?case
    using Cons.IH [of c1 "t\<lparr>acc := a\<rparr>"] Cons.prems d by (simp add: Let_def case_prod_beta)
qed simp

lemma run_prog_evicts:
  "run_prog (map (\<lambda>i. Evict i cutoff) is) (c, t) =
     (let (c', n) = foldl (\<lambda>s i. evict_one cutoff i s) (c, actives t) is in Some ((c', t\<lparr>actives := n\<rparr>), []))"
proof (induction "is" arbitrary: c t)
  case (Cons i "is")
  obtain c1 n where d: "evict_one cutoff i (c, actives t) = (c1, n)" by (cases "evict_one cutoff i (c, actives t)")
  then show ?case
    using Cons.IH [of c1 "t\<lparr>actives := n\<rparr>"] by (simp add: Let_def case_prod_beta)
qed simp

lemma length_evict_active: "length (shards (fst (evict_active cutoff c))) = length (shards c)"
  by (simp add: evict_active_eq)

lemma flush_prog_runs:
  assumes "Collector_ok c" "Flush Log now wall1 wall2 r (drops t) c = Some (c', l', ev)"
  shows "\<exists>t'. run_prog (flush_prog (length (workers c)) Log now wall1 wall2 r) (c, fresh_locals t) = Some ((c', t'), ev)
    \<and> drops t' = l'"
proof -
  have len: "length (shards c) = NumShards" using assms(1) by (simp add: Collector_ok_def)
  obtain c1 s where s: "flush_snapshot c = (c1, s)" by (cases "flush_snapshot c")
  obtain l e1 where d: "flush_drops r (drops t) = (l, e1)" by (cases "flush_drops r (drops t)")
  obtain c2 top where a: "flush_asn s c1 = (c2, top)" by (cases "flush_asn s c1")
  obtain c3 n where e: "evict_active (now - ActiveWindow) c2 = (c3, n)" by (cases "evict_active (now - ActiveWindow) c2")
  have "shards c1 = shards c" using s by (auto simp: flush_snapshot_eq)
  then have sh: "shards c2 = shards c" "length (shards c3) = NumShards"
    using a e len flush_asn_simps(2) [of s c1] length_evict_active [of "now - ActiveWindow" c2] by simp_all
  obtain e5 where m: "flush_unique Log wall2 (sweep_pending (wall1 - PendingTTL) c3) = Some (c', e5)"
    and ev: "ev = e1 @ publish_requests s @ (publish_asn top s @ publish_version s @ publish_family s)
      @ [GaugeSet NtpClientsActive [] (fl (of_nat n))] @ e5" "l' = l"
    using assms(2) by (auto simp: Flush_def s d a e split: bind_splits)
  have 1: "run_prog (map Drain [0..<length (workers c)]) (c, fresh_locals t) = Some ((c1, (fresh_locals t)\<lparr>acc := s\<rparr>), [])"
    using s by (simp add: run_prog_drains flush_snapshot_def fresh_locals_def)
  have 2: "run_prog (map (\<lambda>i. Evict i (now - ActiveWindow)) [0..<NumShards]) (c2, t') =
      Some ((c3, t'\<lparr>actives := n\<rparr>), [])" if "actives t' = 0" for t'
    using e that len sh by (simp add: run_prog_evicts evict_active_def)
  have 3: "run_prog (map (\<lambda>i. Sweep i (wall1 - PendingTTL)) [0..<NumShards]) (c3, t') =
      Some ((sweep_pending (wall1 - PendingTTL) c3, t'), [])" for t'
    using sh by (simp add: run_prog_sweeps sweep_pending_def)
  show ?thesis
    unfolding flush_prog_def run_prog_append 1
    by (simp add: run_prog_append 2 3 d a m ev fresh_locals_def)
qed

subsection \<open>Interleavings\<close>

text \<open>Any number of goroutines, each with its variables and the rest of its program; \<open>trace\<close> is the
  sequence of metric calls and \<open>performed\<close> the sequence of actions so far.\<close>

record system =
  collector :: Collector
  threads :: "(locals \<times> action list) list"
  trace :: "event list"
  performed :: "action list"

inductive step :: "nat \<Rightarrow> system \<Rightarrow> system \<Rightarrow> bool" for n :: nat where
  start_frame: "i < length (threads s) \<Longrightarrow> threads s ! i = (t, []) \<Longrightarrow> wi < n \<Longrightarrow>
    step n s (s\<lparr>threads := (threads s)[i := (t, frame_prog R now wall wi d ip fam ver xid ts)]\<rparr>)"
| start_flush: "i < length (threads s) \<Longrightarrow> threads s ! i = (t, []) \<Longrightarrow>
    step n s (s\<lparr>threads := (threads s)[i := (fresh_locals t, flush_prog n Log now wall1 wall2 r)]\<rparr>)"
| act: "i < length (threads s) \<Longrightarrow> threads s ! i = (t, a # as) \<Longrightarrow>
    exec a (collector s, t) = Some ((c', t'), ev, extra) \<Longrightarrow>
    step n s (s\<lparr>collector := c', threads := (threads s)[i := (t', extra @ as)],
      trace := trace s @ ev, performed := performed s @ [a]\<rparr>)"

inductive reachable :: "nat \<Rightarrow> system \<Rightarrow> system \<Rightarrow> bool" for n :: nat and s0 :: system where
  init: "reachable n s0 s0"
| later: "reachable n s0 s \<Longrightarrow> step n s s' \<Longrightarrow> reachable n s0 s'"

text \<open>A well-formed action for \<open>n\<close> workers.\<close>

fun action_ok :: "nat \<Rightarrow> action \<Rightarrow> bool" where
  "action_ok n (CountRequest wi geo fam ver) \<longleftrightarrow> wi < n"
| "action_ok n (CountResponse wi geo) \<longleftrightarrow> wi < n"
| "action_ok n (Drain i) \<longleftrightarrow> i < n"
| "action_ok n (Sweep i cutoff) \<longleftrightarrow> i < NumShards"
| "action_ok n (Evict i cutoff) \<longleftrightarrow> i < NumShards"
| "action_ok n (Emit e) \<longleftrightarrow> (\<exists>d. e = Inc NtpCapturePacketsTotal [d])"
| "action_ok n _ \<longleftrightarrow> True"

definition thread_ok :: "nat \<Rightarrow> locals \<times> action list \<Rightarrow> bool" where
  "thread_ok n th \<longleftrightarrow> counters_ok (acc (fst th)) \<and> list_all (action_ok n) (snd th)"

definition system_ok :: "nat \<Rightarrow> system \<Rightarrow> bool" where
  "system_ok n s \<longleftrightarrow> Collector_ok (collector s) \<and> length (workers (collector s)) = n
     \<and> list_all (thread_ok n) (threads s) \<and> list_all event_ok (trace s)"

lemma frame_prog_ok: "wi < n \<Longrightarrow> list_all (action_ok n) (frame_prog R now wall wi d ip fam ver xid ts)"
  by (auto simp: frame_prog_def split: option.split)

lemma flush_prog_ok: "list_all (action_ok n) (flush_prog n Log now wall1 wall2 r)"
  by (auto simp: flush_prog_def list_all_iff)

text \<open>Every action is defined and keeps the collector and the goroutine well formed: those on a shard, those on the
  counters, and the others.\<close>

fun shard_action :: "action \<Rightarrow> bool" where
  "shard_action (Sweep i cutoff) \<longleftrightarrow> True"
| "shard_action (Touch ip now) \<longleftrightarrow> True"
| "shard_action (Put ip x ts) \<longleftrightarrow> True"
| "shard_action (Take ip x ts) \<longleftrightarrow> True"
| "shard_action (Evict i cutoff) \<longleftrightarrow> True"
| "shard_action _ \<longleftrightarrow> False"

fun counter_action :: "action \<Rightarrow> bool" where
  "counter_action (CountRequest wi geo fam ver) \<longleftrightarrow> True"
| "counter_action (CountResponse wi geo) \<longleftrightarrow> True"
| "counter_action (Drain i) \<longleftrightarrow> True"
| "counter_action AsnTotals \<longleftrightarrow> True"
| "counter_action _ \<longleftrightarrow> False"

lemma exec_ok_shard:
  assumes "Collector_ok c" "length (workers c) = n" "counters_ok (acc t)" "action_ok n a" "shard_action a"
  shows "\<exists>c' t' ev extra. exec a (c, t) = Some ((c', t'), ev, extra) \<and> Collector_ok c' \<and> length (workers c') = n
    \<and> counters_ok (acc t') \<and> list_all event_ok ev \<and> list_all (action_ok n) extra"
proof (cases a)
  case (Sweep i cutoff)
  then show ?thesis
    using assms Collector_ok_upd_shard [OF assms(1), of i "sweep_shard cutoff"] shard_ok_sweep
    by (simp add: upd_shard_def)
next
  case (Touch ip now)
  then show ?thesis
    using assms touch.Collector_ok_on_shard [OF assms(1), of ip now] touch.events_ok [of ip now c] by (auto simp: case_prod_beta)
next
  case (Put ip x ts)
  then show ?thesis
    using assms put.Collector_ok_on_shard [OF assms(1), of ip x ts] put.events_ok [of ip x ts c] by (auto simp: case_prod_beta)
next
  case (Take ip x ts)
  then show ?thesis
    using assms take_op.Collector_ok_on_shard [OF assms(1), of ip x ts] take_op.events_ok [of ip x ts c] by (auto simp: case_prod_beta)
next
  case (Evict i cutoff)
  have "Collector_ok (upd_shard i (evict_shard cutoff) c)"
    using assms Evict by (intro Collector_ok_upd_shard shard_ok_evict) auto
  then show ?thesis using assms Evict by (auto simp: evict_one_def Let_def upd_shard_def)
qed (use assms in simp_all)

lemma exec_ok_counter:
  assumes "Collector_ok c" "length (workers c) = n" "counters_ok (acc t)" "action_ok n a" "counter_action a"
  shows "\<exists>c' t' ev extra. exec a (c, t) = Some ((c', t'), ev, extra) \<and> Collector_ok c' \<and> length (workers c') = n
    \<and> counters_ok (acc t') \<and> list_all event_ok ev \<and> list_all (action_ok n) extra"
proof (cases a)
  case (CountRequest wi geo fam ver)
  then show ?thesis using assms by (auto intro!: Collector_ok_upd_worker counters_ok_count_request)
next
  case (CountResponse wi geo)
  then show ?thesis using assms by (auto intro!: Collector_ok_upd_worker counters_ok_count_response)
next
  case (Drain i)
  have "counters_ok (workers c ! i)" if "i < length (workers c)"
    using assms(1) that by (simp add: Collector_ok_def)
  then show ?thesis
    using assms Drain by (auto simp: drain_worker_def intro!: Collector_ok_upd_worker counters_ok_drain)
next
  case AsnTotals
  have "pos_map (asnTotals c)" "pos_map (asnRequests (acc t))"
    using assms by (auto simp: Collector_ok_def counters_ok_def)
  from flush_asn_totals [OF this] have "Collector_ok (fst (flush_asn (acc t) c))"
    using assms(1) by (auto simp: Collector_ok_def)
  then show ?thesis using assms AsnTotals by (auto simp: case_prod_beta)
qed (use assms in simp_all)

lemma exec_ok:
  assumes "Collector_ok c" "length (workers c) = n" "counters_ok (acc t)" "action_ok n a"
  shows "\<exists>c' t' ev extra. exec a (c, t) = Some ((c', t'), ev, extra) \<and> Collector_ok c' \<and> length (workers c') = n
    \<and> counters_ok (acc t') \<and> list_all event_ok ev \<and> list_all (action_ok n) extra"
proof (cases a)
  case (Tick ts)
  then show ?thesis using assms by (auto simp: tick_def Collector_ok_def)
next
  case (Cas m ts)
  then show ?thesis using assms by (auto simp: cas_reset_def Collector_ok_def list_all_iff)
next
  case (Emit e)
  then show ?thesis using assms by auto
next
  case (Unique ip w)
  then show ?thesis using assms add_unique_ok [OF assms(1), of ip w] by auto
next
  case (ReadDrops r)
  then show ?thesis using assms flush_drops_ok [of r "drops t"] by (auto simp: case_prod_beta)
next
  case PublishRequests
  then show ?thesis using assms publish_ok(1) by auto
next
  case PublishRest
  then show ?thesis using assms publish_ok(2-4) by auto
next
  case SetActive
  then show ?thesis using assms by auto
next
  case (MergeHours Log w)
  then show ?thesis using assms flush_unique_eq [OF assms(1), of w Log] by auto
qed (rule exec_ok_shard [OF assms] exec_ok_counter [OF assms]; simp)+

lemma list_all_update: "list_all P xs \<Longrightarrow> P x \<Longrightarrow> list_all P (xs[i := x])"
  using set_update_subset_insert [of xs i x] by (auto simp: list_all_iff)

lemma thread_ok_nth: "system_ok n s \<Longrightarrow> i < length (threads s) \<Longrightarrow> thread_ok n (threads s ! i)"
  by (simp add: system_ok_def list_all_length)

text \<open>A goroutine takes up a new program, or another one makes metric calls.\<close>

lemma set_prog_ok: "system_ok n s \<Longrightarrow> thread_ok n th \<Longrightarrow> system_ok n (s\<lparr>threads := (threads s)[i := th]\<rparr>)"
  by (simp add: system_ok_def list_all_update)

lemma extend_trace_ok: "system_ok n s \<Longrightarrow> list_all event_ok ev \<Longrightarrow> system_ok n (s\<lparr>trace := trace s @ ev\<rparr>)"
  by (simp add: system_ok_def)

lemma step_ok: "step n s s' \<Longrightarrow> system_ok n s \<Longrightarrow> system_ok n s'"
proof (induction rule: step.induct)
  case (start_frame i s t wi R now wall d ip fam ver xid ts)
  have "thread_ok n (t, frame_prog R now wall wi d ip fam ver xid ts)"
    using thread_ok_nth [OF start_frame.prems start_frame(1)] start_frame(2,3) by (simp add: thread_ok_def frame_prog_ok)
  then show ?case using start_frame by (intro set_prog_ok)
next
  case (start_flush i s t Log now wall1 wall2 r)
  have "thread_ok n (fresh_locals t, flush_prog n Log now wall1 wall2 r)"
    by (simp add: thread_ok_def flush_prog_ok fresh_locals_def)
  then show ?case using start_flush by (intro set_prog_ok)
next
  case (act i s t a as c' t' ev extra)
  have "thread_ok n (t, a # as)"
    using thread_ok_nth [OF act.prems act(1)] act(2) by simp
  moreover have "Collector_ok (collector s)" "length (workers (collector s)) = n"
    using act.prems by (simp_all add: system_ok_def)
  ultimately have "Collector_ok c'" "length (workers c') = n" "thread_ok n (t', extra @ as)" "list_all event_ok ev"
    using exec_ok [of "collector s" n t a] act(3) by (simp_all add: thread_ok_def)
  then show ?case using act.prems by (simp add: system_ok_def list_all_update)
qed

lemma reachable_ok: "reachable n s0 s \<Longrightarrow> system_ok n s0 \<Longrightarrow> system_ok n s"
  by (induction rule: reachable.induct) (auto intro: step_ok)

lemma step_enabled:
  assumes "system_ok n s" "i < length (threads s)" "threads s ! i = (t, a # as)"
  shows "\<exists>c' t' ev extra. exec a (collector s, t) = Some ((c', t'), ev, extra)"
  using exec_ok [of "collector s" n t a] thread_ok_nth [OF assms(1,2)] assms(1,3) by (auto simp: system_ok_def thread_ok_def)

subsection \<open>Conservation under interleaving\<close>

text \<open>What a goroutine holds of the requests of country \<open>k\<close> between draining and publishing, and
  the shape of its program: everything it drains is published later, once.\<close>

definition in_flight :: "countryKey \<Rightarrow> locals \<times> action list \<Rightarrow> int" where
  "in_flight k th = (if PublishRequests \<in> set (snd th) then getz (requests (acc (fst th))) k else 0)"

fun publishes_once :: "action list \<Rightarrow> bool" where
  "publishes_once [] \<longleftrightarrow> True"
| "publishes_once (Drain i # as) \<longleftrightarrow> PublishRequests \<in> set as \<and> publishes_once as"
| "publishes_once (PublishRequests # as) \<longleftrightarrow> PublishRequests \<notin> set as \<and> publishes_once as"
| "publishes_once (a # as) \<longleftrightarrow> publishes_once as"

definition requests_of :: "countryKey \<Rightarrow> action list \<Rightarrow> nat" where
  "requests_of k as = length (filter (\<lambda>a. case a of CountRequest wi geo fam ver \<Rightarrow> ckey geo = k | _ \<Rightarrow> False) as)"

definition balance :: "countryKey \<Rightarrow> system \<Rightarrow> rat" where
  "balance k s = counted NtpClientRequestsTotal [country k, continent k] (trace s)
     + of_int (held requests (collector s) k + sum_list (map (in_flight k) (threads s)))"

lemma publishes_once_append:
  "list_all (\<lambda>a. a \<noteq> PublishRequests \<and> (\<forall>i. a \<noteq> Drain i)) xs \<Longrightarrow> publishes_once (xs @ as) = publishes_once as"
proof (induction xs)
  case (Cons x xs)
  then show ?case by (cases x) auto
qed simp

lemma publishes_once_drains: "PublishRequests \<in> set as \<Longrightarrow> publishes_once (map Drain is @ as) = publishes_once as"
  by (induction "is") auto

lemma frame_prog_once: "publishes_once (frame_prog R now wall wi d ip fam ver xid ts)"
  "PublishRequests \<notin> set (frame_prog R now wall wi d ip fam ver xid ts)"
  by (auto simp: frame_prog_def split: option.split)

lemma publishes_once_map:
  "(\<And>i. f i \<noteq> PublishRequests \<and> (\<forall>j. f i \<noteq> Drain j)) \<Longrightarrow> publishes_once (map f is @ as) = publishes_once as"
  by (rule publishes_once_append) (simp add: list_all_iff)

lemma flush_prog_once: "publishes_once (flush_prog n Log now wall1 wall2 r)"
  by (auto simp: flush_prog_def publishes_once_drains publishes_once_map)

lemma exec_extra: "exec a (c, t) = Some ((c', t'), ev, extra) \<Longrightarrow>
   list_all (\<lambda>a. a \<noteq> PublishRequests \<and> (\<forall>i. a \<noteq> Drain i)) extra"
  by (cases a) (auto simp: Let_def list_all_iff split: prod.splits if_splits)

text \<open>How one action moves the requests of a country between workers, goroutine and collectors: counting,
  draining and publishing move them, the other actions do not.\<close>

fun moves_requests :: "action \<Rightarrow> bool" where
  "moves_requests (CountRequest wi geo fam ver) \<longleftrightarrow> True"
| "moves_requests (Drain i) \<longleftrightarrow> True"
| "moves_requests PublishRequests \<longleftrightarrow> True"
| "moves_requests _ \<longleftrightarrow> False"

lemma exec_workers:
  assumes "Collector_ok c" "\<not> moves_requests a" "exec a (c, t) = Some ((c', t'), ev, extra)"
  shows "held requests c' k = held requests c k \<and> requests (acc t') = requests (acc t)"
proof (cases a)
  case (CountResponse wi geo)
  then show ?thesis using assms(3)
    by (auto simp: held_def upd_worker_def sum_list_replace count_response_def split: if_splits)
next
  case (Unique ip w)
  then show ?thesis using assms(3) add_unique_ok [OF assms(1), of ip w] by (auto simp: held_def)
next
  case (MergeHours Log w)
  then show ?thesis using assms(3) flush_unique_eq [OF assms(1), of w Log] by (auto simp: held_def)
qed (use assms in \<open>auto simp: held_def on_shard_def upd_shard_def tick_def cas_reset_def evict_one_def Let_def case_prod_beta
    split: if_splits\<close>)

lemma exec_names:
  assumes "Collector_ok c" "action_ok n a" "\<not> moves_requests a" "exec a (c, t) = Some ((c', t'), ev, extra)" "e \<in> set ev"
  shows "Name (metric_of e) \<noteq> ''ntp_client_requests_total''"
proof (cases a)
  case (MergeHours Log w)
  then show ?thesis using assms(4,5) flush_unique_eq [OF assms(1), of w Log] by auto
next
  case (Touch ip now)
  then show ?thesis using assms(4,5) by (auto simp: on_shard_def touch_active_def Let_def split: option.splits)
next
  case (Put ip x ts)
  then show ?thesis using assms(4,5) by (auto simp: on_shard_def put_pending_def Let_def split: if_splits)
next
  case (Take ip x ts)
  then show ?thesis using assms(4,5) by (auto simp: case_prod_beta take_events split: option.splits if_splits)
next
  case (ReadDrops r)
  then show ?thesis using assms(4,5) names_publish(5) [of _ r "drops t"] by (auto simp: case_prod_beta)
next
  case PublishRest
  then show ?thesis using assms(4,5) names_publish(2-4) by auto
qed (use assms in \<open>auto simp: Let_def case_prod_beta split: if_splits\<close>)

lemma drain_balance:
  assumes "Collector_ok c" "PublishRequests \<in> set as" "exec (Drain i) (c, t) = Some ((c', t'), ev, extra)"
  shows "counted NtpClientRequestsTotal [country k, continent k] ev = 0
    \<and> held requests c' k + in_flight k (t', extra @ as) = held requests c k + in_flight k (t, Drain i # as)"
proof -
  have d: "c' = upd_worker i (\<lambda>_. newWorkerCounters) c" "i < length (workers c)" "ev = []"
    "t' = t\<lparr>acc := drain (workers c ! i) (acc t)\<rparr>" "extra = []"
    using assms(3) by (auto simp: drain_worker_def split: if_splits)
  have "map_ok (requests (workers c ! i))"
    using assms(1) d(2) by (auto simp: Collector_ok_def counters_ok_def pos_map_def)
  then have "getz (requests (acc t')) k = getz (requests (acc t)) k + getz (requests (workers c ! i)) k"
    using d(4) by (simp add: drain_def getz_addall)
  moreover have "held requests c' k = held requests c k - getz (requests (workers c ! i)) k"
    using d(1,2) by (simp add: held_def upd_worker_def sum_list_replace newWorkerCounters_def getz_Nil)
  ultimately show ?thesis using assms(2) d(3,5) by (simp add: in_flight_def)
qed

lemma exec_balance:
  assumes "Collector_ok c" "length (workers c) = n" "counters_ok (acc t)" "action_ok n a"
    "publishes_once (a # as)" "exec a (c, t) = Some ((c', t'), ev, extra)"
    "PublishRequests \<in> set (a # as) \<longrightarrow> getz (requests (acc t)) k < 2 ^ 53"
  shows "counted NtpClientRequestsTotal [country k, continent k] ev
      + of_int (held requests c' k + in_flight k (t', extra @ as))
    = of_int (held requests c k + in_flight k (t, a # as)) + of_nat (requests_of k [a])"
proof -
  have notin: "PublishRequests \<notin> set extra"
    using exec_extra [OF assms(6)] by (auto simp: list_all_iff)
  have other: ?thesis if "\<not> moves_requests a"
  proof -
    have "counted NtpClientRequestsTotal [country k, continent k] ev = 0"
      using exec_names [OF assms(1,4) that assms(6)] by (intro counted_other) simp
    moreover have "requests_of k [a] = 0" "a \<noteq> PublishRequests" using that by (cases a; simp add: requests_of_def)+
    ultimately show ?thesis using exec_workers [OF assms(1) that assms(6), of k] notin by (simp add: in_flight_def)
  qed
  show ?thesis
  proof (cases a)
    case (CountRequest wi geo fam ver)
    then have "c' = upd_worker wi (count_request geo fam ver) c" "wi < length (workers c)" "t' = t" "ev = []"
      using assms(6) by (auto split: if_splits)
    then show ?thesis
      using CountRequest notin
      by (auto simp: held_def upd_worker_def sum_list_replace count_request_def getz_bump requests_of_def in_flight_def)
  next
    case (Drain i)
    then have "PublishRequests \<in> set as" using assms(5) by simp
    from drain_balance [OF assms(1) this, of i t c' t' ev extra k] assms(6) Drain show ?thesis by (simp add: requests_of_def)
  next
    case PublishRequests
    then have d: "c' = c" "t' = t" "ev = publish_requests (acc t)" "extra = []" using assms(6) by auto
    have ok: "map_ok (requests (acc t))" "0 \<le> getz (responses (acc t)) k"
      using assms(3) getz_pos_map [of "responses (acc t)" k] by (auto simp: counters_ok_def pos_map_def)
    have "fl (of_int (getz (requests (acc t)) k)) = of_int (getz (requests (acc t)) k)"
      using PublishRequests assms(3,7) getz_pos_map [of "requests (acc t)" k] by (intro fl_held) (auto simp: counters_ok_def)
    then show ?thesis
      using counted_publish_requests(1) [OF ok] PublishRequests d assms(5) by (simp add: in_flight_def requests_of_def)
  qed (use other in simp_all)
qed

definition conserves :: "countryKey \<Rightarrow> system \<Rightarrow> bool" where
  "conserves k s \<longleftrightarrow> list_all (\<lambda>th. publishes_once (snd th)) (threads s)
     \<and> (length (performed s) < 2 ^ 53 \<longrightarrow>
        balance k s = of_nat (requests_of k (performed s))
        \<and> held requests (collector s) k + sum_list (map (in_flight k) (threads s)) \<le> int (length (performed s)))"

lemma in_flight_nonneg: "thread_ok n th \<Longrightarrow> 0 \<le> in_flight k th"
  by (auto simp: in_flight_def thread_ok_def counters_ok_def intro: getz_pos_map)

lemma held_nonneg: "Collector_ok c \<Longrightarrow> 0 \<le> held requests c k"
  using snapshot_held(1,3) [OF summed_fields(1)] getz_pos_map by metis

lemma counted_nonneg: "list_all event_ok es \<Longrightarrow> 0 \<le> counted m ls es"
proof (induction es)
  case (Cons e es)
  then show ?case by (cases e) (auto simp: counted_def)
qed simp

lemma in_flight_le:
  assumes "system_ok n s" "i < length (threads s)"
  shows "in_flight k (threads s ! i) \<le> held requests (collector s) k + sum_list (map (in_flight k) (threads s))"
proof -
  have "\<forall>x \<in> set (map (in_flight k) (threads s)). 0 \<le> x"
    using assms(1) in_flight_nonneg by (auto simp: system_ok_def list_all_iff)
  then have "in_flight k (threads s ! i) \<le> sum_list (map (in_flight k) (threads s))"
    using assms(2) by (intro member_le_sum_list) auto
  moreover have "0 \<le> held requests (collector s) k"
    using assms(1) by (intro held_nonneg) (simp add: system_ok_def)
  ultimately show ?thesis by simp
qed

lemma requests_of_append: "requests_of k (as @ bs) = requests_of k as + requests_of k bs"
  by (simp add: requests_of_def)

lemma requests_of_le: "requests_of k as \<le> length as"
  by (simp add: requests_of_def)

lemma sum_threads:
  "i < length ths \<Longrightarrow> sum_list (map (in_flight k) (ths[i := th])) =
     sum_list (map (in_flight k) ths) - in_flight k (ths ! i) + in_flight k th"
  by (rule sum_list_replace)

lemma set_prog_conserves:
  assumes "conserves k s" "i < length (threads s)" "in_flight k th = in_flight k (threads s ! i)" "publishes_once (snd th)"
  shows "conserves k (s\<lparr>threads := (threads s)[i := th]\<rparr>)"
  using assms by (auto simp: conserves_def balance_def sum_threads intro!: list_all_update)

lemma extend_trace_conserves:
  assumes "conserves k s" "counted NtpClientRequestsTotal [country k, continent k] ev = 0"
  shows "conserves k (s\<lparr>trace := trace s @ ev\<rparr>)"
  using assms by (auto simp: conserves_def balance_def)

lemma step_conserves:
  assumes "step n s s'" "system_ok n s" "conserves k s"
  shows "conserves k s'"
  using assms
proof (induction rule: step.induct)
  case (start_frame i s t wi R now wall d ip fam ver xid ts)
  then have "in_flight k (t, frame_prog R now wall wi d ip fam ver xid ts) = in_flight k (t, [])"
    by (simp add: in_flight_def frame_prog_once)
  then show ?case using start_frame by (intro set_prog_conserves) (simp_all add: frame_prog_once)
next
  case (start_flush i s t Log now wall1 wall2 r)
  then have "in_flight k (fresh_locals t, flush_prog n Log now wall1 wall2 r) = in_flight k (t, [])"
    by (simp add: in_flight_def fresh_locals_def newWorkerCounters_def getz_Nil)
  then show ?case using start_flush by (intro set_prog_conserves) (simp_all add: flush_prog_once)
next
  case (act i s t a as c' t' ev extra)
  let ?s' = "s\<lparr>collector := c', threads := (threads s)[i := (t', extra @ as)], trace := trace s @ ev, performed := performed s @ [a]\<rparr>"
  have th: "thread_ok n (t, a # as)" using thread_ok_nth [OF act.prems(1) act(1)] act(2) by simp
  have ok: "Collector_ok (collector s)" "length (workers (collector s)) = n" using act.prems(1) by (simp_all add: system_ok_def)
  have once: "publishes_once (a # as)"
    using act.prems(2) act(1,2) by (auto simp: conserves_def list_all_length)
  then have "publishes_once as" by (cases a) auto
  then have once': "publishes_once (extra @ as)" using publishes_once_append [OF exec_extra [OF act(3)]] by simp
  have "balance k ?s' = of_nat (requests_of k (performed ?s'))
      \<and> held requests (collector ?s') k + sum_list (map (in_flight k) (threads ?s')) \<le> int (length (performed ?s'))"
    if len: "length (performed ?s') < 2 ^ 53"
  proof -
    have IH: "balance k s = of_nat (requests_of k (performed s))"
      "held requests (collector s) k + sum_list (map (in_flight k) (threads s)) \<le> int (length (performed s))"
      using act.prems(2) len by (simp_all add: conserves_def)
    have small: "getz (requests (acc t)) k < 2 ^ 53" if "PublishRequests \<in> set (a # as)"
      using in_flight_le [OF act.prems(1) act(1), of k] IH(2) len act(2) that by (simp add: in_flight_def)
    have bal: "counted NtpClientRequestsTotal [country k, continent k] ev
      + of_int (held requests c' k + in_flight k (t', extra @ as))
      = of_int (held requests (collector s) k + in_flight k (t, a # as)) + of_nat (requests_of k [a])"
      using exec_balance [OF ok _ _ once act(3), of k] th small by (simp add: thread_ok_def)
    have "counted NtpClientRequestsTotal [country k, continent k] ev \<ge> 0"
      using exec_ok [OF ok, of t a] th act(3) counted_nonneg by (auto simp: thread_ok_def)
    then have "of_int (held requests c' k + in_flight k (t', extra @ as))
        \<le> (of_int (held requests (collector s) k + in_flight k (t, a # as) + int (requests_of k [a])) :: rat)"
      using bal by simp
    then have "held requests c' k + in_flight k (t', extra @ as)
        \<le> held requests (collector s) k + in_flight k (t, a # as) + int (requests_of k [a])"
      by (simp only: of_int_le_iff)
    then show ?thesis
      using IH bal requests_of_le [of k "[a]"] act(1,2)
      by (simp add: balance_def sum_threads requests_of_append)
  qed
  then show ?case
    using act.prems(2) once' by (auto simp: conserves_def intro!: list_all_update)
qed

definition start_system :: "Collector \<Rightarrow> nat \<Rightarrow> system" where
  "start_system c m = \<lparr>collector = c,
     threads = replicate m (\<lparr>acc = newWorkerCounters, topset = [], actives = 0, drops = Some 0\<rparr>, []),
     trace = [], performed = []\<rparr>"

lemma start_system_ok: "Collector_ok c \<Longrightarrow> length (workers c) = n \<Longrightarrow> system_ok n (start_system c m)"
  by (simp add: system_ok_def start_system_def thread_ok_def list_all_iff)

lemma start_system_conserves:
  "Collector_New topN n = Some c \<Longrightarrow> conserves k (start_system c m)"
proof -
  assume "Collector_New topN n = Some c"
  then have "workers c = replicate (nat (max 1 n)) newWorkerCounters" using fresh_collector [of topN n] by auto
  then have "held requests c k = 0" using held_replicate [OF summed_fields(1)] by blast
  then show ?thesis
    by (simp add: conserves_def start_system_def balance_def list_all_iff in_flight_def requests_of_def sum_list_replicate)
qed

lemma reachable_conserves:
  "reachable n s0 s \<Longrightarrow> system_ok n s0 \<Longrightarrow> conserves k s0 \<Longrightarrow> conserves k s"
  by (induction rule: reachable.induct) (auto intro: step_conserves reachable_ok)

text \<open>The programs are the handlers: a goroutine that runs the actions of a frame, or of a flush,
  without interruption does exactly what \<open>HandleFrame\<close>, or \<open>Flush\<close>, does.\<close>

lemma handlers_are_programs:
  assumes "Collector_ok c" "wi < length (workers c)" "Flush Log now' wall1 wall2 r (drops t) c = Some (c', l', ev)"
  shows "run_prog (frame_prog R now wall wi d ip fam ver xid ts) (c, t) =
      map_option (\<lambda>(c', ev). ((c', t), ev)) (HandleFrame R now wall wi d ip fam ver xid ts c)
    \<and> (\<exists>t'. run_prog (flush_prog (length (workers c)) Log now' wall1 wall2 r) (c, fresh_locals t) = Some ((c', t'), ev)
        \<and> drops t' = l')"
  using frame_prog_runs [OF assms(1,2)] flush_prog_runs [OF assms(1,3)] by blast

text \<open>No interleaving of any number of frames and flushes on any number of goroutines breaks the
  collector: in every reachable state the invariant holds, only accepted metric calls have been made,
  and no goroutine is about to panic.\<close>

lemma interleaving_safe:
  assumes "Collector_New topN n = Some c" "reachable (length (workers c)) (start_system c m) s"
  shows "Collector_ok (collector s) \<and> list_all event_ok (trace s)
    \<and> (\<forall>i t a as. i < length (threads s) \<and> threads s ! i = (t, a # as) \<longrightarrow> exec a (collector s, t) \<noteq> None)"
proof -
  have "Collector_ok c" using assms(1) Collector_New_ok [of topN n] by auto
  then have ok: "system_ok (length (workers c)) s"
    using reachable_ok [OF assms(2)] start_system_ok by simp
  then show ?thesis
    using step_enabled [OF ok] by (force simp: system_ok_def)
qed

text \<open>The counts are conserved under every interleaving: the requests published for a country, plus
  those the workers hold, plus those a flush has drained and not yet published, are exactly the
  requests counted so far. No update is lost between \<open>HandleFrame\<close> and a concurrent \<open>Flush\<close>.\<close>

lemma interleaving_conserves:
  assumes "Collector_New topN n = Some c" "reachable (length (workers c)) (start_system c m) s"
    "length (performed s) < 2 ^ 53"
  shows "counted NtpClientRequestsTotal [country k, continent k] (trace s)
      + of_int (held requests (collector s) k + sum_list (map (in_flight k) (threads s)))
    = of_nat (requests_of k (performed s))"
proof -
  have "Collector_ok c" using assms(1) Collector_New_ok [of topN n] by auto
  then have "conserves k s"
    using reachable_conserves [OF assms(2) start_system_ok start_system_conserves [OF assms(1)]] by simp
  then show ?thesis using assms(3) by (simp add: conserves_def balance_def)
qed

end
