(* ===== verification/Jobs.thy ===== *)
theory Jobs
  imports Exporter Interleaving
begin

section \<open>A frame on its way through a capture worker\<close>

text \<open>
  \<open>ProcessFrame\<close> as the sequence of atomic sections that a capture goroutine goes through once it has
  parsed a frame, across the packages: the address cache (\<open>capture/localips.go\<close>), the first actions of
  \<open>HandleFrame\<close> (\<open>aggregate/aggregate.go\<close>), the GeoIP resolver (\<open>geoip/geoip.go\<close>), through the adapter of
  \<open>cmd/exporter/main.go\<close>, and the rest of \<open>HandleFrame\<close>. A goroutine that is not interrupted does exactly
  what \<open>ProcessFrame\<close> and \<open>Resolve\<close> do (\<open>job_run_ProcessFrame\<close>).
\<close>

subsection \<open>The sections\<close>

text \<open>The goroutine is about to test whether the cache is stale, to reload it, to look the address up; it has the
  actions of \<open>HandleFrame\<close> up to the look-up of the client to perform, and after them the reopen check;
  it is about to look into the GeoIP cache, to query the databases, to add an answer to the cache; it
  has the actions after the look-up to perform.\<close>

datatype stage = Stale | Reload | Look | Head "action list" | Cached | Query | Insert geoip_Result | Rest "action list"

text \<open>What the environment returns to one section.\<close>

record 'r moment =
  m_reading :: reading
  m_fs :: "'r geo_fs"
  m_geo_now :: time
  m_now :: time
  m_wall :: time

type_synonym ('r, 'c) world = "Collector \<times> LocalIPs \<times> ('r, 'c) Resolver"

text \<open>The two parts of a frame's actions.\<close>

definition frame_head :: "time \<Rightarrow> string \<Rightarrow> action list" where
  "frame_head ts d = [Tick ts, Emit (Inc NtpCapturePacketsTotal [d])]"

definition frame_tail ::
    "GeoResult \<Rightarrow> time \<Rightarrow> time \<Rightarrow> nat \<Rightarrow> string \<Rightarrow> string \<Rightarrow> string \<Rightarrow> string \<Rightarrow> bytes option \<Rightarrow> time \<Rightarrow> action list" where
  "frame_tail geo now wall wi d ip fam ver xid ts =
     (if d = ''request''
      then [CountRequest wi geo fam ver, Touch ip now, Unique ip wall] @
           (case xid of None \<Rightarrow> [] | Some x \<Rightarrow> [Put ip x ts])
      else CountResponse wi geo # (case xid of None \<Rightarrow> [] | Some x \<Rightarrow> [Take ip x ts]))"

lemma frame_prog_split:
  "frame_prog R now wall wi d ip fam ver xid ts = frame_head ts d @ frame_tail (R ip) now wall wi d ip fam ver xid ts"
  by (simp add: frame_prog_def frame_head_def frame_tail_def)

text \<open>The arguments that \<open>ProcessFrame\<close> passes to \<open>HandleFrame\<close>.\<close>

definition client_of :: "Parsed \<Rightarrow> string" where
  "client_of p = IP_String (IP p)"

definition local_of :: "Parsed \<Rightarrow> net_IP" where
  "local_of p = (if Direction p = ''request'' then DstIP p else SrcIP p)"

definition tail_of :: "'r moment \<Rightarrow> nat \<Rightarrow> Parsed \<times> time \<Rightarrow> geoip_Result \<Rightarrow> action list" where
  "tail_of mo wi = (\<lambda>(p, ts) res. frame_tail (adapter_Resolve res) (m_now mo) (m_wall mo) wi (Direction p) (client_of p)
     (Family p) (if HasVersion p then Version p else '''') (XID p) ts)"

text \<open>The variables of \<open>Flush\<close>, which the actions of a frame do not use.\<close>

definition no_locals :: locals where
  "no_locals = \<lparr>acc = newWorkerCounters, topset = [], actives = 0, drops = None\<rparr>"

text \<open>One section: what is next (\<open>None\<close> when the frame is dealt with), the new state, the metric calls and the
  actions performed on the collector.\<close>

type_synonym ('r, 'c) job_result = "(stage option \<times> ('r, 'c) world \<times> event list \<times> action list) option"

definition job_act :: "action \<Rightarrow> (action list \<Rightarrow> stage) \<Rightarrow> action list \<Rightarrow> ('r, 'c) world \<Rightarrow> ('r, 'c) job_result" where
  "job_act a k as = (\<lambda>(c, l, g).
     map_option (\<lambda>((c', t), ev, extra). (Some (k (extra @ as)), (c', l, g), ev, [a])) (exec a (c, no_locals)))"

fun job_next :: "('r, 'c) geo_libs \<Rightarrow> 'r moment \<Rightarrow> nat \<Rightarrow> Parsed \<times> time \<Rightarrow> stage \<Rightarrow> ('r, 'c) world \<Rightarrow> ('r, 'c) job_result" where
  "job_next libs mo wi f Stale (c, l, g) =
     Some (Some (if time_Sub (fst (snd (m_reading mo))) (lastLoad l) \<ge> interval l then Reload else Look), (c, l, g), [], [])"
| "job_next libs mo wi f Reload (c, l, g) =
     Some (Some Look, (c, reload (fst (m_reading mo)) (snd (snd (m_reading mo))) l, g), [], [])"
| "job_next libs mo wi f Look (c, l, g) =
     Some (if IP_String (local_of (fst f)) \<in> set (ip_set l) then Some (Head (frame_head (snd f) (Direction (fst f)))) else None,
       (c, l, g), [], [])"
| "job_next libs mo wi f (Head (a # as)) w = job_act a Head as w"
| "job_next libs mo wi f (Head []) (c, l, g) =
     map_option (\<lambda>(g', cl, ev). (Some Cached, (c, l, g'), ev, [])) (resolve_check libs (m_fs mo) (m_geo_now mo) g)"
| "job_next libs mo wi f Cached (c, l, g) =
     map_option (\<lambda>(v, g'). (Some (case v of None \<Rightarrow> Query | Some v \<Rightarrow> Rest (tail_of mo wi f v)), (c, l, g'), [], []))
       (resolve_get libs (client_of (fst f)) g)"
| "job_next libs mo wi f Query (c, l, g) = Some (Some (Insert (resolve_lookup libs (client_of (fst f)) g)), (c, l, g), [], [])"
| "job_next libs mo wi f (Insert v) (c, l, g) =
     map_option (\<lambda>g'. (Some (Rest (tail_of mo wi f v)), (c, l, g'), [], [])) (resolve_add libs (client_of (fst f)) v g)"
| "job_next libs mo wi f (Rest (a # as)) w = job_act a Rest as w"
| "job_next libs mo wi f (Rest []) w = Some (None, w, [], [])"

subsection \<open>Every frame is dealt with\<close>

fun stage_work :: "stage \<Rightarrow> nat" where
  "stage_work Stale = 32"
| "stage_work Reload = 31"
| "stage_work Look = 30"
| "stage_work (Head as) = sum_list (map weight as) + 9"
| "stage_work Cached = 8"
| "stage_work Query = 7"
| "stage_work (Insert v) = 6"
| "stage_work (Rest as) = sum_list (map weight as) + 1"

lemma weight_frame: "sum_list (map weight (frame_head ts d)) = 20" "sum_list (map weight (tail_of mo wi f v)) \<le> 4"
  by (auto simp: frame_head_def tail_of_def frame_tail_def NumShards_def split: prod.splits option.splits)

lemma job_next_work:
  assumes "job_next libs mo wi f st w = Some (nxt, w', ev, as)"
  shows "(case nxt of None \<Rightarrow> 0 | Some st' \<Rightarrow> stage_work st') < stage_work st"
proof -
  have act: ?thesis if "job_act a k bs w = Some (nxt, w', ev, as)" "st = k (a # bs)" "k = Head \<or> k = Rest" for a k bs
    using that exec_weight [of a] by (auto simp: job_act_def split: prod.splits)
  have rest: "sum_list (map weight (tail_of mo wi f v)) < 5" "sum_list (map weight (tail_of mo wi f v)) < 7" for v
    using weight_frame(2) [of mo wi f v] by simp_all
  show ?thesis
  proof (cases "(libs, mo, wi, f, st, w)" rule: job_next.cases)
    case (4 libs mo wi f a as w)
    then show ?thesis using assms by (intro act [of a Head as]) auto
  next
    case (6 libs mo wi f c l g)
    then show ?thesis using assms rest(2) by (auto split: option.splits)
  next
    case (8 libs mo wi f v c l g)
    then show ?thesis using assms rest(1) by auto
  next
    case (9 libs mo wi f a as w)
    then show ?thesis using assms by (intro act [of a Rest as]) auto
  qed (use assms in \<open>auto simp: weight_frame(1) split: if_splits\<close>)
qed

function job_run :: "('r, 'c) geo_libs \<Rightarrow> 'r moment \<Rightarrow> nat \<Rightarrow> Parsed \<times> time \<Rightarrow> stage \<Rightarrow> ('r, 'c) world
    \<Rightarrow> (('r, 'c) world \<times> event list) option" where
  "job_run libs mo wi f st w =
     (case job_next libs mo wi f st w of
        None \<Rightarrow> None
      | Some (None, w', ev, as) \<Rightarrow> Some (w', ev)
      | Some (Some st', w', ev, as) \<Rightarrow> map_option (\<lambda>(w'', ev'). (w'', ev @ ev')) (job_run libs mo wi f st' w'))"
  by pat_completeness auto
termination
  by (relation "measure (\<lambda>(libs, mo, wi, f, st, w). stage_work st)") (auto dest: job_next_work)

declare job_run.simps [simp del]

subsection \<open>Run alone\<close>

lemma job_run_step:
  "job_next libs mo wi f st w = Some (Some st', w', ev, as) \<Longrightarrow>
   job_run libs mo wi f st w = map_option (\<lambda>(w'', ev'). (w'', ev @ ev')) (job_run libs mo wi f st' w')"
  by (subst job_run.simps) simp

lemma job_run_quiet:
  "job_next libs mo wi f st w = Some (Some st', w', [], as) \<Longrightarrow> job_run libs mo wi f st w = job_run libs mo wi f st' w'"
  by (subst job_run.simps) (simp add: split_def option.map_ident_strong)

text \<open>The actions of a frame do not use the variables of \<open>Flush\<close>.\<close>

fun frame_action :: "action \<Rightarrow> bool" where
  "frame_action (Drain i) \<longleftrightarrow> False"
| "frame_action (ReadDrops r) \<longleftrightarrow> False"
| "frame_action PublishRequests \<longleftrightarrow> False"
| "frame_action AsnTotals \<longleftrightarrow> False"
| "frame_action PublishRest \<longleftrightarrow> False"
| "frame_action (Evict i cutoff) \<longleftrightarrow> False"
| "frame_action SetActive \<longleftrightarrow> False"
| "frame_action (MergeHours Log w) \<longleftrightarrow> False"
| "frame_action _ \<longleftrightarrow> True"

lemma exec_frame_action:
  assumes "frame_action a" "exec a (c, t) = Some ((c', t'), ev, extra)"
  shows "t' = t" "list_all frame_action extra"
  using assms by (cases a; auto simp: Let_def list_all_iff split: prod.splits if_splits)+

lemma frame_actions: "list_all frame_action (frame_head ts d)" "list_all frame_action (tail_of mo wi f v)"
  by (auto simp: frame_head_def tail_of_def frame_tail_def split: prod.splits option.splits)

lemma job_run_actions:
  assumes "list_all frame_action as" "k = Head \<or> k = Rest"
  shows "job_run libs mo wi f (k as) (c, l, g) =
    Option.bind (run_prog as (c, no_locals)) (\<lambda>((c', t), ev). map_option (\<lambda>(w, ev'). (w, ev @ ev')) (job_run libs mo wi f (k []) (c', l, g)))"
  using assms(1)
proof (induction as "(c, no_locals)" arbitrary: c rule: run_prog.induct)
  case 1
  then show ?case by (cases "job_run libs mo wi f (k []) (c, l, g)") auto
next
  case (2 a as)
  have n: "job_next libs mo wi f (k (a # as)) (c, l, g) = job_act a k as (c, l, g)" using assms(2) by auto
  show ?case
  proof (cases "exec a (c, no_locals)")
    case None
    then show ?thesis using n by (subst job_run.simps) (simp add: job_act_def)
  next
    case (Some r)
    obtain c' t' ev extra where r: "r = ((c', t'), ev, extra)" by (cases r) auto
    have t: "t' = no_locals" "list_all frame_action (extra @ as)"
      using exec_frame_action [of a c no_locals c' t' ev extra] "2.prems" Some r by auto
    have "job_run libs mo wi f (k (a # as)) (c, l, g) =
        map_option (\<lambda>(w, ev'). (w, ev @ ev')) (job_run libs mo wi f (k (extra @ as)) (c', l, g))"
      using n Some r by (intro job_run_step [where as = "[a]"]) (simp add: job_act_def)
    also have "job_run libs mo wi f (k (extra @ as)) (c', l, g) =
        Option.bind (run_prog (extra @ as) (c', no_locals))
          (\<lambda>((c', t), ev). map_option (\<lambda>(w, ev'). (w, ev @ ev')) (job_run libs mo wi f (k []) (c', l, g)))"
      by (rule "2.hyps" [of "((c', t'), ev, extra)" c' "(ev, extra)" ev extra]) (use Some r t in simp_all)
    finally have job: "job_run libs mo wi f (k (a # as)) (c, l, g) = map_option (\<lambda>(w, ev'). (w, ev @ ev'))
        (Option.bind (run_prog (extra @ as) (c', no_locals))
          (\<lambda>((c', t), ev). map_option (\<lambda>(w, ev'). (w, ev @ ev')) (job_run libs mo wi f (k []) (c', l, g))))" .
    have run: "run_prog (a # as) (c, no_locals) = map_option (\<lambda>r. (fst r, ev @ snd r)) (run_prog (extra @ as) (c', no_locals))"
      using Some r t(1) by simp
    show ?thesis
      unfolding job run by (cases "run_prog (extra @ as) (c', no_locals)")
        (simp_all add: option.map_comp comp_def split_def del: run_prog.simps)
  qed
qed

lemma run_prog_locals: "list_all frame_action as \<Longrightarrow> run_prog as (c, t) = Some ((c', t'), ev) \<Longrightarrow> t' = t"
proof (induction as "(c, t)" arbitrary: c t ev rule: run_prog.induct)
  case (2 a as c t)
  obtain c1 t1 ev1 extra where e: "exec a (c, t) = Some ((c1, t1), ev1, extra)"
    using "2.prems"(2) by (auto split: option.splits)
  have f: "t1 = t" "list_all frame_action (extra @ as)" using exec_frame_action [OF _ e] "2.prems"(1) by auto
  obtain ev2 where r: "run_prog (extra @ as) (c1, t1) = Some ((c', t'), ev2)"
    using "2.prems"(2) e by (cases "run_prog (extra @ as) (c1, t1)") (auto simp del: run_prog.simps simp: run_prog.simps(2))
  show ?case using "2.hyps" [of "((c1, t1), ev1, extra)" c1 t1 "(ev1, extra)" ev1 extra ev2] e f r by simp
qed simp

text \<open>The look-up section by section is \<open>Resolve\<close>.\<close>

lemma job_run_Resolve:
  assumes "Resolve libs (m_fs mo) (m_geo_now mo) (client_of p) g = Some (v, g', cl, gev)"
  shows "job_run libs mo wi (p, ts) (Head []) (c, l, g) =
    map_option (\<lambda>(w, ev). (w, gev @ ev)) (job_run libs mo wi (p, ts) (Rest (tail_of mo wi (p, ts) v)) (c, l, g'))"
proof -
  obtain g1 where 1: "resolve_check libs (m_fs mo) (m_geo_now mo) g = Some (g1, cl, gev)"
    and 2: "(\<exists>g2. resolve_get libs (client_of p) g1 = Some (Some v, g') \<or>
      resolve_get libs (client_of p) g1 = Some (None, g2) \<and> v = resolve_lookup libs (client_of p) g2
      \<and> resolve_add libs (client_of p) v g2 = Some g')"
    using assms by (auto simp: Resolve_def Let_def split: bind_splits option.splits)
  have c: "job_run libs mo wi (p, ts) (Head []) (c, l, g) = map_option (\<lambda>(w, ev). (w, gev @ ev)) (job_run libs mo wi (p, ts) Cached (c, l, g1))"
    by (rule job_run_step [where as = "[]"]) (simp add: 1)
  have "job_run libs mo wi (p, ts) Cached (c, l, g1) = job_run libs mo wi (p, ts) (Rest (tail_of mo wi (p, ts) v)) (c, l, g')"
    using 2
  proof (elim exE disjE conjE)
    fix g2
    assume get: "resolve_get libs (client_of p) g1 = Some (None, g2)" and v: "v = resolve_lookup libs (client_of p) g2"
      and add: "resolve_add libs (client_of p) v g2 = Some g'"
    have "job_run libs mo wi (p, ts) Cached (c, l, g1) = job_run libs mo wi (p, ts) Query (c, l, g2)"
      using job_run_quiet [of libs mo wi "(p, ts)" Cached "(c, l, g1)" Query "(c, l, g2)" "[]"] get by simp
    also have "\<dots> = job_run libs mo wi (p, ts) (Insert v) (c, l, g2)"
      using job_run_quiet [of libs mo wi "(p, ts)" Query "(c, l, g2)" "Insert v" "(c, l, g2)" "[]"] v by simp
    also have "\<dots> = job_run libs mo wi (p, ts) (Rest (tail_of mo wi (p, ts) v)) (c, l, g')"
      using job_run_quiet [of libs mo wi "(p, ts)" "Insert v" "(c, l, g2)" "Rest (tail_of mo wi (p, ts) v)" "(c, l, g')" "[]"] add by simp
    finally show ?thesis .
  qed (use job_run_quiet [of libs mo wi "(p, ts)" Cached "(c, l, g1)" "Rest (tail_of mo wi (p, ts) v)" "(c, l, g')" "[]"] in simp)
  with c show ?thesis by simp
qed

lemma job_run_Stale:
  "job_run libs mo wi f Stale (c, l, g) = job_run libs mo wi f Look (c, maybeReload (m_reading mo) l, g)"
proof -
  obtain lookup now1 now2 where rd: "m_reading mo = (lookup, now1, now2)" by (cases "m_reading mo")
  have "job_run libs mo wi f Reload (c, l, g) = job_run libs mo wi f Look (c, reload lookup now2 l, g)"
    using job_run_quiet [of libs mo wi f Reload "(c, l, g)" Look "(c, reload lookup now2 l, g)" "[]"] rd by simp
  moreover have "job_run libs mo wi f Stale (c, l, g) =
      job_run libs mo wi f (if time_Sub now1 (lastLoad l) \<ge> interval l then Reload else Look) (c, l, g)"
    using job_run_quiet [of libs mo wi f Stale "(c, l, g)" _ "(c, l, g)" "[]"] rd by simp
  ultimately show ?thesis using rd by (simp add: maybeReload_def)
qed

subsection \<open>Properties\<close>

text \<open>C32: the sections are the code. A goroutine that goes through the sections of a frame without interruption, from the
  stale test of the address cache to the last action of \<open>HandleFrame\<close>, does what \<open>ProcessFrame\<close> does with
  the answer of \<open>Resolve\<close>, and leaves the resolver as \<open>Resolve\<close> does: same collector, same address cache,
  and the same metric calls with those of the database check in their place. The resolver is only asked
  for a frame that the direction filter accepts.\<close>

theorem job_run_ProcessFrame:
  assumes "Collector_ok c" "wi < length (workers c)" "ParseNTPFrame data = Some (p, True)"
    "Resolve libs (m_fs mo) (m_geo_now mo) (client_of p) g = Some (v, g', cl, gev)"
    "accept \<longleftrightarrow> fst (ShouldAccept (m_reading mo) p l)"
  shows "\<exists>c' l' ev1 ev2.
    ProcessFrame (m_reading mo) (\<lambda>ip. adapter_Resolve v) (m_now mo) (m_wall mo) wi data ts (c, l) = Some ((c', l'), ev1 @ ev2)
    \<and> job_run libs mo wi (p, ts) Stale (c, l, g) = Some ((c', l', if accept then g' else g), ev1 @ (if accept then gev else []) @ ev2)"
proof -
  define l' where "l' = maybeReload (m_reading mo) l"
  have s: "ShouldAccept (m_reading mo) p l = (IP_String (local_of p) \<in> set (ip_set l'), l')"
    by (simp add: ShouldAccept_def Contains_def local_of_def l'_def Let_def)
  show ?thesis
  proof (cases accept)
    case False
    then have "job_run libs mo wi (p, ts) Look (c, l', g) = Some ((c, l', g), [])"
      using s assms(5) by (subst job_run.simps) simp
    then show ?thesis
      using False s assms(3,5) by (simp add: job_run_Stale ProcessFrame_def l'_def)
  next
    case True
    let ?R = "\<lambda>ip :: string. adapter_Resolve v" and ?ver = "if HasVersion p then Version p else ''''"
    let ?tail = "tail_of mo wi (p, ts) v" and ?head = "frame_head ts (Direction p)"
    obtain c' ev where h: "HandleFrame ?R (m_now mo) (m_wall mo) wi (Direction p) (client_of p) (Family p) ?ver (XID p) ts c = Some (c', ev)"
      using HandleFrame_keeps [OF assms(1,2)] by blast
    have "run_prog (?head @ ?tail) (c, no_locals) = Some ((c', no_locals), ev)"
      using frame_prog_runs [OF assms(1,2), of ?R "m_now mo" "m_wall mo" "Direction p" "client_of p" "Family p" ?ver "XID p" ts no_locals] h
      by (simp only: frame_prog_split tail_of_def prod.case) simp
    then obtain c1 t1 ev1 ev2 where 1: "run_prog ?head (c, no_locals) = Some ((c1, t1), ev1)"
      and 2: "run_prog ?tail (c1, t1) = Some ((c', no_locals), ev2)" "ev = ev1 @ ev2"
      unfolding run_prog_append by (auto split: option.splits)
    have t1: "t1 = no_locals" by (rule run_prog_locals [OF frame_actions(1) 1])
    have "job_run libs mo wi (p, ts) (Rest []) (c', l', g') = Some ((c', l', g'), [])" by (subst job_run.simps) simp
    then have rest: "job_run libs mo wi (p, ts) (Rest ?tail) (c1, l', g') = Some ((c', l', g'), ev2)"
      using job_run_actions [OF frame_actions(2), of Rest libs mo wi "(p, ts)" mo wi "(p, ts)" v c1 l' g'] 2(1) t1 by simp
    have "job_run libs mo wi (p, ts) Look (c, l', g) = job_run libs mo wi (p, ts) (Head ?head) (c, l', g)"
      using job_run_quiet [of libs mo wi "(p, ts)" Look "(c, l', g)" "Head ?head" "(c, l', g)" "[]"] True s assms(5) by simp
    also have "\<dots> = Some ((c', l', g'), ev1 @ gev @ ev2)"
      using job_run_actions [OF frame_actions(1), of Head libs mo wi "(p, ts)" ts "Direction p" c l' g] 1 rest
        job_run_Resolve [OF assms(4)] by simp
    finally have "job_run libs mo wi (p, ts) Stale (c, l, g) = Some ((c', l', g'), ev1 @ gev @ ev2)"
      by (simp add: job_run_Stale l'_def)
    moreover have "ProcessFrame (m_reading mo) ?R (m_now mo) (m_wall mo) wi data ts (c, l) = Some ((c', l'), ev1 @ ev2)"
      using True s assms(3,5) h 2(2) by (simp add: ProcessFrame_def client_of_def)
    ultimately show ?thesis using True by auto
  qed
qed

definition example_moment :: "nat moment" where
  "example_moment = \<lparr>m_reading = (None, 0, 0), m_fs = example_fs 1, m_geo_now = 0, m_now = 0, m_wall = 0\<rparr>"

definition example_request :: bytes where
  "example_request = example_frame [203, 0, 113, 5] [198, 51, 100, 1] 41234 123 [1]"

definition example_packet :: Parsed where
  "example_packet = ntp_packet ''ipv4'' [203, 0, 113, 5] [198, 51, 100, 1] 41234 123 [1]"

definition example_geo :: "(nat, lru_list) Resolver" where
  "example_geo = geoip_New example_libs ''/geoip'' 8192 (Some loaded_gauge)"

lemma example_request_simps:
  "ParseNTPFrame example_request = Some (example_packet, True)" "Direction example_packet = ''request''"
  "local_of example_packet = [198, 51, 100, 1]"
  using example_carries [of "[203, 0, 113, 5]" "[198, 51, 100, 1]" 41234 123 "[1]"]
  by (simp_all add: carries_def example_request_def example_packet_def ntp_packet_def local_of_def)

theorem job_run_ProcessFrame_witness:
  "\<exists>c c' l' v g' cl gev ev1 ev2. Collector_New 25 4 = Some c
    \<and> Resolve example_libs (example_fs 1) 0 (client_of example_packet) example_geo = Some (v, g', cl, gev)
    \<and> ProcessFrame (None, 0, 0) (\<lambda>ip. adapter_Resolve v) 0 0 3 example_request 9 (c, example_local) = Some ((c', l'), ev1 @ ev2)
    \<and> job_run example_libs example_moment 3 (example_packet, 9) Stale (c, example_local, example_geo) = Some ((c', l', g'), ev1 @ gev @ ev2)"
proof -
  obtain c where c: "Collector_New 25 4 = Some c" "Collector_ok c" "length (workers c) = 4" using fresh_collector [of 25 4] by auto
  have m: "m_reading example_moment = (None, 0, 0)" "m_fs example_moment = example_fs 1" "m_geo_now example_moment = 0"
    "m_now example_moment = 0" "m_wall example_moment = 0" by (simp_all add: example_moment_def)
  obtain v g' cl gev where r: "Resolve example_libs (example_fs 1) 0 (client_of example_packet) example_geo = Some (v, g', cl, gev)"
    by (simp add: Resolve_def example_geo_def example_steps)
  have "fst (ShouldAccept (None, 0, 0) example_packet example_local)"
    using example_local_set [of "[198, 51, 100, 1]"] example_request_simps(2,3)
    by (simp add: ShouldAccept_def Contains_current [OF example_current] local_of_def)
  with job_run_ProcessFrame [OF c(2) _ example_request_simps(1), of 3 example_libs example_moment example_geo v g' cl gev True example_local 9]
    c r m show ?thesis by auto
qed

end
