(* ===== verification/Process.thy ===== *)
theory Process
  imports Jobs
begin

section \<open>The exporter process\<close>

text \<open>
  The goroutines that \<open>main\<close> of \<open>exporter/cmd/exporter/main.go\<close> starts, run together: the signal handler,
  \<open>runCapture\<close> with the manager's workers, \<open>flushForever\<close> and the poller. They share the \<open>stop\<close> channel, the
  pointer to the current manager, the collector, the address cache, the GeoIP resolver and the metrics.
  The step relation \<open>process_step\<close> lets any of them go through its next atomic section, in any order.
\<close>

subsection \<open>States\<close>

text \<open>A capture worker has no frame in hand, or one on its way (\<open>Jobs\<close>). The flush goroutine waits for the
  ticker, runs the rest of a flush, or has returned; its variables keep \<open>lastDrops\<close>.\<close>

datatype job = Idle | Job "Parsed \<times> time" stage

datatype flush_pc = FWait locals | FRun locals "action list" | FStopped

text \<open>\<open>cap\<close> is the capture loop of \<open>Exporter\<close>, with everything the workers share; \<open>polling\<close> are the metric
  calls the current poll still has to make. \<open>acts\<close> records the actions on the collector and \<open>accepted\<close> counts
  the requests that passed the direction filter.\<close>

record ('s, 'r, 'c) process =
  cap :: "'s cap_state"
  geo :: "('r, 'c) Resolver"
  jobs :: "job list"
  flusher :: flush_pc
  polling :: "event list"
  acts :: "action list"
  accepted :: nat

definition set_sh :: "'s shared \<Rightarrow> 's cap_state \<Rightarrow> 's cap_state" where
  "set_sh sh s = (case cap_at s of CapRunning r \<Rightarrow> s\<lparr>cap_at := CapRunning (r\<lparr>shared_st := sh\<rparr>)\<rparr> | _ \<Rightarrow> s\<lparr>base := sh\<rparr>)"

text \<open>A change of the collector and the address cache, with metric calls.\<close>

definition share :: "Collector \<Rightarrow> LocalIPs \<Rightarrow> event list \<Rightarrow> 's cap_state \<Rightarrow> 's cap_state" where
  "share c l ev s = (let sh = cap_sh s in set_sh (sh\<lparr>coll := c, addrs := l, emitted := emitted sh @ ev\<rparr>) s)"

definition emit :: "event list \<Rightarrow> 's cap_state \<Rightarrow> 's cap_state" where
  "emit ev s = share (coll (cap_sh s)) (addrs (cap_sh s)) ev s"

definition gor_at :: "'s cap_state \<Rightarrow> nat \<Rightarrow> 's gor option" where
  "gor_at s i = (case cap_at s of CapRunning r \<Rightarrow> if i < length (gors r) then Some (gors r ! i) else None | _ \<Rightarrow> None)"

definition set_gor :: "nat \<Rightarrow> 's gor \<Rightarrow> 's cap_state \<Rightarrow> 's cap_state" where
  "set_gor i g s = (case cap_at s of CapRunning r \<Rightarrow> s\<lparr>cap_at := CapRunning (r\<lparr>gors := (gors r)[i := g]\<rparr>)\<rparr> | _ \<Rightarrow> s)"

text \<open>A worker that is done with its frame goes back to the top of its loop.\<close>

definition back_to_top :: "nat \<Rightarrow> 's cap_state \<Rightarrow> 's cap_state" where
  "back_to_top i s = (case gor_at s i of Some (Reading w) \<Rightarrow> set_gor i (AtTop w) s | _ \<Rightarrow> s)"

definition close_stop :: "'s cap_state \<Rightarrow> 's cap_state" where
  "close_stop s = (case cap_at s of
     CapRunning r \<Rightarrow> s\<lparr>cap_at := CapRunning (r\<lparr>stop_closed := True\<rparr>), cap_stop := True\<rparr>
   | _ \<Rightarrow> s\<lparr>cap_stop := True\<rparr>)"

text \<open>A successful read resets the worker's error count and its wait.\<close>

definition read_ok :: "'s worker \<Rightarrow> 's worker" where
  "read_ok w = w\<lparr>consecutiveErrs := 0, backoff := loopErrBackoffMin\<rparr>"

definition world :: "('s, 'r, 'c) process \<Rightarrow> ('r, 'c) world" where
  "world p = (coll (cap_sh (cap p)), addrs (cap_sh (cap p)), geo p)"

subsection \<open>Steps\<close>

definition next_job :: "Parsed \<times> time \<Rightarrow> stage option \<Rightarrow> job" where
  "next_job f nxt = (case nxt of None \<Rightarrow> Idle | Some st \<Rightarrow> Job f st)"

text \<open>A section of worker \<open>i\<close> with its frame \<open>f\<close>, and its outcome.\<close>

definition job_done :: "nat \<Rightarrow> Parsed \<times> time \<Rightarrow> stage \<Rightarrow> stage option \<Rightarrow> ('r, 'c) world \<Rightarrow> event list \<Rightarrow> action list
    \<Rightarrow> ('s, 'r, 'c) process \<Rightarrow> ('s, 'r, 'c) process" where
  "job_done i f st nxt = (\<lambda>(c, l, g) ev as p.
     p\<lparr>cap := (case nxt of None \<Rightarrow> back_to_top i | Some _ \<Rightarrow> id) (share c l ev (cap p)),
       geo := g, jobs := (jobs p)[i := next_job f nxt],
       acts := acts p @ as,
       accepted := accepted p + (if st = Look \<and> nxt \<noteq> None \<and> Direction (fst f) = ''request'' then 1 else 0)\<rparr>)"

text \<open>The value of \<open>readDrops()\<close>, if a manager is published; the counters of its sockets are arbitrary.\<close>

definition read_drops :: "('s \<Rightarrow> 32 word option) \<Rightarrow> 's cap_state \<Rightarrow> u64 option" where
  "read_drops stats s = (if mgrPtr s then Some (KernelDrops stats (mgr (cap_sh s))) else None)"

text \<open>Steps of the goroutines' own, steps in which the ticker fires, and steps of the poller. \<open>Control\<close> is a step of
  the capture loop or of a worker that has no frame in hand: opening, spawning, read errors, waits and
  returns. A frame goes through \<open>Read\<close> and \<open>Work\<close>; \<open>cap_step\<close> would take it in one step, which the conditions of
  \<open>Control\<close> on the collector and the address cache exclude (\<open>ProcessFrame_unchanged\<close>).\<close>

datatype mover = Own | Ticker | Pool

inductive process_step ::
    "config \<Rightarrow> ('r, 'c) geo_libs \<Rightarrow> (float64 \<Rightarrow> float64) \<Rightarrow> mover \<Rightarrow> ('s, 'r, 'c) process \<Rightarrow> ('s, 'r, 'c) process \<Rightarrow> bool"
  for cfg :: config and libs :: "('r, 'c) geo_libs" and Log :: "float64 \<Rightarrow> float64" where
  Signal: "\<not> cap_stop (cap p) \<Longrightarrow> process_step cfg libs Log Own p (p\<lparr>cap := close_stop (cap p)\<rparr>)"
| Control: "\<not> captureDisabled cfg \<Longrightarrow> cap_step (captureWorkers cfg) (captureRingBytes cfg) (cap p) s \<Longrightarrow>
    coll (cap_sh s) = coll (cap_sh (cap p)) \<Longrightarrow> addrs (cap_sh s) = addrs (cap_sh (cap p)) \<Longrightarrow>
    \<forall>i < length (jobs p). jobs p ! i \<noteq> Idle \<longrightarrow> gor_at s i = gor_at (cap p) i \<Longrightarrow>
    process_step cfg libs Log Own p (p\<lparr>cap := s\<rparr>)"
| Read: "gor_at (cap p) i = Some (Reading w) \<Longrightarrow> i < length (jobs p) \<Longrightarrow> jobs p ! i = Idle \<Longrightarrow>
    ParseNTPFrame data = Some (pk, ok) \<Longrightarrow>
    process_step cfg libs Log Own p (if ok
      then p\<lparr>cap := set_gor i (Reading (read_ok w)) (cap p), jobs := (jobs p)[i := Job (pk, ts) Stale]\<rparr>
      else p\<lparr>cap := emit [Inc NtpCaptureParseErrorsTotal []] (set_gor i (AtTop (read_ok w)) (cap p))\<rparr>)"
| Work: "i < length (jobs p) \<Longrightarrow> jobs p ! i = Job f st \<Longrightarrow>
    job_next libs mo i f st (world p) = Some (nxt, w, ev, as) \<Longrightarrow>
    process_step cfg libs Log Own p (job_done i f st nxt w ev as p)"
| Tick: "flusher p = FWait t \<Longrightarrow>
    process_step cfg libs Log Ticker p (p\<lparr>flusher := FRun (fresh_locals t)
      (flush_prog (length (workers (coll (cap_sh (cap p))))) Log now wall1 wall2 (read_drops stats (cap p)))\<rparr>)"
| Flush_act: "flusher p = FRun t (a # as) \<Longrightarrow> exec a (coll (cap_sh (cap p)), t) = Some ((c, t'), ev, extra) \<Longrightarrow>
    process_step cfg libs Log Own p (p\<lparr>cap := share c (addrs (cap_sh (cap p))) ev (cap p),
      flusher := FRun t' (extra @ as), acts := acts p @ [a]\<rparr>)"
| Flush_end: "flusher p = FRun t [] \<Longrightarrow> process_step cfg libs Log Own p (p\<lparr>flusher := FWait t\<rparr>)"
| Flush_stop: "flusher p = FWait t \<Longrightarrow> cap_stop (cap p) \<Longrightarrow> process_step cfg libs Log Own p (p\<lparr>flusher := FStopped\<rparr>)"
| Poll: "polling p = [] \<Longrightarrow> \<forall>m. set (order2 env m) = set m \<Longrightarrow>
    process_step cfg libs Log Pool p (p\<lparr>polling := PollOnce env (main_poller cfg)\<rparr>)"
| Publish: "polling p = e # es \<Longrightarrow> process_step cfg libs Log Pool p (p\<lparr>cap := emit [e] (cap p), polling := es\<rparr>)"

definition process_init ::
    "config \<Rightarrow> ('r, 'c) geo_libs \<Rightarrow> Collector \<Rightarrow> LocalIPs \<Rightarrow> 's Manager \<Rightarrow> ('s, 'r, 'c) process" where
  "process_init cfg libs c local m =
     \<lparr>cap = (if captureDisabled cfg then cap_init c local m\<lparr>scrape := Some 0\<rparr>
             else cap_init c local m),
      geo = main_geo libs cfg, jobs = replicate (length (workers c)) Idle,
      flusher = FWait (no_locals\<lparr>drops := Some 0\<rparr>), polling = [], acts = [], accepted = 0\<rparr>"

text \<open>Some goroutine is about to panic, which would end the process: the ticker is given an interval that is
  not positive, a capture worker panics, a frame's section does, or an action of the flush does.\<close>

definition process_panics :: "config \<Rightarrow> ('r, 'c) geo_libs \<Rightarrow> ('s, 'r, 'c) process \<Rightarrow> bool" where
  "process_panics cfg libs p \<longleftrightarrow> main_flush_interval cfg \<le> 0
     \<or> (\<exists>r. cap_at (cap p) = CapRunning r \<and> Run_panics r)
     \<or> (\<exists>i f st mo. i < length (jobs p) \<and> jobs p ! i = Job f st \<and> job_next libs mo i f st (world p) = None)
     \<or> (\<exists>t a as. flusher p = FRun t (a # as) \<and> exec a (coll (cap_sh (cap p)), t) = None)"

subsection \<open>The capture loop as a component\<close>

lemma cap_sh_set [simp]: "cap_sh (set_sh sh s) = sh"
  by (auto simp: cap_sh_def set_sh_def split: cap_pc.splits)

lemma cap_sh_gor [simp]: "cap_sh (set_gor i g s) = cap_sh s"
  by (auto simp: cap_sh_def set_gor_def split: cap_pc.splits)

lemma cap_sh_top [simp]: "cap_sh (back_to_top i s) = cap_sh s"
  by (auto simp: back_to_top_def split: option.splits gor.splits)

lemma cap_sh_stop [simp]: "cap_sh (close_stop s) = cap_sh s"
  by (auto simp: cap_sh_def close_stop_def split: cap_pc.splits)

lemma cap_sh_share [simp]:
  "coll (cap_sh (share c l ev s)) = c" "addrs (cap_sh (share c l ev s)) = l"
  "emitted (cap_sh (share c l ev s)) = emitted (cap_sh s) @ ev" "mgr (cap_sh (share c l ev s)) = mgr (cap_sh s)"
  by (simp_all add: share_def Let_def)

lemma gor_at_set [simp]:
  "gor_at (set_sh sh s) i = gor_at s i" "gor_at (share c l ev s) i = gor_at s i" "gor_at (emit ev s) i = gor_at s i"
  "gor_at (close_stop s) i = gor_at s i"
  by (auto simp: gor_at_def set_sh_def share_def emit_def Let_def close_stop_def split: cap_pc.splits)

lemma gor_at_gor: "gor_at (set_gor i g s) j = (if j = i \<and> gor_at s i \<noteq> None then Some g else gor_at s j)"
  by (auto simp: gor_at_def set_gor_def split: cap_pc.splits)

lemma gor_at_top: "j \<noteq> i \<Longrightarrow> gor_at (back_to_top i s) j = gor_at s j"
  by (auto simp: back_to_top_def gor_at_gor split: option.splits gor.splits)

lemma stop_set [simp]: "cap_stop (set_sh sh s) = cap_stop s" "cap_stop (set_gor i g s) = cap_stop s"
  "cap_stop (share c l ev s) = cap_stop s" "cap_stop (emit ev s) = cap_stop s" "cap_stop (back_to_top i s) = cap_stop s"
  "cap_stop (close_stop s)"
  by (auto simp: set_sh_def set_gor_def share_def emit_def back_to_top_def close_stop_def Let_def split: cap_pc.splits option.splits gor.splits)

text \<open>The invariant of the capture loop under the steps of the other goroutines.\<close>

lemma cap_inv_sh:
  "cap_inv nw s \<Longrightarrow> Collector_ok (coll (cap_sh s)) \<and> list_all event_ok (emitted (cap_sh s))
     \<and> nat (ClampWorkers nw) \<le> length (workers (coll (cap_sh s)))"
  by (cases "cap_at s") (auto simp: cap_inv_def cap_sh_def Run_inv_def ready_def shared_ok_def base_ok_def)

lemma Run_inv_shared:
  "Run_inv r \<Longrightarrow> mgr sh = mgr (shared_st r) \<Longrightarrow> shared_ok sh \<Longrightarrow> Run_inv (r\<lparr>shared_st := sh\<rparr>)"
  by (cases "pc r") (auto simp: Run_inv_def unfinished_def)

lemma cap_inv_share:
  assumes "cap_inv nw s" "Collector_ok c" "length (workers c) = length (workers (coll (cap_sh s)))" "list_all event_ok ev"
  shows "cap_inv nw (share c l ev s)"
proof (cases "cap_at s")
  case (CapRunning r)
  let ?sh = "(shared_st r)\<lparr>coll := c, addrs := l, emitted := emitted (shared_st r) @ ev\<rparr>"
  have "share c l ev s = s\<lparr>cap_at := CapRunning (r\<lparr>shared_st := ?sh\<rparr>)\<rparr>"
    using CapRunning by (simp add: share_def set_sh_def cap_sh_def Let_def)
  moreover have "shared_ok ?sh"
    using assms CapRunning by (simp add: cap_inv_def cap_sh_def Run_inv_def shared_ok_def)
  then have "Run_inv (r\<lparr>shared_st := ?sh\<rparr>)"
    using assms(1) CapRunning by (intro Run_inv_shared) (simp_all add: cap_inv_def)
  ultimately show ?thesis using assms(1) CapRunning by (simp add: cap_inv_def)
qed (use assms ClampWorkers_pos [of nw] in \<open>auto simp: cap_inv_def cap_sh_def share_def set_sh_def base_ok_def ready_def shared_ok_def Let_def\<close>)

lemma cap_inv_emit: "cap_inv nw s \<Longrightarrow> list_all event_ok ev \<Longrightarrow> cap_inv nw (emit ev s)"
  using cap_inv_sh [of nw s] unfolding emit_def by (intro cap_inv_share) auto

lemma cap_inv_gor:
  assumes "cap_inv nw s" "gor_at s i = Some (Reading w)" "g = AtTop w' \<or> g = Reading w'" "w' = w \<or> w' = read_ok w"
  shows "cap_inv nw (set_gor i g s)"
proof -
  obtain r where r: "cap_at s = CapRunning r" "i < length (gors r)" "gors r ! i = Reading w"
    using assms(2) by (auto simp: gor_at_def split: cap_pc.splits if_splits)
  have inv: "Run_inv r" using assms(1) r(1) by (simp add: cap_inv_def)
  then have "gor_ok (socks_of r) i (stop_closed r) (Reading w)" using r(2,3) by (auto simp: Run_inv_def dest!: spec)
  then have "gor_ok (socks_of r) i (stop_closed r) g"
    using assms(3,4) by (auto simp: worker_ok_def read_ok_def manager_consts)
  then have "Run_inv (r\<lparr>gors := (gors r)[i := g]\<rparr>)" using r(2,3) assms(3) by (intro Run_inv_update [OF inv]) auto
  then show ?thesis using assms(1) r(1) by (simp add: cap_inv_def set_gor_def)
qed

lemma cap_inv_top: "cap_inv nw s \<Longrightarrow> cap_inv nw (back_to_top i s)"
  using cap_inv_gor [of nw s i] by (auto simp: back_to_top_def split: option.splits gor.splits)

lemma close_stop_step: "\<not> cap_stop s \<Longrightarrow> cap_inv nw s \<Longrightarrow> cap_step nw rb s (close_stop s)"
proof (cases "cap_at s")
  case (CapRunning r)
  assume s: "\<not> cap_stop s" "cap_inv nw s"
  then have "\<not> stop_closed r" using CapRunning by (simp add: cap_inv_def)
  from cap_step.Inner [OF CapRunning Run_step.Signal [OF this]] CapRunning show ?thesis by (simp add: close_stop_def)
qed (use cap_step.Signal [of s nw rb] in \<open>auto simp: close_stop_def\<close>)

subsection \<open>The sections of a frame\<close>

text \<open>Metric calls that are accepted and do not count requests.\<close>

definition quiet :: "event list \<Rightarrow> bool" where
  "quiet ev \<longleftrightarrow> list_all event_ok ev \<and> (\<forall>ls. counted NtpClientRequestsTotal ls ev = 0)"

lemma quiet_Nil [simp]: "quiet []"
  by (simp add: quiet_def)

lemma quiet_append [intro]: "quiet ev \<Longrightarrow> quiet ev' \<Longrightarrow> quiet (ev @ ev')"
  by (simp add: quiet_def)

lemma quiet_other:
  "list_all event_ok ev \<Longrightarrow> \<forall>e \<in> set ev. Name (metric_of e) \<noteq> Name NtpClientRequestsTotal \<Longrightarrow> quiet ev"
  using counted_other [of ev NtpClientRequestsTotal] by (simp add: quiet_def)

lemma quiet_gauge [simp]: "quiet [GaugeSet m ls v] \<longleftrightarrow> event_ok (GaugeSet m ls v)"
  by (simp add: quiet_def counted_def)

definition geo_ok :: "('r, 'c) Resolver \<Rightarrow> bool" where
  "geo_ok g \<longleftrightarrow> cache g \<noteq> None \<and> loadedGauge g = Some loaded_gauge"

lemma reopenOne_quiet:
  assumes "reopenOne libs fs (Some loaded_gauge) ca p rd mt st mw db = Some (x, ca', cl, ev)"
  shows "quiet ev"
proof -
  have "\<exists>b. ev = loaded_gauge db b"
    using assms by (auto simp: reopenOne_def set_loaded_def Let_def split: option.splits if_splits)
  then show ?thesis by (auto simp: loaded_gauge_def)
qed

lemma resolve_check_ok:
  assumes "geo_ok g"
  shows "\<exists>g' cl ev. resolve_check libs fs now g = Some (g', cl, ev) \<and> geo_ok g' \<and> quiet ev"
proof -
  obtain c where c: "cache g = Some c" "loadedGauge g = Some loaded_gauge" using assms by (auto simp: geo_ok_def)
  obtain rd mt st mw c1 cl ev where
    1: "reopenOne libs fs (Some loaded_gauge) (Some c) (countryPath g) (countryReader g) (countryMtime g) (countryMtimeSet g)
      (countryMissWarn g) ''country'' = Some ((rd, mt, st, mw), Some c1, cl, ev)" by (rule reopenOne_Some)
  obtain rd2 mt2 st2 mw2 c2 cl2 ev2 where
    2: "reopenOne libs fs (Some loaded_gauge) (Some c1) (asnPath g) (asnReader g) (asnMtime g) (asnMtimeSet g)
      (asnMissWarn g) ''asn'' = Some ((rd2, mt2, st2, mw2), Some c2, cl2, ev2)" by (rule reopenOne_Some)
  show ?thesis
    using assms c 1 2 reopenOne_quiet [OF 1] reopenOne_quiet [OF 2]
    by (auto simp: resolve_check_def reopenIfNeeded_def geo_ok_def)
qed

lemma resolve_get_ok: "geo_ok g \<Longrightarrow> \<exists>v g'. resolve_get libs ip g = Some (v, g') \<and> geo_ok g'"
  by (auto simp: geo_ok_def resolve_get_def split: prod.splits)

lemma resolve_add_ok: "geo_ok g \<Longrightarrow> \<exists>g'. resolve_add libs ip v g = Some g' \<and> geo_ok g'"
  by (auto simp: geo_ok_def resolve_add_def)

text \<open>The actions on the collector that a stage still has, and the requests that it is still going to count.\<close>

fun stage_prog :: "stage \<Rightarrow> action list" where
  "stage_prog (Head as) = as"
| "stage_prog (Rest as) = as"
| "stage_prog _ = []"

fun is_count :: "action \<Rightarrow> bool" where
  "is_count (CountRequest wi r fam ver) \<longleftrightarrow> True"
| "is_count _ \<longleftrightarrow> False"

definition requests_in :: "action list \<Rightarrow> nat" where
  "requests_in as = length (filter is_count as)"

lemma requests_in_simps [simp]: "requests_in [] = 0" "requests_in (a # as) = (if is_count a then 1 else 0) + requests_in as"
  "requests_in (as @ bs) = requests_in as + requests_in bs"
  by (simp_all add: requests_in_def)

fun pending_requests :: "Parsed \<times> time \<Rightarrow> stage \<Rightarrow> nat" where
  "pending_requests f Stale = 0"
| "pending_requests f Reload = 0"
| "pending_requests f Look = 0"
| "pending_requests f (Rest as) = requests_in as"
| "pending_requests f _ = (if Direction (fst f) = ''request'' then 1 else 0)"

definition stage_ok :: "nat \<Rightarrow> stage \<Rightarrow> bool" where
  "stage_ok n st \<longleftrightarrow> stage_work st \<le> 32 \<and> list_all frame_action (stage_prog st) \<and> list_all (action_ok n) (stage_prog st)
     \<and> (\<forall>as. st = Head as \<longrightarrow> requests_in as = 0)"

lemma exec_no_requests: "exec a (c, t) = Some ((c', t'), ev, extra) \<Longrightarrow> requests_in extra = 0"
  by (cases a) (auto simp: Let_def requests_in_def filter_empty_conv split: prod.splits if_splits)

lemma frame_parts:
  "requests_in (frame_head ts d) = 0" "requests_in (tail_of mo wi f v) = (if Direction (fst f) = ''request'' then 1 else 0)"
  "list_all (action_ok n) (frame_head ts d)" "wi < n \<Longrightarrow> list_all (action_ok n) (tail_of mo wi f v)"
  by (auto simp: frame_head_def tail_of_def frame_tail_def split: prod.splits option.splits)

text \<open>A section performs one action of the collector, or leaves the collector alone.\<close>

definition section_act :: "stage \<Rightarrow> ('r, 'c) world \<Rightarrow> stage option \<Rightarrow> ('r, 'c) world \<Rightarrow> event list \<Rightarrow> action list \<Rightarrow> bool" where
  "section_act st w nxt w' ev as \<longleftrightarrow> (\<exists>a bs extra st'. stage_prog st = a # bs \<and> as = [a] \<and> nxt = Some st'
     \<and> exec a (fst w, no_locals) = Some ((fst w', no_locals), ev, extra) \<and> stage_prog st' = extra @ bs \<and> snd w' = snd w)"

definition section_quiet :: "stage \<Rightarrow> ('r, 'c) world \<Rightarrow> stage option \<Rightarrow> ('r, 'c) world \<Rightarrow> event list \<Rightarrow> action list \<Rightarrow> bool" where
  "section_quiet st w nxt w' ev as \<longleftrightarrow> stage_prog st = [] \<and> as = [] \<and> fst w' = fst w \<and> geo_ok (snd (snd w')) \<and> quiet ev"

definition section_keeps :: "nat \<Rightarrow> Parsed \<times> time \<Rightarrow> stage \<Rightarrow> stage option \<Rightarrow> action list \<Rightarrow> bool" where
  "section_keeps n f st nxt as \<longleftrightarrow>
     (case nxt of None \<Rightarrow> True | Some st' \<Rightarrow> stage_ok n st')
     \<and> requests_in as + (case nxt of None \<Rightarrow> 0 | Some st' \<Rightarrow> pending_requests f st') =
       pending_requests f st + (if st = Look \<and> nxt \<noteq> None \<and> Direction (fst f) = ''request'' then 1 else 0)"

lemma job_act_section:
  assumes "st = k (a # bs)" "k = Head \<or> k = Rest" "stage_ok n st" "Collector_ok c" "length (workers c) = n"
  shows "\<exists>nxt w' ev as. job_act a k bs (c, l, g) = Some (nxt, w', ev, as)
    \<and> section_act st (c, l, g) nxt w' ev as \<and> section_keeps n f st nxt as"
proof -
  have a: "frame_action a" "action_ok n a" "list_all frame_action bs" "list_all (action_ok n) bs" "stage_work st \<le> 32"
    using assms(1-3) by (auto simp: stage_ok_def)
  have "counters_ok (acc no_locals)" by (simp add: no_locals_def)
  from exec_ok [OF assms(4,5) this a(2)] obtain c' t ev extra where
    e: "exec a (c, no_locals) = Some ((c', t), ev, extra)" "list_all (action_ok n) extra" by blast
  have t: "t = no_locals" "list_all frame_action extra" using exec_frame_action [OF a(1) e(1)] by auto
  have "requests_in extra = 0" "sum_list (map weight extra) < weight a" using exec_no_requests [OF e(1)] exec_weight [OF e(1)] .
  moreover have "k = Head \<Longrightarrow> \<not> is_count a \<and> requests_in bs = 0" using assms(1,3) by (auto simp: stage_ok_def split: if_splits)
  ultimately show ?thesis
    using assms(1,2) a e t by (auto simp: job_act_def section_act_def section_keeps_def stage_ok_def)
qed

lemma job_next_section:
  assumes "geo_ok g" "Collector_ok c" "length (workers c) = n" "stage_ok n st" "wi < n"
  shows "\<exists>nxt w' ev as. job_next libs mo wi f st (c, l, g) = Some (nxt, w', ev, as)
    \<and> (section_act st (c, l, g) nxt w' ev as \<or> section_quiet st (c, l, g) nxt w' ev as) \<and> section_keeps n f st nxt as"
proof -
  have tail: "section_keeps n f st (Some (Rest (tail_of mo wi f v))) []" if "st = Cached \<or> (\<exists>v. st = Insert v)" for v
    using that weight_frame(2) [of mo wi f v] frame_actions(2) [of mo wi f v] frame_parts(4) [OF assms(5), of mo f v]
    by (auto simp: section_keeps_def stage_ok_def frame_parts(2))
  show ?thesis
  proof (cases st)
    case Look
    then show ?thesis
      using assms(1) weight_frame(1) frame_actions(1) frame_parts(1,3)
      by (auto simp: section_quiet_def section_keeps_def stage_ok_def)
  next
    case (Head as)
    show ?thesis
    proof (cases as)
      case Nil
      then show ?thesis using Head resolve_check_ok [OF assms(1), of libs "m_fs mo" "m_geo_now mo"]
        by (fastforce simp: section_quiet_def section_keeps_def stage_ok_def)
    next
      case (Cons a bs)
      then show ?thesis using Head job_act_section [of st Head a bs n c l g f] assms(2-4) by fastforce
    qed
  next
    case Cached
    obtain v g' where "resolve_get libs (client_of (fst f)) g = Some (v, g')" "geo_ok g'"
      using resolve_get_ok [OF assms(1)] by blast
    then show ?thesis using Cached tail
      by (cases v) (auto simp: section_quiet_def, auto simp: section_keeps_def stage_ok_def)
  next
    case (Insert v)
    obtain g' where "resolve_add libs (client_of (fst f)) v g = Some g'" "geo_ok g'"
      using resolve_add_ok [OF assms(1)] by blast
    then show ?thesis using Insert tail by (auto simp: section_quiet_def)
  next
    case (Rest as)
    show ?thesis
    proof (cases as)
      case Nil
      then show ?thesis using Rest assms(1) by (auto simp: section_quiet_def section_keeps_def)
    next
      case (Cons a bs)
      then show ?thesis using Rest job_act_section [of st Rest a bs n c l g f] assms(2-4) by fastforce
    qed
  qed (use assms(1) in \<open>auto simp: section_quiet_def section_keeps_def stage_ok_def\<close>)
qed

subsection \<open>The metric calls of the capture loop\<close>

lemma error_events:
  "quiet [Inc NtpCaptureParseErrorsTotal []]" "quiet [Inc NtpCaptureLoopErrorsTotal []]"
proof -
  have "Name NtpCaptureParseErrorsTotal = ''ntp_capture_parse_errors_total''"
    "Name NtpCaptureLoopErrorsTotal = ''ntp_capture_loop_errors_total''" by (simp_all add: metric_defs mk_def)
  then show "quiet [Inc NtpCaptureParseErrorsTotal []]" "quiet [Inc NtpCaptureLoopErrorsTotal []]"
    by (auto intro!: quiet_other)
qed

lemma ProcessFrame_quiet:
  assumes "Collector_ok c" "wi < length (workers c)" "ProcessFrame rd R now wall wi data ts (c, l) = Some ((c', l'), ev)"
  shows "quiet ev"
proof -
  consider "ev = [Inc NtpCaptureParseErrorsTotal []] \<or> ev = []"
    | d ip fam ver xid where "HandleFrame R now wall wi d ip fam ver xid ts c = Some (c', ev)"
    using assms(3) by (auto simp: ProcessFrame_def Let_def split: bind_splits if_splits prod.splits)
  then show ?thesis
  proof cases
    case 2
    have "\<forall>e \<in> set ev. Name (metric_of e) \<noteq> Name NtpClientRequestsTotal"
      using metric_of_HandleFrame [OF assms(1,2) 2] by fastforce
    then show ?thesis
      using HandleFrame_keeps [OF assms(1,2)] 2 by (intro quiet_other) (metis option.inject prod.inject)
  qed (use error_events in auto)
qed

lemma RunWorker_read_quiet:
  assumes "shared_ok sh" "i < length (workers (coll sh))" "RunWorker_read i it (sh, w) = Some ((sh', w'), oc)"
  shows "\<exists>ev. emitted sh' = emitted sh @ ev \<and> quiet ev"
proof (cases "result it")
  case ReadError
  with assms(3) error_events(2) show ?thesis
    by (auto simp: RunWorker_read_def read_failed_def Let_def split: bind_splits if_splits)
next
  case (ReadFrame data timestamp)
  then obtain c l ev where "ProcessFrame (addr_reading it) (resolve it) (mono_now it) (wall_now it) i data
      (case timestamp of None \<Rightarrow> clock_now it | Some t \<Rightarrow> t) (coll sh, addrs sh) = Some ((c, l), ev)" "emitted sh' = emitted sh @ ev"
    using assms(3) by (auto simp: RunWorker_read_def Let_def split: bind_splits)
  with ProcessFrame_quiet [OF _ assms(2)] assms(1) show ?thesis by (auto simp: shared_ok_def)
qed (use assms in \<open>auto simp: RunWorker_read_def\<close>)

lemma Run_step_quiet:
  "Run_step s t \<Longrightarrow> Run_inv s \<Longrightarrow> \<exists>ev. emitted (shared_st t) = emitted (shared_st s) @ ev \<and> quiet ev"
proof (induction rule: Run_step.induct)
  case (Read i s w it sh' w' oc)
  have "shared_ok (shared_st s)" "i < length (workers (coll (shared_st s)))"
    using Read gors_le [of s] by (auto simp: Run_inv_def shared_ok_def)
  from RunWorker_read_quiet [OF this Read(4)] show ?case by simp
qed (simp_all add: Run_exit_def Let_def)

lemma cap_step_quiet:
  "cap_step nw rb s t \<Longrightarrow> cap_inv nw s \<Longrightarrow> \<exists>ev. emitted (cap_sh t) = emitted (cap_sh s) @ ev \<and> quiet ev"
proof (induction rule: cap_step.induct)
  case (Open_ok s ops m cl ev sh)
  have "quiet ev" using Open_cases [OF Open_ok(4)] Open_ok(4)
    by (auto simp: Open_def Let_def quiet_def counted_def split: prod.splits option.splits)
  then show ?case using Open_ok by (simp add: cap_sh_def)
next
  case (Open_fails s ops m cl ev)
  then show ?case using Open_cases [OF Open_fails(4)] by (simp add: cap_sh_def)
next
  case (Inner s r r')
  then show ?case using Run_step_quiet [OF Inner(2)] by (simp add: cap_sh_def cap_inv_def)
qed (auto simp: cap_sh_def split: cap_pc.splits)

subsection \<open>The collector's view\<close>

text \<open>The process seen by the collector: one thread of \<open>Interleaving\<close> per worker and one for the flushes.\<close>

definition job_prog :: "job \<Rightarrow> action list" where
  "job_prog j = (case j of Idle \<Rightarrow> [] | Job f st \<Rightarrow> stage_prog st)"

fun flush_thread :: "flush_pc \<Rightarrow> locals \<times> action list" where
  "flush_thread (FWait t) = (t, [])"
| "flush_thread (FRun t as) = (t, as)"
| "flush_thread FStopped = (no_locals, [])"

definition job_thread :: "job \<Rightarrow> locals \<times> action list" where
  "job_thread j = (no_locals, job_prog j)"

definition sys_of :: "('s, 'r, 'c) process \<Rightarrow> system" where
  "sys_of p = \<lparr>collector = coll (cap_sh (cap p)), threads = map job_thread (jobs p) @ [flush_thread (flusher p)],
     trace = emitted (cap_sh (cap p)), performed = acts p\<rparr>"

definition good :: "nat \<Rightarrow> system \<Rightarrow> bool" where
  "good n s \<longleftrightarrow> system_ok n s \<and> (\<forall>k. conserves k s)"

lemma good_step: "step n s t \<Longrightarrow> good n s \<Longrightarrow> good n t"
  by (auto simp: good_def intro: step_ok step_conserves)

lemma good_prog:
  assumes "good n s" "i < length (threads s)" "threads s ! i = (t, as)" "list_all (action_ok n) bs" "publishes_once bs"
    "counters_ok (acc t')" "\<forall>k. in_flight k (t', bs) = in_flight k (t, as)"
  shows "good n (s\<lparr>threads := (threads s)[i := (t', bs)]\<rparr>)"
  using assms by (auto simp: good_def thread_ok_def intro!: set_prog_ok set_prog_conserves)

lemma good_trace: "good n s \<Longrightarrow> quiet ev \<Longrightarrow> good n (s\<lparr>trace := trace s @ ev\<rparr>)"
  by (auto simp: good_def quiet_def intro!: extend_trace_ok extend_trace_conserves)

lemma frame_action_once: "list_all frame_action as \<Longrightarrow> publishes_once as \<and> PublishRequests \<notin> set as"
proof (induction as)
  case (Cons a as)
  then show ?case by (cases a) auto
qed simp

lemma sys_of_simps [simp]:
  "collector (sys_of p) = coll (cap_sh (cap p))" "trace (sys_of p) = emitted (cap_sh (cap p))" "performed (sys_of p) = acts p"
  "length (threads (sys_of p)) = length (jobs p) + 1" "threads (sys_of p) ! length (jobs p) = flush_thread (flusher p)"
  "i < length (jobs p) \<Longrightarrow> threads (sys_of p) ! i = job_thread (jobs p ! i)"
  by (simp_all add: sys_of_def nth_append)

lemma sys_of_share:
  "sys_of (p\<lparr>cap := share c l ev (cap p), flusher := x, acts := acts p @ as\<rparr>) =
     (sys_of p)\<lparr>collector := c, threads := (threads (sys_of p))[length (jobs p) := flush_thread x],
       trace := trace (sys_of p) @ ev, performed := performed (sys_of p) @ as\<rparr>"
  by (simp add: sys_of_def list_update_append)

lemma sys_of_flusher: "sys_of (p\<lparr>flusher := x\<rparr>) = (sys_of p)\<lparr>threads := (threads (sys_of p))[length (jobs p) := flush_thread x]\<rparr>"
  by (simp add: sys_of_def list_update_append)

lemma sys_of_cap:
  "coll (cap_sh s) = coll (cap_sh (cap p)) \<Longrightarrow> emitted (cap_sh s) = emitted (cap_sh (cap p)) @ ev \<Longrightarrow>
   sys_of (p\<lparr>cap := s\<rparr>) = (sys_of p)\<lparr>trace := trace (sys_of p) @ ev\<rparr>"
  by (simp add: sys_of_def)

lemma sys_of_job_done:
  "i < length (jobs p) \<Longrightarrow> sys_of (job_done i f st nxt w ev as p) =
     (sys_of p)\<lparr>collector := fst w, threads := (threads (sys_of p))[i := job_thread (next_job f nxt)],
       trace := trace (sys_of p) @ ev, performed := performed (sys_of p) @ as\<rparr>"
  by (cases w) (simp add: sys_of_def job_done_def map_update list_update_append split: option.splits)

subsection \<open>The invariant of the process\<close>

definition slot_ok :: "nat \<Rightarrow> 's cap_state \<Rightarrow> nat \<Rightarrow> job \<Rightarrow> bool" where
  "slot_ok n s i j \<longleftrightarrow> (case j of Idle \<Rightarrow> True | Job f st \<Rightarrow> stage_ok n st \<and> (\<exists>w. gor_at s i = Some (Reading w)))"

lemma slot_ok_share [simp]: "slot_ok n (share c l ev s) = slot_ok n s"
  by (simp add: slot_ok_def fun_eq_iff split: job.splits)

fun flush_ok :: "nat \<Rightarrow> flush_pc \<Rightarrow> bool" where
  "flush_ok n (FRun t as) \<longleftrightarrow> sum_list (map weight as) \<le> n + 38 \<and> requests_in as = 0"
| "flush_ok n _ \<longleftrightarrow> True"

definition pending_job :: "job \<Rightarrow> nat" where
  "pending_job j = (case j of Idle \<Rightarrow> 0 | Job f st \<Rightarrow> pending_requests f st)"

definition accounted :: "('s, 'r, 'c) process \<Rightarrow> bool" where
  "accounted p \<longleftrightarrow> accepted p = requests_in (acts p) + sum_list (map pending_job (jobs p))"

definition num_workers :: "config \<Rightarrow> nat" where
  "num_workers cfg = nat (ClampWorkers (captureWorkers cfg))"

definition proc_inv :: "config \<Rightarrow> ('s, 'r, 'c) process \<Rightarrow> bool" where
  "proc_inv cfg p \<longleftrightarrow> cap_inv (captureWorkers cfg) (cap p) \<and> good (num_workers cfg) (sys_of p) \<and> geo_ok (geo p)
     \<and> length (jobs p) = num_workers cfg \<and> (\<forall>i < num_workers cfg. slot_ok (num_workers cfg) (cap p) i (jobs p ! i))
     \<and> flush_ok (num_workers cfg) (flusher p) \<and> accounted p \<and> list_all quiet (map (\<lambda>e. [e]) (polling p))"

lemma sum_list_update_nat:
  fixes f :: "'a \<Rightarrow> nat"
  shows "i < length xs \<Longrightarrow> sum_list (map f (xs[i := y])) + f (xs ! i) = sum_list (map f xs) + f y"
proof (induction xs arbitrary: i)
  case (Cons x xs)
  then show ?case by (cases i) auto
qed simp

text \<open>A job's section.\<close>

lemma section_good:
  assumes "good n (sys_of p)" "i < length (jobs p)" "jobs p ! i = Job f st" "world p = w"
    "section_act st w nxt w' ev as \<or> section_quiet st w nxt w' ev as" "section_keeps n f st nxt as"
  shows "good n (sys_of (job_done i f st nxt w' ev as p))"
proof -
  have w: "fst w = coll (cap_sh (cap p))" using assms(4) by (auto simp: world_def)
  have th: "threads (sys_of p) ! i = (no_locals, stage_prog st)"
    using assms(2,3) by (simp add: job_thread_def job_prog_def)
  show ?thesis using assms(5)
  proof
    assume "section_act st w nxt w' ev as"
    then obtain a bs extra st' where a: "stage_prog st = a # bs" "as = [a]" "nxt = Some st'"
      "exec a (fst w, no_locals) = Some ((fst w', no_locals), ev, extra)" "stage_prog st' = extra @ bs"
      by (auto simp: section_act_def)
    have "job_thread (next_job f nxt) = (no_locals, extra @ bs)"
      using a(3,5) by (simp add: job_thread_def job_prog_def next_job_def)
    then have "step n (sys_of p) (sys_of (job_done i f st nxt w' ev as p))"
      using step.act [of i "sys_of p" no_locals a bs "fst w'" no_locals ev extra n] assms(2) th a w
      by (simp add: sys_of_job_done)
    with assms(1) show ?thesis by (rule good_step [rotated])
  next
    assume q: "section_quiet st w nxt w' ev as"
    let ?bs = "job_prog (next_job f nxt)"
    have bs: "list_all (action_ok n) ?bs" "list_all frame_action ?bs"
      using assms(6) by (auto simp: section_keeps_def stage_ok_def job_prog_def next_job_def split: option.splits)
    have "good n ((sys_of p)\<lparr>threads := (threads (sys_of p))[i := (no_locals, ?bs)]\<rparr>)"
      using assms(1,2) th q bs frame_action_once [OF bs(2)]
      by (intro good_prog [where as = "[]"]) (auto simp: section_quiet_def in_flight_def no_locals_def)
    from good_trace [OF this, of ev] show ?thesis
      using q w assms(2) by (simp add: sys_of_job_done section_quiet_def job_thread_def) (simp add: sys_of_def)
  qed
qed

lemma cap_inv_good:
  assumes "cap_inv nw s" "good n t" "collector t = c" "trace t = emitted (cap_sh s) @ ev" "length (workers (coll (cap_sh s))) = n"
  shows "cap_inv nw (share c l ev s)"
  using assms by (intro cap_inv_share) (auto simp: good_def system_ok_def)

lemma good_workers: "good n (sys_of p) \<Longrightarrow> Collector_ok (coll (cap_sh (cap p))) \<and> length (workers (coll (cap_sh (cap p)))) = n"
  by (simp add: good_def system_ok_def)

lemma slot_busy:
  assumes "proc_inv cfg p" "i < length (jobs p)" "jobs p ! i = Job f st"
  shows "stage_ok (num_workers cfg) st" "\<exists>w. gor_at (cap p) i = Some (Reading w)"
  using assms by (fastforce simp: proc_inv_def slot_ok_def)+

lemma job_next_inv:
  assumes "proc_inv cfg p" "i < length (jobs p)" "jobs p ! i = Job f st"
  shows "\<exists>nxt w' ev as. job_next libs mo i f st (world p) = Some (nxt, w', ev, as)
    \<and> (section_act st (world p) nxt w' ev as \<or> section_quiet st (world p) nxt w' ev as) \<and> section_keeps (num_workers cfg) f st nxt as"
proof -
  have "geo_ok (geo p)" "good (num_workers cfg) (sys_of p)" "i < num_workers cfg" using assms(1,2) by (simp_all add: proc_inv_def)
  with slot_busy(1) [OF assms] good_workers show ?thesis unfolding world_def by (intro job_next_section) auto
qed

lemma work_inv:
  assumes "proc_inv cfg p" "i < length (jobs p)" "jobs p ! i = Job f st" "job_next libs mo i f st (world p) = Some (nxt, w', ev, as)"
  shows "proc_inv cfg (job_done i f st nxt w' ev as p)"
proof -
  let ?n = "num_workers cfg" and ?q = "job_done i f st nxt w' ev as p"
  have inv: "cap_inv (captureWorkers cfg) (cap p)" "good ?n (sys_of p)" "geo_ok (geo p)" "length (jobs p) = ?n"
    "\<forall>j < ?n. slot_ok ?n (cap p) j (jobs p ! j)" "accounted p" using assms(1) by (simp_all add: proc_inv_def)
  obtain c' l' g' where w': "w' = (c', l', g')" by (cases w')
  have sec: "section_act st (world p) nxt w' ev as \<or> section_quiet st (world p) nxt w' ev as" "section_keeps ?n f st nxt as"
    using job_next_inv [OF assms(1-3), of libs mo] assms(4) by auto
  have good: "good ?n (sys_of ?q)" by (rule section_good [OF inv(2) assms(2,3) refl sec])
  have "cap_inv (captureWorkers cfg) (share c' l' ev (cap p))"
    using cap_inv_good [OF inv(1) good] good_workers [OF inv(2)] assms(2) w' by (simp add: sys_of_job_done)
  then have cap: "cap_inv (captureWorkers cfg) (cap ?q)" using cap_inv_top w' by (auto simp: job_done_def split: option.splits)
  have "geo_ok g'" using sec(1) inv(3) w' by (auto simp: section_act_def section_quiet_def world_def)
  moreover have "slot_ok ?n (cap ?q) j (jobs ?q ! j)" if "j < ?n" for j
    using inv(4,5) that assms(2,3) sec(2) w'
    by (cases "j = i") (fastforce simp: job_done_def slot_ok_def next_job_def section_keeps_def gor_at_top split: option.splits job.splits)+
  moreover have "accounted ?q"
    using inv(6) sec(2) sum_list_update_nat [OF assms(2), of pending_job "next_job f nxt"] assms(3) w'
    by (auto simp: accounted_def job_done_def section_keeps_def next_job_def pending_job_def split: option.splits)
  ultimately show ?thesis using assms(1) good cap w' by (auto simp: proc_inv_def job_done_def)
qed

text \<open>The other goroutines.\<close>

lemma cap_quiet_inv:
  assumes "proc_inv cfg p" "cap_inv (captureWorkers cfg) s" "coll (cap_sh s) = coll (cap_sh (cap p))"
    "emitted (cap_sh s) = emitted (cap_sh (cap p)) @ ev" "quiet ev"
    "\<forall>i < length (jobs p). jobs p ! i \<noteq> Idle \<longrightarrow> gor_at s i = gor_at (cap p) i"
  shows "proc_inv cfg (p\<lparr>cap := s\<rparr>)"
proof -
  have "good (num_workers cfg) (sys_of (p\<lparr>cap := s\<rparr>))"
    using assms(1,5) by (simp add: sys_of_cap [OF assms(3,4)] proc_inv_def good_trace [of _ "sys_of p", simplified])
  moreover have "slot_ok (num_workers cfg) s i (jobs p ! i)" if "i < num_workers cfg" for i
  proof -
    have "slot_ok (num_workers cfg) (cap p) i (jobs p ! i)" "i < length (jobs p)" using assms(1) that by (auto simp: proc_inv_def)
    then show ?thesis using assms(6) by (auto simp: slot_ok_def split: job.splits)
  qed
  ultimately show ?thesis using assms(1,2) by (simp add: proc_inv_def accounted_def)
qed

lemma read_inv:
  assumes "proc_inv cfg p" "gor_at (cap p) i = Some (Reading w)" "i < length (jobs p)" "jobs p ! i = Idle"
  shows "proc_inv cfg (p\<lparr>cap := set_gor i (Reading (read_ok w)) (cap p), jobs := (jobs p)[i := Job (pk, ts) Stale]\<rparr>)" (is ?A)
    "proc_inv cfg (p\<lparr>cap := emit [Inc NtpCaptureParseErrorsTotal []] (set_gor i (AtTop (read_ok w)) (cap p))\<rparr>)" (is ?B)
proof -
  let ?n = "num_workers cfg" and ?s = "set_gor i (Reading (read_ok w)) (cap p)"
  have inv: "cap_inv (captureWorkers cfg) (cap p)" using assms(1) by (simp add: proc_inv_def)
  have cap: "cap_inv (captureWorkers cfg) ?s" "cap_inv (captureWorkers cfg) (set_gor i (AtTop (read_ok w)) (cap p))"
    using cap_inv_gor [OF inv assms(2)] by blast+
  have "map job_thread ((jobs p)[i := Job (pk, ts) Stale]) = map job_thread (jobs p)"
    using assms(3,4) by (intro nth_equalityI) (auto simp: nth_list_update job_thread_def job_prog_def)
  then have good: "good ?n (sys_of (p\<lparr>cap := ?s, jobs := (jobs p)[i := Job (pk, ts) Stale]\<rparr>))"
    using assms(1) by (simp add: proc_inv_def sys_of_def)
  have "slot_ok ?n ?s j ((jobs p)[i := Job (pk, ts) Stale] ! j)" if "j < ?n" for j
  proof (cases "j = i")
    case True
    then show ?thesis using assms(2,3) by (auto simp: slot_ok_def stage_ok_def gor_at_gor)
  next
    case False
    then show ?thesis using assms(1) that by (auto simp: proc_inv_def slot_ok_def gor_at_gor split: job.splits)
  qed
  moreover have "accounted (p\<lparr>cap := ?s, jobs := (jobs p)[i := Job (pk, ts) Stale]\<rparr>)"
    using assms(1,4) sum_list_update_nat [OF assms(3), of pending_job "Job (pk, ts) Stale"]
    by (simp add: proc_inv_def accounted_def pending_job_def)
  ultimately show ?A using assms(1) cap(1) good by (simp add: proc_inv_def)
  have "cap_inv (captureWorkers cfg) (emit [Inc NtpCaptureParseErrorsTotal []] (set_gor i (AtTop (read_ok w)) (cap p)))"
    using cap(2) error_events(1) by (intro cap_inv_emit) (auto simp: quiet_def)
  then show ?B
    using assms(3,4) error_events(1)
    by (intro cap_quiet_inv [OF assms(1), where ev = "[Inc NtpCaptureParseErrorsTotal []]"]) (auto simp: emit_def gor_at_gor)
qed

lemma flush_prog_shape:
  "requests_in (flush_prog n Log now wall1 wall2 r) = 0" "sum_list (map weight (flush_prog n Log now wall1 wall2 r)) = n + 38"
  by (auto simp: flush_prog_def requests_in_def filter_empty_conv comp_def sum_list_triv NumShards_def)

lemma tick_inv:
  assumes "proc_inv cfg p" "flusher p = FWait t"
  shows "proc_inv cfg (p\<lparr>flusher := FRun (fresh_locals t)
    (flush_prog (length (workers (coll (cap_sh (cap p))))) Log now wall1 wall2 r)\<rparr>)"
proof -
  let ?n = "num_workers cfg"
  let ?th = "(fresh_locals t, flush_prog ?n Log now wall1 wall2 r)"
  have g: "good ?n (sys_of p)" "length (workers (coll (cap_sh (cap p)))) = ?n"
    using assms(1) good_workers by (auto simp: proc_inv_def)
  have "good ?n ((sys_of p)\<lparr>threads := (threads (sys_of p))[length (jobs p) := ?th]\<rparr>)"
    using g(1) assms(2) by (intro good_prog [where t = t and as = "[]"])
      (auto simp: flush_prog_ok flush_prog_once in_flight_def fresh_locals_def newWorkerCounters_def getz_Nil counters_ok_def)
  then show ?thesis
    using assms(1) g(2) flush_prog_shape [of ?n] by (simp add: proc_inv_def sys_of_flusher accounted_def)
qed

lemma flush_act_inv:
  assumes "proc_inv cfg p" "flusher p = FRun t (a # as)" "exec a (coll (cap_sh (cap p)), t) = Some ((c, t'), ev, extra)"
  shows "proc_inv cfg (p\<lparr>cap := share c (addrs (cap_sh (cap p))) ev (cap p), flusher := FRun t' (extra @ as), acts := acts p @ [a]\<rparr>)"
    (is "proc_inv cfg ?q")
proof -
  let ?n = "num_workers cfg"
  have inv: "cap_inv (captureWorkers cfg) (cap p)" "good ?n (sys_of p)" "flush_ok ?n (FRun t (a # as))"
    using assms(1,2) by (simp_all add: proc_inv_def)
  have "step ?n (sys_of p) (sys_of ?q)"
    using step.act [of "length (jobs p)" "sys_of p" t a as c t' ev extra ?n] assms(2,3) by (simp add: sys_of_share)
  then have good: "good ?n (sys_of ?q)" using inv(2) by (rule good_step)
  have cap: "cap_inv (captureWorkers cfg) (share c (addrs (cap_sh (cap p))) ev (cap p))"
    using cap_inv_good [OF inv(1) good, of c ev] good_workers [OF inv(2)] by simp
  have "flush_ok ?n (FRun t' (extra @ as))" "\<not> is_count a"
    using inv(3) exec_no_requests [OF assms(3)] exec_weight [OF assms(3)] by (auto split: if_splits)
  with good cap assms(1) show ?thesis by (simp add: proc_inv_def accounted_def)
qed

lemma flush_over_inv:
  assumes "proc_inv cfg p" "flusher p = FRun t [] \<and> x = FWait t \<or> flusher p = FWait t \<and> x = FStopped"
  shows "proc_inv cfg (p\<lparr>flusher := x\<rparr>)"
proof -
  have g: "good (num_workers cfg) (sys_of p)" using assms(1) by (simp add: proc_inv_def)
  then have "counters_ok (acc t)"
    using assms(2) thread_ok_nth [of "num_workers cfg" "sys_of p" "length (jobs p)"] by (auto simp: good_def thread_ok_def)
  then have "good (num_workers cfg) ((sys_of p)\<lparr>threads := (threads (sys_of p))[length (jobs p) := (fst (flush_thread x), [])]\<rparr>)"
    using g assms(2) by (intro good_prog [where t = t and as = "[]"]) (auto simp: in_flight_def no_locals_def)
  then show ?thesis using assms by (auto simp: proc_inv_def sys_of_flusher accounted_def)
qed

lemma PollOnce_quiet: "\<forall>m. set (order2 env m) = set m \<Longrightarrow> list_all quiet (map (\<lambda>e. [e]) (PollOnce env (main_poller cfg)))"
  using PollOnce_gauges [of env _ "ntppoolIPv4 cfg"] unfolding main_poller_def list_all_iff by fastforce

lemma proc_inv_step: "process_step cfg libs Log mv p q \<Longrightarrow> proc_inv cfg p \<Longrightarrow> proc_inv cfg q"
proof (induction rule: process_step.induct)
  case (Signal p)
  have "cap_inv (captureWorkers cfg) (close_stop (cap p))"
    using Signal close_stop_step cap_inv_step by (metis proc_inv_def)
  then show ?case using Signal by (intro cap_quiet_inv [where ev = "[]"]) auto
next
  case (Control p s)
  then have "cap_inv (captureWorkers cfg) (cap p)" by (simp add: proc_inv_def)
  from cap_inv_step [OF Control(2) this] cap_step_quiet [OF Control(2) this] Control show ?case
    by (auto intro: cap_quiet_inv)
next
  case (Read p i w data pk ok ts)
  then show ?case using read_inv [of cfg p i w] by simp
next
  case (Work i p f st mo nxt w ev as)
  then show ?case by (intro work_inv)
next
  case (Tick p t now wall1 wall2 stats)
  then show ?case by (intro tick_inv)
next
  case (Flush_act p t a as c t' ev extra)
  then show ?case by (intro flush_act_inv)
next
  case (Poll p env)
  then show ?case using PollOnce_quiet [of env cfg] by (simp add: proc_inv_def accounted_def sys_of_def)
next
  case (Publish p e es)
  then have "quiet [e]" "cap_inv (captureWorkers cfg) (cap p)" by (simp_all add: proc_inv_def)
  then have "proc_inv cfg (p\<lparr>cap := emit [e] (cap p)\<rparr>)"
    using Publish by (intro cap_quiet_inv [where ev = "[e]"] cap_inv_emit) (auto simp: quiet_def emit_def)
  then show ?case using Publish by (simp add: proc_inv_def accounted_def sys_of_def)
qed (blast intro: flush_over_inv)+

text \<open>\<open>Control\<close> leaves the frames to \<open>Read\<close> and \<open>Work\<close>: a frame that \<open>HandleFrame\<close> sees changes the collector.\<close>

lemma HandleFrame_ticks:
  assumes "HandleFrame R now wall wi d ip fam ver xid ts c = Some (c', ev)"
  shows "framesSinceSweep c' \<noteq> framesSinceSweep c"
proof -
  have keep: "framesSinceSweep (upd_worker i g c) = framesSinceSweep c" "framesSinceSweep (fst (on_shard ip h c)) = framesSinceSweep c"
    for i g h c by (simp_all add: upd_worker_def on_shard_def upd_shard_def Let_def split: prod.splits)
  have uniq: "framesSinceSweep c2 = framesSinceSweep c1" if "add_unique ip wall c1 = Some c2" for c1 c2
    using that by (auto simp: add_unique_def currentBucketLocked_def Let_def split: bind_splits if_splits)
  have "framesSinceSweep c' = framesSinceSweep (maybe_sweep ts c)"
    using assms keep by (auto simp: HandleFrame_def Let_def dest!: uniq split: bind_splits if_splits option.splits prod.splits)
      (metis fst_conv keep uniq)+
  moreover have "framesSinceSweep (foldl (\<lambda>c i. upd_shard i (sweep_shard t) c) c1 is) = framesSinceSweep c1" for t c1 "is"
    by (induction "is" arbitrary: c1) (simp_all add: upd_shard_def)
  then have "framesSinceSweep (sweep_pending t c1) = framesSinceSweep c1" for t c1 by (simp add: sweep_pending_def)
  ultimately show ?thesis by (auto simp: maybe_sweep_def tick_def cas_reset_def PendingSweepEvery_def Let_def)
qed

lemma ProcessFrame_unchanged:
  "ProcessFrame rd R now wall wi data ts (c, l) = Some ((c, l'), ev) \<Longrightarrow> ParseNTPFrame data = Some (p, True) \<Longrightarrow>
   \<not> fst (ShouldAccept rd p l)"
  by (auto simp: ProcessFrame_def Let_def dest!: HandleFrame_ticks split: bind_splits if_splits prod.splits)

end
