(* ===== verification/ProcessRuns.thy ===== *)
theory ProcessRuns
  imports Process
begin

section \<open>Runs of the exporter process\<close>

text \<open>
  Runs are the sequences of steps of \<open>process_step\<close> from the state in which \<open>main\<close> has started its
  goroutines, each labelled with who moved. The invariant of \<open>Process\<close> holds along every run; a measure bounds
  what the goroutines still do after \<open>stop\<close> is closed. The properties at the end are those of the whole
  process: it does not panic, its metric calls are accepted, no request is lost, and it winds down.
\<close>

subsection \<open>Runs\<close>

inductive process_run ::
    "config \<Rightarrow> ('r, 'c) geo_libs \<Rightarrow> (float64 \<Rightarrow> float64) \<Rightarrow> mover list \<Rightarrow> ('s, 'r, 'c) process \<Rightarrow> ('s, 'r, 'c) process \<Rightarrow> bool"
  for cfg :: config and libs :: "('r, 'c) geo_libs" and Log :: "float64 \<Rightarrow> float64" where
  init: "process_run cfg libs Log [] p p"
| more: "process_run cfg libs Log ms p q \<Longrightarrow> process_step cfg libs Log mv q r \<Longrightarrow> process_run cfg libs Log (ms @ [mv]) p r"

lemma proc_inv_run: "process_run cfg libs Log ms p q \<Longrightarrow> proc_inv cfg p \<Longrightarrow> proc_inv cfg q"
  by (induction rule: process_run.induct) (auto intro: proc_inv_step)

lemma proc_inv_init:
  assumes "main_collector cfg = Some c" "captureWorkers cfg < 2 ^ 32" "lru_New libs 8192 \<noteq> None"
  shows "proc_inv cfg (process_init cfg libs c local m)"
proof -
  let ?p = "process_init cfg libs c local m" and ?n = "num_workers cfg"
  have c: "Collector_New (cfg_asnTopN cfg) (captureWorkers cfg) = Some c" using assms(1) by (simp add: main_collector_def)
  have n: "nat (max 1 (captureWorkers cfg)) = ?n" by (simp add: num_workers_def ClampWorkers_def)
  have w: "workers c = replicate ?n newWorkerCounters" "Collector_ok c"
    using c fresh_collector [of "cfg_asnTopN cfg" "captureWorkers cfg"] unfolding n by auto
  have sh: "coll (cap_sh (cap ?p)) = c" "emitted (cap_sh (cap ?p)) = []" "gor_at (cap ?p) i = None" for i
    by (simp_all add: process_init_def cap_init_def cap_sh_def gor_at_def)
  have sys: "sys_of ?p = \<lparr>collector = c, threads = replicate ?n (no_locals, []) @ [(no_locals\<lparr>drops := Some 0\<rparr>, [])],
      trace = [], performed = []\<rparr>"
    using sh(1,2) w(1) by (simp add: sys_of_def) (simp add: process_init_def job_thread_def job_prog_def)
  have "good ?n (sys_of ?p)"
    unfolding good_def sys using w held_replicate [OF summed_fields(1) w(1)]
    by (simp add: system_ok_def thread_ok_def no_locals_def list_all_iff conserves_def balance_def in_flight_def
        requests_of_def sum_list_replicate)
  moreover have "cap_inv (captureWorkers cfg) (cap ?p)"
    using main_collector_ok [OF assms(1,2), of local m] by (simp add: process_init_def cap_inv_def cap_init_def)
  ultimately show ?thesis
    using assms(3) w(1) by (simp add: proc_inv_def process_init_def geo_ok_def main_geo_def geoip_New_def slot_ok_def
        accounted_def pending_job_def sum_list_replicate)
qed

subsection \<open>Winding down\<close>

definition job_work :: "job \<Rightarrow> nat" where
  "job_work j = (case j of Idle \<Rightarrow> 33 | Job f st \<Rightarrow> stage_work st)"

fun flush_work :: "flush_pc \<Rightarrow> nat" where
  "flush_work (FWait t) = 1"
| "flush_work (FRun t as) = sum_list (map weight as) + 2"
| "flush_work FStopped = 0"

definition proc_work :: "('s, 'r, 'c) process \<Rightarrow> nat" where
  "proc_work p = cap_work 34 (cap p) + sum_list (map job_work (jobs p)) + flush_work (flusher p)"

definition winds_down :: "('s, 'r, 'c) process \<Rightarrow> ('s, 'r, 'c) process \<Rightarrow> bool" where
  "winds_down p q \<longleftrightarrow> cap_stop (cap q) \<and> proc_work q < proc_work p"

lemma cap_work_share [simp]: "cap_work a (share c l ev s) = cap_work a s" "cap_work a (emit ev s) = cap_work a s"
  by (simp_all add: cap_work_def emit_def share_def set_sh_def cap_sh_def Run_work_def Let_def split: cap_pc.splits)

lemma cap_work_gor:
  assumes "gor_at s i = Some (Reading w)"
  shows "cap_work a (set_gor i (Reading w') s) = cap_work a s" "cap_work a (set_gor i (AtTop w') s) + a \<le> cap_work a s"
proof -
  obtain r where r: "cap_at s = CapRunning r" "i < length (gors r)" "gors r ! i = Reading w"
    using assms by (auto simp: gor_at_def split: cap_pc.splits if_splits)
  show "cap_work a (set_gor i (Reading w') s) = cap_work a s"
    using r sum_list_update_nat [OF r(2), of gor_work "Reading w'"] by (simp add: cap_work_def set_gor_def Run_work_def)
  have "Run_work (r\<lparr>gors := (gors r)[i := AtTop w']\<rparr>) + 1 \<le> Run_work r"
    using r sum_list_update_nat [OF r(2), of gor_work "AtTop w'"] by (simp add: Run_work_def)
  from mult_le_mono2 [OF this, of a] show "cap_work a (set_gor i (AtTop w') s) + a \<le> cap_work a s"
    unfolding cap_work_def set_gor_def r(1) by (simp add: algebra_simps)
qed

lemma read_winds_down:
  assumes "gor_at (cap p) i = Some (Reading w)" "i < length (jobs p)" "jobs p ! i = Idle" "cap_stop (cap p)"
  shows "winds_down p (p\<lparr>cap := set_gor i (Reading (read_ok w)) (cap p), jobs := (jobs p)[i := Job f Stale]\<rparr>)"
    "winds_down p (p\<lparr>cap := emit ev (set_gor i (AtTop (read_ok w)) (cap p))\<rparr>)"
  using cap_work_gor(1) [OF assms(1), of 34] cap_work_gor(2) [OF assms(1), of 34 "read_ok w"] sum_list_update_nat [OF assms(2), of job_work "Job f Stale"] assms(3,4)
  by (simp_all add: winds_down_def proc_work_def job_work_def)

lemma work_winds_down:
  assumes "proc_inv cfg p" "i < length (jobs p)" "jobs p ! i = Job f st" "cap_stop (cap p)"
    "job_next libs mo i f st (world p) = Some (nxt, w', ev, as)"
  shows "winds_down p (job_done i f st nxt w' ev as p)"
proof -
  obtain c' l' g' where w': "w' = (c', l', g')" by (cases w')
  obtain w where w: "gor_at (cap p) i = Some (Reading w)" using slot_busy(2) [OF assms(1-3)] by blast
  have upd: "sum_list (map job_work ((jobs p)[i := next_job f nxt])) + stage_work st = sum_list (map job_work (jobs p)) + job_work (next_job f nxt)"
    using sum_list_update_nat [OF assms(2), of job_work "next_job f nxt"] assms(3) by (simp add: job_work_def)
  show ?thesis
  proof (cases nxt)
    case None
    have "cap_work 34 (back_to_top i (share c' l' ev (cap p))) + 34 \<le> cap_work 34 (cap p)"
      using cap_work_gor(2) [of "share c' l' ev (cap p)" i w 34 w] w by (simp add: back_to_top_def)
    then show ?thesis
      using None upd assms(4) w' by (simp add: winds_down_def proc_work_def job_done_def next_job_def job_work_def)
  next
    case (Some st')
    then have "stage_work st' < stage_work st" using job_next_work [OF assms(5)] by simp
    then show ?thesis
      using Some upd assms(4) w' by (simp add: winds_down_def proc_work_def job_done_def next_job_def job_work_def)
  qed
qed

lemma own_winds_down:
  "process_step cfg libs Log mv p q \<Longrightarrow> proc_inv cfg p \<Longrightarrow> cap_stop (cap p) \<Longrightarrow> mv = Own \<Longrightarrow> winds_down p q"
proof (induction rule: process_step.induct)
  case (Control p s)
  have "cap_inv (captureWorkers cfg) (cap p)" using Control by (simp add: proc_inv_def)
  from cap_work_step [OF Control(2) this, of 34] capture_loop.stopped_step [OF this _ Control(2)] Control(7)
  show ?case by (simp add: winds_down_def proc_work_def)
next
  case (Read p i w data pk ok ts)
  then show ?case using read_winds_down [of p i w] by simp
next
  case (Work i p f st mo nxt w ev as)
  then show ?case by (intro work_winds_down)
next
  case (Flush_act p t a as c t' ev extra)
  then show ?case using exec_weight [OF Flush_act(2)] by (simp add: winds_down_def proc_work_def)
qed (simp_all add: winds_down_def proc_work_def)

text \<open>A tick starts a flush; polls do not matter.\<close>

lemma other_work:
  "process_step cfg libs Log mv p q \<Longrightarrow> proc_inv cfg p \<Longrightarrow> mv \<noteq> Own \<Longrightarrow>
   cap_stop (cap q) = cap_stop (cap p) \<and> proc_work q \<le> proc_work p + (if mv = Ticker then num_workers cfg + 39 else 0)"
proof (induction rule: process_step.induct)
  case (Tick p t now wall1 wall2 stats)
  then have "length (workers (coll (cap_sh (cap p)))) = num_workers cfg" using good_workers by (auto simp: proc_inv_def)
  then show ?case using Tick flush_prog_shape(2) by (simp add: proc_work_def)
qed (simp_all add: proc_work_def)

definition process_done :: "config \<Rightarrow> ('s, 'r, 'c) process \<Rightarrow> bool" where
  "process_done cfg p \<longleftrightarrow> (captureDisabled cfg \<or> cap_at (cap p) = CapReturned) \<and> flusher p = FStopped \<and> (\<forall>j \<in> set (jobs p). j = Idle)"

lemma proc_progress:
  assumes "proc_inv cfg p" "cap_stop (cap p)" "\<not> process_done cfg p"
  shows "\<exists>q. process_step cfg libs Log Own p q"
proof -
  let ?n = "num_workers cfg"
  have inv: "cap_inv (captureWorkers cfg) (cap p)" "good ?n (sys_of p)" using assms(1) by (simp_all add: proc_inv_def)
  have busy: ?thesis if i: "i < length (jobs p)" "jobs p ! i = Job f st" for i f st
    using job_next_inv [OF assms(1) i, of libs undefined] process_step.Work [OF i] by blast
  have flush: ?thesis if "flusher p \<noteq> FStopped"
  proof (cases "flusher p")
    case (FRun t as)
    show ?thesis
    proof (cases as)
      case (Cons a bs)
      then have "\<exists>c' t' ev extra. exec a (coll (cap_sh (cap p)), t) = Some ((c', t'), ev, extra)"
        using step_enabled [of ?n "sys_of p" "length (jobs p)" t a bs] inv(2) FRun by (simp add: good_def)
      then show ?thesis using process_step.Flush_act [of p t a bs] FRun Cons by blast
    qed (use FRun process_step.Flush_end in blast)
  qed (use that assms(2) process_step.Flush_stop in blast)+
  show ?thesis
  proof (cases "\<exists>i < length (jobs p). jobs p ! i \<noteq> Idle")
    case True
    then obtain i where "i < length (jobs p)" "jobs p ! i \<noteq> Idle" by blast
    then show ?thesis using busy [of i] by (cases "jobs p ! i") auto
  next
    case False
    then have idle: "\<forall>j \<in> set (jobs p). j = Idle" by (auto simp: in_set_conv_nth)
    show ?thesis
    proof (cases "flusher p = FStopped")
      case True
      then have "\<not> captureDisabled cfg" "cap_at (cap p) \<noteq> CapReturned" using assms(3) idle by (auto simp: process_done_def)
      with cap_progress [OF inv(1) assms(2), of "captureRingBytes cfg"] False show ?thesis
        by (blast intro: process_step.Control)
    qed (rule flush)
  qed
qed

interpretation whole_process: stoppable "process_step cfg libs Log Own :: ('s, 'r, 'c) process \<Rightarrow> _ \<Rightarrow> bool" "proc_inv cfg"
  "\<lambda>p. cap_stop (cap p)" "process_done cfg" proc_work for cfg libs Log
proof unfold_locales
  fix p q :: "('s, 'r, 'c) process"
  assume "process_step cfg libs Log Own p q" "proc_inv cfg p" "cap_stop (cap p)"
  from own_winds_down [OF this refl] show "cap_stop (cap q)" "proc_work q < proc_work p" by (simp_all add: winds_down_def)
qed (blast intro: proc_inv_step proc_progress)+

lemma run_winds_down:
  "process_run cfg libs Log ms p q \<Longrightarrow> proc_inv cfg p \<Longrightarrow> cap_stop (cap p) \<Longrightarrow>
   cap_stop (cap q) \<and> count_list ms Own + proc_work q \<le> proc_work p + (num_workers cfg + 39) * count_list ms Ticker"
proof (induction rule: process_run.induct)
  case (more ms p q mv r)
  then have q: "proc_inv cfg q" "cap_stop (cap q)"
    "count_list ms Own + proc_work q \<le> proc_work p + (num_workers cfg + 39) * count_list ms Ticker"
    using proc_inv_run by auto
  show ?case
  proof (cases "mv = Own")
    case True
    then show ?thesis using own_winds_down [OF more(2) q(1,2)] q(3) by (simp add: winds_down_def)
  next
    case False
    then show ?thesis using other_work [OF more(2) q(1)] q(2,3) by (auto split: if_splits)
  qed
qed simp

lemma proc_work_bound: "proc_inv cfg p \<Longrightarrow> proc_work p \<le> 170 * num_workers cfg + 210"
proof -
  assume inv: "proc_inv cfg p"
  let ?n = "num_workers cfg"
  have cap: "cap_work 34 (cap p) \<le> 34 * (4 * ?n + 3) + 7"
    using inv cap_work_bound [of "captureWorkers cfg" "cap p" 34] by (simp add: proc_inv_def num_workers_def)
  have "job_work j \<le> 33" if "j \<in> set (jobs p)" for j
    using that inv by (fastforce simp: proc_inv_def in_set_conv_nth slot_ok_def stage_ok_def job_work_def split: job.splits)
  then have "sum_list (map job_work (jobs p)) \<le> ?n * 33"
    using sum_list_mono [of "jobs p" job_work "\<lambda>_. 33"] inv by (simp add: sum_list_triv proc_inv_def)
  moreover have "flush_work (flusher p) \<le> ?n + 40" using inv by (cases "flusher p") (auto simp: proc_inv_def)
  ultimately show ?thesis using cap by (simp add: proc_work_def)
qed

subsection \<open>A frame in hand\<close>

lemma silent_run:
  assumes "(silent_cap cfg)\<^sup>*\<^sup>* (cap p) s" "\<forall>j \<in> set (jobs p). j = Idle" "\<not> captureDisabled cfg"
  shows "\<exists>ms. process_run cfg libs Log ms p (p\<lparr>cap := s\<rparr>)"
  using assms(1)
proof (induction rule: rtranclp_induct)
  case base
  then show ?case using process_run.init [of cfg libs Log p] by auto
next
  case (step s t)
  then obtain ms where s: "process_run cfg libs Log ms p (p\<lparr>cap := s\<rparr>)" by blast
  have "process_step cfg libs Log Own (p\<lparr>cap := s\<rparr>) ((p\<lparr>cap := s\<rparr>)\<lparr>cap := t\<rparr>)"
    using assms(2,3) step(2) by (intro process_step.Control) (auto simp: silent_cap_def)
  from process_run.more [OF s this] show ?case by auto
qed

definition example_start :: "Collector \<Rightarrow> (nat, nat, lru_list) process" where
  "example_start c = process_init default_config example_libs c example_local (new_manager 0 0)"

lemma example_enabled: "\<not> captureDisabled default_config"
  by (simp add: default_config_def read_config_def getenv_def)

text \<open>The capture opens its sockets, the first worker reads a request and passes it on to \<open>HandleFrame\<close>.\<close>

lemma example_job:
  assumes "gor_at (cap p) 0 = Some (Reading w)" "0 < length (jobs p)" "jobs p ! 0 = Idle" "addrs (cap_sh (cap p)) = example_local"
    "process_run cfg example_libs Log ms p0 p" "acts p = []" "accepted p = 0"
  shows "\<exists>ms q. process_run cfg example_libs Log ms p0 q \<and> jobs q ! 0 = Job (example_packet, 9) (Head (frame_head 9 ''request''))
    \<and> acts q = [] \<and> accepted q = 1"
proof -
  let ?f = "(example_packet, 9)"
  define p1 where "p1 = p\<lparr>cap := set_gor 0 (Reading (read_ok w)) (cap p), jobs := (jobs p)[0 := Job ?f Stale]\<rparr>"
  have 1: "process_step cfg example_libs Log Own p p1"
    using process_step.Read [OF assms(1-3) example_request_simps(1), of cfg example_libs Log 9] by (simp add: p1_def)
  have p1: "world p1 = (coll (cap_sh (cap p)), example_local, geo p)" "jobs p1 ! 0 = Job ?f Stale" "0 < length (jobs p1)"
    "acts p1 = []" "accepted p1 = 0" using assms by (simp_all add: p1_def world_def)
  have "\<not> interval example_local \<le> time_Sub 0 (lastLoad example_local)"
    using example_current by (simp add: current_def)
  then have n1: "job_next example_libs example_moment 0 ?f Stale (world p1) = Some (Some Look, world p1, [], [])"
    by (simp add: p1(1) example_moment_def)
  define p2 where "p2 = job_done 0 ?f Stale (Some Look) (world p1) [] [] p1"
  have p2: "world p2 = (coll (cap_sh (cap p)), example_local, geo p)" "jobs p2 ! 0 = Job ?f Look" "0 < length (jobs p2)"
    "acts p2 = []" "accepted p2 = 0" using p1 by (simp_all add: p2_def job_done_def world_def next_job_def)
  have n2: "job_next example_libs example_moment 0 ?f Look (world p2) = Some (Some (Head (frame_head 9 ''request'')), world p2, [], [])"
    using example_local_set [of "[198, 51, 100, 1]"] by (simp add: p2(1) example_request_simps)
  let ?q = "job_done 0 ?f Look (Some (Head (frame_head 9 ''request''))) (world p2) [] [] p2"
  have "process_step cfg example_libs Log Own p1 p2" using process_step.Work [OF p1(3,2) n1] by (simp add: p2_def)
  moreover have "process_step cfg example_libs Log Own p2 ?q" by (rule process_step.Work [OF p2(3,2) n2])
  ultimately have "process_run cfg example_libs Log (((ms @ [Own]) @ [Own]) @ [Own]) p0 ?q"
    using assms(5) 1 by (blast intro: process_run.more)
  moreover have "jobs ?q ! 0 = Job ?f (Head (frame_head 9 ''request''))" "acts ?q = []" "accepted ?q = 1"
    using p2 by (simp_all add: job_done_def next_job_def example_request_simps)
  ultimately show ?thesis by blast
qed

lemma example_process:
  "\<exists>c ms p. main_collector default_config = Some c \<and> process_run default_config example_libs Log ms (example_start c) p
     \<and> jobs p ! 0 = Job (example_packet, 9) (Head (frame_head 9 ''request'')) \<and> acts p = [] \<and> accepted p = 1"
proof -
  obtain c where c: "main_collector default_config = Some c" "length (workers c) = 4"
    using fresh_collector [of 25 4] by (auto simp: main_collector_def default_config_simps)
  let ?p0 = "example_start c"
  have cap0: "cap ?p0 = cap_init c example_local (new_manager 0 0)" "jobs ?p0 = replicate 4 Idle" "acts ?p0 = []" "accepted ?p0 = 0"
    using c(2) example_enabled by (simp_all add: example_start_def process_init_def)
  obtain s sh where s: "(silent_cap default_config)\<^sup>*\<^sup>* (cap ?p0) s" "cap_at s = CapRunning (Run_init sh False)" "\<not> cap_stop s"
    "coll sh = c" "addrs sh = example_local" "length (sockets (mgr sh)) = 4"
    using example_open unfolding cap0(1) by blast
  obtain r w where r: "silent_step\<^sup>*\<^sup>* (Run_init sh False) r" "gors r = [Reading w]" using first_reader [of sh] s(6) by auto
  have "shared_st r = sh" using silent_steps [OF r(1)] by simp
  obtain t where t': "(silent_cap default_config)\<^sup>*\<^sup>* s t" "cap_at t = CapRunning r"
    using silent_inner [OF r(1) s(2), of default_config] s(3) by auto
  from silent_run [OF rtranclp_trans [OF s(1) t'(1)], of example_libs Log] cap0(2) example_enabled t'(2) obtain ms where
    t: "process_run default_config example_libs Log ms ?p0 (?p0\<lparr>cap := t\<rparr>)" "cap_at t = CapRunning r" by auto
  from example_job [OF _ _ _ _ t(1), of w] t(2) r(2) cap0 c(1) s(5) \<open>shared_st r = sh\<close> show ?thesis
    by (fastforce simp: gor_at_def cap_sh_def)
qed

subsection \<open>Properties\<close>

lemma reached_inv:
  assumes "main_collector cfg = Some c" "captureWorkers cfg < 2 ^ 32" "lru_New libs 8192 \<noteq> None"
    "process_run cfg libs Log ms (process_init cfg libs c local m) p"
  shows "proc_inv cfg p"
  by (rule proc_inv_run [OF assms(4) proc_inv_init [OF assms(1-3)]])

lemma jobs_not_in_flight:
  assumes "proc_inv cfg p"
  shows "sum_list (map (in_flight k) (threads (sys_of p))) = in_flight k (flush_thread (flusher p))"
proof -
  have "in_flight k (job_thread j) = 0" if "j \<in> set (jobs p)" for j
  proof -
    have "list_all frame_action (job_prog j)"
      using that assms by (fastforce simp: proc_inv_def in_set_conv_nth slot_ok_def stage_ok_def job_prog_def split: job.splits)
    from frame_action_once [OF this] show ?thesis by (simp add: in_flight_def job_thread_def)
  qed
  then have "map (\<lambda>j. in_flight k (job_thread j)) (jobs p) = map (\<lambda>_. 0) (jobs p)" by simp
  then show ?thesis by (simp add: sys_of_def comp_def sum_list_0 del: map_eq_conv)
qed

text \<open>C17: no goroutine of the process ever panics. Whatever the schedule of the workers, the flushes and the poller,
  the frames, the files, the clocks and the library calls, in every state the process can reach the next step of every
  goroutine is defined, provided the configured flush interval is positive.\<close>

theorem process_safe:
  assumes "main_collector cfg = Some c" "captureWorkers cfg < 2 ^ 32" "lru_New libs 8192 \<noteq> None"
    "process_run cfg libs Log ms (process_init cfg libs c local m) p" "0 < main_flush_interval cfg"
  shows "\<not> process_panics cfg libs p"
proof -
  let ?n = "num_workers cfg"
  note inv = reached_inv [OF assms(1-4)]
  then have p: "cap_inv (captureWorkers cfg) (cap p)" "good ?n (sys_of p)" by (simp_all add: proc_inv_def)
  have "\<not> Run_panics r" if "cap_at (cap p) = CapRunning r" for r
    using p(1) that by (intro Run_inv_no_panic) (simp add: cap_inv_def)
  moreover have "job_next libs mo i f st (world p) \<noteq> None" if "i < length (jobs p)" "jobs p ! i = Job f st" for i f st mo
    using job_next_inv [OF inv that, of libs mo] by auto
  moreover have "exec a (coll (cap_sh (cap p)), t) \<noteq> None" if "flusher p = FRun t (a # as)" for t a as
    using step_enabled [of ?n "sys_of p" "length (jobs p)" t a as] p(2) that by (auto simp: good_def)
  ultimately show ?thesis using assms(5) unfolding process_panics_def by (metis not_less)
qed

text \<open>C19: the states of the process are well typed. In every state it can reach the collector is well formed, with one
  set of counters and one slot for a frame per configured worker; a slot holds a frame only while its worker has
  left the read; and every metric call made so far, and every one the current poll is going to make, has a
  registered metric of the right kind with the right number of labels.\<close>

theorem process_typed:
  assumes "main_collector cfg = Some c" "captureWorkers cfg < 2 ^ 32" "lru_New libs 8192 \<noteq> None"
    "process_run cfg libs Log ms (process_init cfg libs c local m) p"
  shows "Collector_ok (coll (cap_sh (cap p)))
    \<and> length (workers (coll (cap_sh (cap p)))) = num_workers cfg \<and> length (jobs p) = num_workers cfg
    \<and> (\<forall>i < length (jobs p). jobs p ! i \<noteq> Idle \<longrightarrow> (\<exists>w. gor_at (cap p) i = Some (Reading w)))
    \<and> list_all event_ok (emitted (cap_sh (cap p)) @ polling p)"
proof -
  have inv: "proc_inv cfg p" by (rule reached_inv [OF assms])
  then have "list_all event_ok (polling p)" by (auto simp: proc_inv_def quiet_def list_all_iff)
  moreover have "\<exists>w. gor_at (cap p) i = Some (Reading w)" if "i < length (jobs p)" "jobs p ! i \<noteq> Idle" for i
    using slot_busy(2) [OF inv that(1)] that(2) by (cases "jobs p ! i") auto
  ultimately show ?thesis using inv by (auto simp: proc_inv_def good_def system_ok_def)
qed

text \<open>C3: no request is lost or counted twice in the whole process. The requests that passed the direction
  filter are those counted plus those whose frame is still on its way; and for every country, the
  requests published, those the workers hold and those a flush has drained and not yet published are
  exactly the requests counted.\<close>

theorem process_conserves:
  assumes "main_collector cfg = Some c" "captureWorkers cfg < 2 ^ 32" "lru_New libs 8192 \<noteq> None"
    "process_run cfg libs Log ms (process_init cfg libs c local m) p" "length (acts p) < 2 ^ 53"
  shows "accepted p = requests_in (acts p) + sum_list (map pending_job (jobs p))
    \<and> counted NtpClientRequestsTotal [country k, continent k] (emitted (cap_sh (cap p)))
      + of_int (held requests (coll (cap_sh (cap p))) k + in_flight k (flush_thread (flusher p)))
      = of_nat (requests_of k (acts p))"
proof -
  have inv: "proc_inv cfg p" by (rule reached_inv [OF assms(1-4)])
  then have "balance k (sys_of p) = of_nat (requests_of k (acts p))"
    using assms(5) by (simp add: proc_inv_def good_def conserves_def)
  then show ?thesis using inv jobs_not_in_flight [OF inv, of k] by (simp add: balance_def proc_inv_def accounted_def)
qed

text \<open>C18: the process winds down after a signal. Once \<open>stop\<close> is closed, in every run the goroutines take at most
  \<open>170 n + 210\<close> steps of their own for \<open>n\<close> workers, and \<open>n + 39\<close> more for each tick the flush loop still takes;
  and a state in which none of them has a step left is one in which the capture loop has returned, no
  frame is in hand and the flush loop has returned.\<close>

theorem process_stops:
  assumes "main_collector cfg = Some c" "captureWorkers cfg < 2 ^ 32" "lru_New libs 8192 \<noteq> None"
    "process_run cfg libs Log ms (process_init cfg libs c local m) p" "cap_stop (cap p)"
    "process_run cfg libs Log ms' p q"
  shows "count_list ms' Own \<le> 170 * num_workers cfg + 210 + (num_workers cfg + 39) * count_list ms' Ticker
    \<and> ((\<nexists>r. process_step cfg libs Log Own q r) \<longrightarrow> process_done cfg q)"
proof -
  have inv: "proc_inv cfg p" "proc_inv cfg q"
    using reached_inv [OF assms(1-4)] proc_inv_run [OF assms(6)] by auto
  have "cap_stop (cap q)" "count_list ms' Own \<le> proc_work p + (num_workers cfg + 39) * count_list ms' Ticker"
    using run_winds_down [OF assms(6) inv(1) assms(5)] by auto
  then show ?thesis using proc_work_bound [OF inv(1)] whole_process.progress [OF inv(2)] by fastforce
qed

lemma example_hyps: "captureWorkers default_config < 2 ^ 32" "lru_New example_libs 8192 \<noteq> None" "0 < main_flush_interval default_config"
  by (simp_all add: default_config_simps example_libs_simps main_flush_interval_def Second_def int64_def)

theorem process_safe_witness:
  "\<exists>c ms p. main_collector default_config = Some c \<and> process_run default_config example_libs (\<lambda>x. x - 1) ms (example_start c) p
     \<and> accepted p = 1 \<and> \<not> process_panics default_config example_libs p"
  using example_process [of "\<lambda>x. x - 1"] process_safe [OF _ example_hyps(1,2) _ example_hyps(3)] unfolding example_start_def by blast

theorem process_typed_witness:
  "\<exists>c ms p w. main_collector default_config = Some c \<and> process_run default_config example_libs (\<lambda>x. x - 1) ms (example_start c) p
     \<and> length (jobs p) = 4 \<and> gor_at (cap p) 0 = Some (Reading w) \<and> list_all event_ok (emitted (cap_sh (cap p)))"
proof -
  obtain c ms p where p: "main_collector default_config = Some c"
    "process_run default_config example_libs (\<lambda>x. x - 1) ms (example_start c) p" "jobs p ! 0 \<noteq> Idle"
    using example_process [of "\<lambda>x. x - 1"] by auto
  have "num_workers default_config = 4" by (simp add: num_workers_def default_config_simps ClampWorkers_def)
  with process_typed [OF p(1) example_hyps(1,2) p(2) [unfolded example_start_def]] have
    t: "length (jobs p) = 4" "jobs p ! 0 \<noteq> Idle \<longrightarrow> (\<exists>w. gor_at (cap p) 0 = Some (Reading w))"
      "list_all event_ok (emitted (cap_sh (cap p)))" by simp_all
  with p show ?thesis by blast
qed

theorem process_conserves_witness:
  "\<exists>c ms p. main_collector default_config = Some c \<and> process_run default_config example_libs (\<lambda>x. x - 1) ms (example_start c) p
     \<and> 1 = requests_in (acts p) + sum_list (map pending_job (jobs p))
     \<and> counted NtpClientRequestsTotal [''SE'', ''EU''] (emitted (cap_sh (cap p)))
      + of_int (held requests (coll (cap_sh (cap p))) \<lparr>country = ''SE'', continent = ''EU''\<rparr>
        + in_flight \<lparr>country = ''SE'', continent = ''EU''\<rparr> (flush_thread (flusher p)))
      = of_nat (requests_of \<lparr>country = ''SE'', continent = ''EU''\<rparr> (acts p))"
proof -
  obtain c ms p where p: "main_collector default_config = Some c"
    "process_run default_config example_libs (\<lambda>x. x - 1) ms (example_start c) p" "accepted p = 1" "acts p = []"
    using example_process [of "\<lambda>x. x - 1"] by auto
  have "length (acts p) < 2 ^ 53" using p(4) by simp
  from process_conserves [OF p(1) example_hyps(1,2) p(2) [unfolded example_start_def] this,
      of "\<lparr>country = ''SE'', continent = ''EU''\<rparr>"] p(1-3) show ?thesis
    by (intro exI [of _ c] exI [of _ ms] exI [of _ p]) simp
qed

theorem process_stops_witness:
  "\<exists>c ms p ms' q. main_collector default_config = Some c \<and> process_run default_config example_libs (\<lambda>x. x - 1) ms (example_start c) p
     \<and> cap_stop (cap p) \<and> jobs p ! 0 \<noteq> Idle \<and> process_run default_config example_libs (\<lambda>x. x - 1) ms' p q
     \<and> ms' = [Own] \<and> count_list ms' Own \<le> 890 + 43 * count_list ms' Ticker"
proof -
  obtain c ms p where p: "main_collector default_config = Some c"
    "process_run default_config example_libs (\<lambda>x. x - 1) ms (example_start c) p" "jobs p ! 0 \<noteq> Idle" "accepted p = 1"
    using example_process [of "\<lambda>x. x - 1"] by auto
  obtain ms1 p1 where p1: "process_run default_config example_libs (\<lambda>x. x - 1) ms1 (example_start c) p1" "cap_stop (cap p1)" "jobs p1 ! 0 \<noteq> Idle"
  proof (cases "cap_stop (cap p)")
    case False
    from process_run.more [OF p(2) process_step.Signal [OF this]] that show thesis using p(3) by fastforce
  qed (use p that in blast)
  have n: "num_workers default_config = 4" by (simp add: num_workers_def default_config_simps ClampWorkers_def)
  have inv: "proc_inv default_config p1" by (rule reached_inv [OF p(1) example_hyps(1,2) p1(1) [unfolded example_start_def]])
  then have "jobs p1 ! 0 \<in> set (jobs p1)" using n by (simp add: proc_inv_def)
  with p1(3) have "\<not> process_done default_config p1" by (auto simp: process_done_def)
  from proc_progress [OF inv p1(2) this] obtain q where "process_step default_config example_libs (\<lambda>x. x - 1) Own p1 q" by blast
  from process_run.more [OF process_run.init this] have r: "process_run default_config example_libs (\<lambda>x. x - 1) [Own] p1 q" by simp
  from process_stops [OF p(1) example_hyps(1,2) p1(1) [unfolded example_start_def] p1(2) r] n
  have "count_list [Own] Own \<le> 890 + 43 * count_list [Own] Ticker" by simp
  with p(1) p1 r show ?thesis by blast
qed

end
