(* ===== verification/NtpLoad.thy ===== *)
theory NtpLoad
  imports Asn Hll Shutdown
begin

section \<open>scripts/ntp-load: the load generator\<close>

text \<open>
  The load generator \<open>scripts/ntp-load/main.go\<close>: its packets, the pacing of the senders, the matching
  of replies to sends, and the statistics of a run. The sockets and the server are not modelled: the
  outcome of resolving, dialling, writing and reading is an argument or a choice of the step relation,
  and so are the clock readings. Floating-point values are finite; a quotient that Go makes infinite
  or NaN is \<open>None\<close>.
\<close>

record Config =
  Server :: string
  Rate :: float64
  Duration :: duration
  Workers :: int
  Timeout :: duration

record Stats =
  Sent :: nat
  Received :: nat
  LossPercent :: float64
  AchievedRate :: "float64 option"
  P50US :: float64
  P95US :: float64
  P99US :: float64
  MaxUS :: float64

subsection \<open>Packets\<close>

text \<open>\<open>binary.BigEndian\<close>.\<close>

definition PutUint64 :: "u64 \<Rightarrow> bytes" where
  "PutUint64 v = map (\<lambda>i. ucast (drop_bit (56 - 8 * i) v)) [0..<8]"

definition Uint64 :: "bytes \<Rightarrow> u64" where
  "Uint64 bs = foldl (\<lambda>v b. 256 * v + ucast b) 0 bs"

definition ntpPacket :: "u64 \<Rightarrow> bytes" where
  "ntpPacket cookie = 0x23 # replicate 39 0 @ PutUint64 cookie"

subsection \<open>The server address\<close>

text \<open>\<open>net.SplitHostPort\<close>: host and port, or \<open>None\<close> for an error.\<close>

definition last_colon :: "string \<Rightarrow> (string \<times> string) option" where
  "last_colon s =
     (let port = takeWhile (\<lambda>c. c \<noteq> CHR '':'') (rev s)
      in if length port = length s then None else Some (take (length s - length port - 1) s, rev port))"

definition SplitHostPort :: "string \<Rightarrow> (string \<times> string) option" where
  "SplitHostPort s =
     (case last_colon s of
        None \<Rightarrow> None
      | Some (front, port) \<Rightarrow>
          if s \<noteq> [] \<and> hd s = CHR ''['' then
            (let inner = takeWhile (\<lambda>c. c \<noteq> CHR '']'') s; host = tl inner
             in if length inner = length s \<or> length inner + 1 \<noteq> length front then None
                else if CHR ''['' \<in> set (tl s) \<or> CHR '']'' \<in> set (drop (length inner + 1) s) then None
                else Some (host, port))
          else if CHR '':'' \<in> set front \<or> CHR ''['' \<in> set s \<or> CHR '']'' \<in> set s then None
          else Some (front, port))"

definition resolveServer :: "string \<Rightarrow> string option" where
  "resolveServer addr =
     (if SplitHostPort addr \<noteq> None then Some addr
      else if SplitHostPort (addr @ '':123'') \<noteq> None then Some (addr @ '':123'') else None)"

subsection \<open>Pacing\<close>

definition batchSleepFloor :: duration where "batchSleepFloor = 200 * Microsecond"
definition maxBatch :: int where "maxBatch = 64"

datatype plan = Sleep duration | Spin | Batch nat

text \<open>One pass of the pacing loop, before anything is sent: \<open>n\<close> packets have been sent so far.\<close>

definition send_plan :: "time \<Rightarrow> duration \<Rightarrow> nat \<Rightarrow> time \<Rightarrow> plan" where
  "send_plan start every n now =
     (let due = start + int64 (int64 (int n) * every)
      in if now < due then (if every \<ge> batchSleepFloor then Sleep (time_Sub due now) else Spin)
         else let batch = 1;
                  batch = (if every < batchSleepFloor
                    then let behind = time_Sub now due; b = int64 (go_div behind every + 1)
                         in if b > maxBatch then maxBatch else b
                    else batch)
              in Batch (nat batch))"

subsection \<open>The goroutines of a worker\<close>

text \<open>The sender is at the top of its loop, in a batch with \<open>k\<close> sends to go, between the registration of
  a cookie and the write, between a successful write and its count, or done. The receiver is at the
  top of its loop, reading, between a match and its count, between the count and the append, or
  done.\<close>

datatype sender_pc = STop | SSend nat | SWrite u64 nat | SCount u64 nat | SDone
datatype receiver_pc = RTop | RRead | RHit duration | RAppend duration | RDone

text \<open>The fields of the worker and of its loops; \<open>recvs\<close> is its share of the common \<open>recvCount\<close>, and
  \<open>wire\<close> the cookies of the packets that were written.\<close>

record load_worker =
  w_pending :: "(u64, time) gomap"
  w_rtts :: "duration list"
  w_sent :: nat
  recvs :: nat
  cookieBase :: u64
  counter :: nat
  sends :: nat
  wire :: "u64 list"
  s_pc :: sender_pc
  r_pc :: receiver_pc

definition newWorker :: "nat \<Rightarrow> load_worker" where
  "newWorker i = \<lparr>w_pending = [], w_rtts = [], w_sent = 0, recvs = 0, cookieBase = push_bit 48 (of_nat i), counter = 0,
     sends = 0, wire = [], s_pc = STop, r_pc = RTop\<rparr>"

definition next_cookie :: "load_worker \<Rightarrow> u64" where
  "next_cookie w = or (cookieBase w) (of_nat (counter w + 1))"

definition register :: "time \<Rightarrow> nat \<Rightarrow> load_worker \<Rightarrow> load_worker" where
  "register now k w = (let cookie = next_cookie w
     in w\<lparr>counter := counter w + 1, w_pending := AList.update cookie now (w_pending w), s_pc := SWrite cookie k\<rparr>)"

definition reply_cookie :: "bytes \<Rightarrow> u64" where
  "reply_cookie data = Uint64 (take 8 (drop 24 data))"

definition on_reply :: "bytes \<Rightarrow> time \<Rightarrow> load_worker \<Rightarrow> load_worker" where
  "on_reply data now w =
     (if length data < 48 then w\<lparr>r_pc := RTop\<rparr>
      else case map_of (w_pending w) (reply_cookie data) of
        None \<Rightarrow> w\<lparr>r_pc := RTop\<rparr>
      | Some sentAt \<Rightarrow> w\<lparr>w_pending := AList.delete (reply_cookie data) (w_pending w), r_pc := RHit (time_Sub now sentAt)\<rparr>)"

text \<open>One step of a worker's goroutines. A reply reads at most 128 bytes; the server answers packets that were
  written (\<open>answers\<close>).\<close>

definition answers :: "load_worker \<Rightarrow> bytes \<Rightarrow> bool" where
  "answers w data \<longleftrightarrow> length data \<le> 128 \<and> (48 \<le> length data \<longrightarrow> reply_cookie data \<in> set (wire w))"

inductive worker_step :: "time \<Rightarrow> duration \<Rightarrow> bool \<Rightarrow> bool \<Rightarrow> load_worker \<Rightarrow> load_worker \<Rightarrow> bool"
  for start :: time and every :: duration and stop finished :: bool where
  S_stop: "s_pc w = STop \<Longrightarrow> stop \<Longrightarrow> worker_step start every stop finished w (w\<lparr>s_pc := SDone\<rparr>)"
| S_wait: "s_pc w = STop \<Longrightarrow> \<not> stop \<Longrightarrow> send_plan start every (sends w) now \<in> {Spin, Sleep d} \<Longrightarrow> worker_step start every stop finished w w"
| S_batch: "s_pc w = STop \<Longrightarrow> \<not> stop \<Longrightarrow> send_plan start every (sends w) now = Batch k \<Longrightarrow>
    worker_step start every stop finished w (w\<lparr>s_pc := SSend k\<rparr>)"
| S_end: "s_pc w = SSend 0 \<Longrightarrow> worker_step start every stop finished w (w\<lparr>s_pc := STop\<rparr>)"
| S_quit: "s_pc w = SSend (Suc k) \<Longrightarrow> stop \<Longrightarrow> worker_step start every stop finished w (w\<lparr>s_pc := SDone\<rparr>)"
| S_register: "s_pc w = SSend (Suc k) \<Longrightarrow> \<not> stop \<Longrightarrow> worker_step start every stop finished w (register now k w)"
| S_written: "s_pc w = SWrite c k \<Longrightarrow> worker_step start every stop finished w (w\<lparr>wire := wire w @ [c], s_pc := SCount c k\<rparr>)"
| S_failed: "s_pc w = SWrite c k \<Longrightarrow>
    worker_step start every stop finished w (w\<lparr>w_pending := AList.delete c (w_pending w), sends := sends w + 1, s_pc := SSend k\<rparr>)"
| S_count: "s_pc w = SCount c k \<Longrightarrow>
    worker_step start every stop finished w (w\<lparr>w_sent := w_sent w + 1, sends := sends w + 1, s_pc := SSend k\<rparr>)"
| R_stop: "r_pc w = RTop \<Longrightarrow> finished \<Longrightarrow> worker_step start every stop finished w (w\<lparr>r_pc := RDone\<rparr>)"
| R_read: "r_pc w = RTop \<Longrightarrow> \<not> finished \<Longrightarrow> worker_step start every stop finished w (w\<lparr>r_pc := RRead\<rparr>)"
| R_error: "r_pc w = RRead \<Longrightarrow> worker_step start every stop finished w (w\<lparr>r_pc := RTop\<rparr>)"
| R_reply: "r_pc w = RRead \<Longrightarrow> answers w data \<Longrightarrow> worker_step start every stop finished w (on_reply data now w)"
| R_count: "r_pc w = RHit d \<Longrightarrow> worker_step start every stop finished w (w\<lparr>recvs := recvs w + 1, r_pc := RAppend d\<rparr>)"
| R_append: "r_pc w = RAppend d \<Longrightarrow> worker_step start every stop finished w (w\<lparr>w_rtts := w_rtts w @ [d], r_pc := RTop\<rparr>)"

subsection \<open>A run\<close>

text \<open>The main goroutine sleeps for the duration, then closes \<open>stop\<close>, sleeps for the timeout, then closes
  \<open>done\<close>, and waits for all the others.\<close>

datatype load_pc = LSending | LDraining | LWaiting | LReturned

record load_state =
  w_list :: "load_worker list"
  l_pc :: load_pc

definition load_init :: "nat \<Rightarrow> load_state" where
  "load_init n = \<lparr>w_list = map newWorker [0..<n], l_pc = LSending\<rparr>"

definition worker_exited :: "load_worker \<Rightarrow> bool" where
  "worker_exited w \<longleftrightarrow> s_pc w = SDone \<and> r_pc w = RDone"

inductive load_step :: "time \<Rightarrow> duration \<Rightarrow> load_state \<Rightarrow> load_state \<Rightarrow> bool" for start :: time and every :: duration where
  L_stop: "l_pc s = LSending \<Longrightarrow> load_step start every s (s\<lparr>l_pc := LDraining\<rparr>)"
| L_done: "l_pc s = LDraining \<Longrightarrow> load_step start every s (s\<lparr>l_pc := LWaiting\<rparr>)"
| L_wait: "l_pc s = LWaiting \<Longrightarrow> list_all worker_exited (w_list s) \<Longrightarrow> load_step start every s (s\<lparr>l_pc := LReturned\<rparr>)"
| L_worker: "i < length (w_list s) \<Longrightarrow>
    worker_step start every (l_pc s \<noteq> LSending) (l_pc s = LWaiting \<or> l_pc s = LReturned) (w_list s ! i) w \<Longrightarrow>
    load_step start every s (s\<lparr>w_list := (w_list s)[i := w]\<rparr>)"

subsection \<open>Setup and statistics\<close>

text \<open>Conversion of a float64 to \<open>int64\<close> truncates; out of range the result \<open>conv\<close> depends on the machine.\<close>

definition f2i :: "(float64 \<Rightarrow> int) \<Rightarrow> float64 \<Rightarrow> int" where
  "f2i conv x = (let t = (if 0 \<le> x then \<lfloor>x\<rfloor> else - \<lfloor>- x\<rfloor>) in if - (2 ^ 63) \<le> t \<and> t < 2 ^ 63 then t else conv x)"

definition load_interval :: "(float64 \<Rightarrow> int) \<Rightarrow> float64 \<Rightarrow> int \<Rightarrow> duration" where
  "load_interval conv rate n =
     (let perWorkerRate = fl (rate / fl (of_int n));
          perWorkerRate = (if perWorkerRate \<le> 0 then 1 else perWorkerRate);
          every = f2i conv (fl (fl (of_int Second) / perWorkerRate))
      in if every \<le> 0 then Nanosecond else every)"

definition f2u :: "(float64 \<Rightarrow> u64) \<Rightarrow> float64 \<Rightarrow> u64" where
  "f2u conv x = (let t = (if 0 \<le> x then \<lfloor>x\<rfloor> else - \<lfloor>- x\<rfloor>) in if 0 \<le> t \<and> t < 2 ^ 64 then of_int t else conv x)"

text \<open>The capacity reserved for the round-trip times of each of \<open>n\<close> workers. \<open>make\<close> panics when it is
  negative or above what the machine can allocate.\<close>

definition perWorkerCap :: "(float64 \<Rightarrow> u64) \<Rightarrow> float64 \<Rightarrow> duration \<Rightarrow> int \<Rightarrow> int" where
  "perWorkerCap conv rate d n =
     (let estimatedSends = f2u conv (fl (rate * dur_Seconds d)) + 1024
      in int64 (int64 (uint (estimatedSends div of_int n)) + 1024))"

datatype run_error = RateError | ServerError | ResolveError | DialError nat | MakePanic

fun dial_loop :: "bool \<Rightarrow> (nat \<Rightarrow> 'c option) \<Rightarrow> nat \<Rightarrow> 'c list \<Rightarrow> (run_error + 'c list) \<times> 'c list" where
  "dial_loop room dial 0 conns = (Inr conns, [])"
| "dial_loop room dial (Suc k) conns =
     (case dial (length conns) of
        None \<Rightarrow> (Inl (DialError (length conns)), conns)
      | Some c \<Rightarrow> if room then dial_loop room dial k (conns @ [c]) else (Inl MakePanic, []))"

text \<open>The first part of \<open>run\<close>: the connections, or an error, and the connections closed on the way.\<close>

definition run_setup ::
  "(float64 \<Rightarrow> u64) \<Rightarrow> int \<Rightarrow> (string \<Rightarrow> bool) \<Rightarrow> (nat \<Rightarrow> 'c option) \<Rightarrow> Config \<Rightarrow> (run_error + 'c list) \<times> 'c list" where
  "run_setup conv maxCap resolves dial cfg =
     (let n = (if Workers cfg < 1 then 1 else Workers cfg)
      in if Rate cfg \<le> 0 then (Inl RateError, [])
         else case resolveServer (Server cfg) of
           None \<Rightarrow> (Inl ServerError, [])
         | Some server \<Rightarrow>
             if \<not> resolves server then (Inl ResolveError, [])
             else let cap = perWorkerCap conv (Rate cfg) (Duration cfg) n
                  in dial_loop (0 \<le> cap \<and> cap \<le> maxCap) dial (nat n) [])"

definition percentile :: "float64 list \<Rightarrow> float64 \<Rightarrow> float64" where
  "percentile xs p =
     (if xs = [] then 0
      else let idx = \<lceil>fl (p * fl (of_nat (length xs)))\<rceil> - 1;
               idx = (if idx < 0 then 0 else idx);
               idx = (if idx \<ge> int (length xs) then int (length xs) - 1 else idx)
           in xs ! nat idx)"

definition fl_div :: "float64 \<Rightarrow> float64 \<Rightarrow> float64 option" where
  "fl_div a b = (if b = 0 then None else Some (fl (a / b)))"

text \<open>The last part of \<open>run\<close>, from the workers at the end and the time since the start.\<close>

definition run_stats :: "Config \<Rightarrow> duration \<Rightarrow> load_worker list \<Rightarrow> Stats" where
  "run_stats cfg since ws =
     (let elapsed = int64 (since - Timeout cfg);
          elapsed = (if elapsed \<le> 0 then Duration cfg else elapsed);
          sent = sum_list (map w_sent ws);
          received = sum_list (map recvs ws);
          rtts = sort_Slice (<) (concat (map (\<lambda>w. map (\<lambda>d. fl (of_int (go_div d 1000))) (w_rtts w)) ws))
      in \<lparr>Sent = sent, Received = received,
          LossPercent = (if sent > 0
            then let lost = (of_nat sent - of_nat received :: u64)
                 in fl (fl (100 * fl (of_nat (unat lost))) / fl (of_nat sent)) else 0),
          AchievedRate = fl_div (fl (of_nat sent)) (dur_Seconds elapsed),
          P50US = percentile rtts (fl (50 / 100)), P95US = percentile rtts (fl (95 / 100)), P99US = percentile rtts (fl (99 / 100)),
          MaxUS = (if length rtts > 0 then rtts ! (length rtts - 1) else 0)\<rparr>)"

text \<open>\<open>main\<close>: the exit status.\<close>

definition load_main :: "string \<Rightarrow> (run_error + Stats) \<Rightarrow> nat" where
  "load_main server outcome =
     (if server = [] then 2
      else case outcome of
        Inl err \<Rightarrow> 2
      | Inr stats \<Rightarrow> if LossPercent stats > 1 then 1 else 0)"

subsection \<open>Packets and replies\<close>

lemma horner_digits:
  "foldl (\<lambda>v d. 256 * v + d) 0 (map (\<lambda>i. n div 256 ^ (m - Suc i) mod 256) [0..<m]) = n mod 256 ^ m" for n :: nat
proof (induction m arbitrary: n)
  case (Suc m)
  have eq: "map (\<lambda>i. n div 256 ^ (m - i) mod 256) [0..<m] = map (\<lambda>i. n div 256 div 256 ^ (m - Suc i) mod 256) [0..<m]"
    by (auto simp: Suc_diff_Suc div_mult2_eq [symmetric] simp flip: power_Suc)
  have "foldl (\<lambda>v d. 256 * v + d) 0 (map (\<lambda>i. n div 256 ^ (Suc m - Suc i) mod 256) [0..<Suc m]) =
      256 * (n div 256 mod 256 ^ m) + n mod 256"
    using Suc.IH [of "n div 256"] unfolding diff_Suc_Suc by (simp add: eq del: map_eq_conv)
  also have "\<dots> = n mod 256 ^ Suc m" by (simp add: mod_mult2_eq add.commute)
  finally show ?case .
qed simp

lemma Uint64_eq: "Uint64 bs = of_nat (foldl (\<lambda>v d. 256 * v + d) 0 (map unat bs))"
proof -
  have "foldl (\<lambda>v b. 256 * v + ucast b) (of_nat a) bs = (of_nat (foldl (\<lambda>v d. 256 * v + d) a (map unat bs)) :: u64)" for a
  proof (induction bs arbitrary: a)
    case (Cons b bs)
    then show ?case using Cons.IH [of "256 * a + unat b"] by simp
  qed simp
  from this [of 0] show ?thesis by (simp add: Uint64_def)
qed

lemma Uint64_PutUint64: "Uint64 (PutUint64 v) = v"
proof -
  have "unat (ucast (drop_bit (56 - 8 * i) v) :: byte) = unat v div 256 ^ (8 - Suc i) mod 256" if "i < 8" for i
  proof -
    have "(256 :: nat) ^ (8 - Suc i) = (2 ^ 8) ^ (8 - Suc i)" by simp
    also have "\<dots> = 2 ^ (56 - 8 * i)" unfolding power_mult [symmetric] by (simp add: diff_mult_distrib2)
    finally have "(256 :: nat) ^ (8 - Suc i) = 2 ^ (56 - 8 * i)" .
    moreover have "unat (drop_bit (56 - 8 * i) v) = unat v div 2 ^ (56 - 8 * i)"
      by (subst unat_drop_bit_eq) (simp add: drop_bit_eq_div)
    ultimately show ?thesis by (simp add: unsigned_ucast_eq take_bit_eq_mod)
  qed
  then have "map unat (PutUint64 v) = map (\<lambda>i. unat v div 256 ^ (8 - Suc i) mod 256) [0..<8]"
    by (simp add: PutUint64_def)
  then have "Uint64 (PutUint64 v) = of_nat (unat v mod 256 ^ 8)"
    by (simp only: Uint64_eq horner_digits)
  moreover have "unat v mod 256 ^ 8 = unat v" using unsigned_less [of v, where ?'a = nat] by simp
  ultimately show ?thesis by simp
qed

lemma length_PutUint64 [simp]: "length (PutUint64 v) = 8"
  by (simp add: PutUint64_def)

lemma ntpPacket_shape: "length (ntpPacket c) = 48" "hd (ntpPacket c) = 0x23" "take 8 (drop 40 (ntpPacket c)) = PutUint64 c"
  by (simp_all add: ntpPacket_def)

subsection \<open>Cookies\<close>

abbreviation cookie :: "nat \<Rightarrow> nat \<Rightarrow> u64" where
  "cookie i j \<equiv> or (push_bit 48 (of_nat i)) (of_nat j)"

lemma unat_of_nat_u64: "n < 2 ^ 64 \<Longrightarrow> unat (of_nat n :: u64) = n"
  by (simp add: unsigned_of_nat take_bit_nat_eq_self)

lemma unat_cookie: "i < 2 ^ 16 \<Longrightarrow> j < 2 ^ 48 \<Longrightarrow> unat (cookie i j) = i * 2 ^ 48 + j"
proof -
  assume i: "i < 2 ^ 16" and j: "j < 2 ^ 48"
  have "i * 2 ^ 48 < 2 ^ 16 * 2 ^ 48" using i by simp
  then have "unat (push_bit 48 (of_nat i) :: u64) = push_bit 48 i"
    using unat_of_nat_u64 [of "i * 2 ^ 48"] by (simp add: push_bit_eq_mult)
  moreover have "unat (of_nat j :: u64) = j" using j by (simp add: unat_of_nat_u64)
  ultimately show ?thesis
    using j or_push_bit_nat [of j 48 i] by (simp add: unsigned_or_eq push_bit_eq_mult or.commute)
qed

lemma cookie_inject:
  assumes "i < 2 ^ 16" "i' < 2 ^ 16" "j < 2 ^ 48" "j' < 2 ^ 48"
  shows "cookie i j = cookie i' j' \<longleftrightarrow> i = i' \<and> j = j'"
proof
  assume "cookie i j = cookie i' j'"
  then have e: "i * 2 ^ 48 + j = i' * 2 ^ 48 + j'" using unat_cookie [OF assms(1,3)] unat_cookie [OF assms(2,4)] by simp
  have "(i * 2 ^ 48 + j) div 2 ^ 48 = i" "(i' * 2 ^ 48 + j') div 2 ^ 48 = i'" using assms(3,4) by simp_all
  with e have "i = i'" by simp
  with e show "i = i' \<and> j = j'" by simp
qed simp

subsection \<open>Accounting\<close>

text \<open>The packets written whose cookie is no longer pending have been answered.\<close>

definition answered :: "load_worker \<Rightarrow> nat" where
  "answered w = length (filter (\<lambda>c. map_of (w_pending w) c = None) (wire w))"

definition known :: "nat \<Rightarrow> load_worker \<Rightarrow> u64 set" where
  "known i w = cookie i ` {1..counter w}"

definition worker_inv :: "nat \<Rightarrow> load_worker \<Rightarrow> bool" where
  "worker_inv i w \<longleftrightarrow> cookieBase w = push_bit 48 (of_nat i) \<and> (counter w < 2 ^ 48 \<longrightarrow>
     distinct (map fst (w_pending w)) \<and> distinct (wire w)
     \<and> fst ` set (w_pending w) \<subseteq> known i w \<and> set (wire w) \<subseteq> known i w
     \<and> (\<forall>c k. s_pc w = SWrite c k \<longrightarrow> c \<in> fst ` set (w_pending w) \<and> c \<notin> set (wire w))
     \<and> length (wire w) = w_sent w + (case s_pc w of SCount c k \<Rightarrow> 1 | _ \<Rightarrow> 0)
     \<and> recvs w + (case r_pc w of RHit d \<Rightarrow> 1 | _ \<Rightarrow> 0) = answered w
     \<and> length (w_rtts w) + (case r_pc w of RHit d \<Rightarrow> 1 | RAppend d \<Rightarrow> 1 | _ \<Rightarrow> 0) = answered w)"

lemma worker_fields [simp]:
  "known i (w\<lparr>r_pc := x\<rparr>) = known i w" "known i (w\<lparr>s_pc := y\<rparr>) = known i w" "known i (w\<lparr>w_pending := p\<rparr>) = known i w"
  "known i (w\<lparr>w_sent := n\<rparr>) = known i w" "known i (w\<lparr>sends := n\<rparr>) = known i w" "known i (w\<lparr>recvs := n\<rparr>) = known i w"
  "known i (w\<lparr>w_rtts := ds\<rparr>) = known i w" "known i (w\<lparr>wire := cs\<rparr>) = known i w"
  "answered (w\<lparr>r_pc := x\<rparr>) = answered w" "answered (w\<lparr>s_pc := y\<rparr>) = answered w" "answered (w\<lparr>w_sent := n\<rparr>) = answered w"
  "answered (w\<lparr>sends := n\<rparr>) = answered w" "answered (w\<lparr>recvs := n\<rparr>) = answered w" "answered (w\<lparr>w_rtts := ds\<rparr>) = answered w"
  by (simp_all add: known_def answered_def)

lemma next_cookie_new:
  assumes "worker_inv i w" "i < 2 ^ 16" "counter w + 1 < 2 ^ 48"
  shows "next_cookie w = cookie i (counter w + 1)" "next_cookie w \<notin> known i w"
proof -
  show c: "next_cookie w = cookie i (counter w + 1)"
    using assms(1) by (simp add: next_cookie_def worker_inv_def)
  show "next_cookie w \<notin> known i w"
  proof
    assume "next_cookie w \<in> known i w"
    then obtain j where j: "cookie i (counter w + 1) = cookie i j" "j \<le> counter w" unfolding c known_def by auto
    then show False using cookie_inject [of i i "counter w + 1" j] assms(2,3) by simp
  qed
qed

lemma answered_update:
  assumes "c \<notin> set (wire w)"
  shows "answered (w\<lparr>w_pending := AList.update c t (w_pending w)\<rparr>) = answered w"
    "answered (w\<lparr>w_pending := AList.delete c (w_pending w)\<rparr>) = answered w"
  using assms by (auto simp: answered_def update_conv' delete_conv' intro!: arg_cong [of _ _ length] filter_cong)

lemma answered_hit:
  assumes "distinct (wire w)" "c \<in> set (wire w)" "map_of (w_pending w) c \<noteq> None"
  shows "answered (w\<lparr>w_pending := AList.delete c (w_pending w)\<rparr>) = answered w + 1"
proof -
  have "set (filter (\<lambda>x. map_of (AList.delete c (w_pending w)) x = None) (wire w)) =
      insert c (set (filter (\<lambda>x. map_of (w_pending w) x = None) (wire w)))"
    using assms(2) by (auto simp: delete_conv')
  moreover have "c \<notin> set (filter (\<lambda>x. map_of (w_pending w) x = None) (wire w))" using assms(3) by simp
  ultimately show ?thesis
    using assms(1) unfolding answered_def by (simp add: distinct_card [symmetric] distinct_filter del: set_filter)
qed

lemma worker_inv_register:
  assumes "worker_inv i w" "i < 2 ^ 16" "s_pc w = SSend (Suc k)"
  shows "worker_inv i (register now k w)"
proof (cases "counter w + 1 < 2 ^ 48")
  case False
  then show ?thesis using assms(1) by (simp add: worker_inv_def register_def Let_def)
next
  case True
  let ?c = "next_cookie w"
  have c: "?c = cookie i (counter w + 1)" "?c \<notin> known i w" using next_cookie_new [OF assms(1,2) True] by blast+
  have core: "distinct (map fst (w_pending w))" "distinct (wire w)" "fst ` set (w_pending w) \<subseteq> known i w" "set (wire w) \<subseteq> known i w"
    using assms(1) True by (simp_all add: worker_inv_def)
  have k: "known i (register now k w) = insert ?c (known i w)"
    by (auto simp: known_def register_def Let_def c(1) atLeastAtMostSuc_conv)
  have a: "answered (register now k w) = answered w"
    using answered_update(1) [of ?c w now] c(2) core(4) by (auto simp: register_def Let_def answered_def)
  show ?thesis
    using assms True core k a c by (auto simp: worker_inv_def register_def Let_def dom_update distinct_update)
qed

lemma worker_inv_reply:
  assumes "worker_inv i w" "r_pc w = RRead" "answers w data"
  shows "worker_inv i (on_reply data now w)"
proof (cases "length data < 48 \<or> map_of (w_pending w) (reply_cookie data) = None")
  case True
  then have "on_reply data now w = w\<lparr>r_pc := RTop\<rparr>" by (auto simp: on_reply_def)
  then show ?thesis using assms(1,2) by (simp add: worker_inv_def)
next
  case False
  let ?c = "reply_cookie data"
  obtain t where t: "map_of (w_pending w) ?c = Some t" "\<not> length data < 48" using False by auto
  have c: "?c \<in> set (wire w)" using assms(3) t(2) by (simp add: answers_def)
  have w': "on_reply data now w = w\<lparr>w_pending := AList.delete ?c (w_pending w), r_pc := RHit (time_Sub now t)\<rparr>"
    using t by (simp add: on_reply_def)
  have a: "answered (w\<lparr>w_pending := AList.delete ?c (w_pending w)\<rparr>) = answered w + 1" if "distinct (wire w)"
    using answered_hit [OF that c] t(1) by simp
  have "fst ` set (AList.delete ?c (w_pending w)) = fst ` set (w_pending w) - {?c}"
    using arg_cong [OF delete_keys [of ?c "w_pending w"], of set] by simp
  then show ?thesis using assms(1,2) c a unfolding worker_inv_def w'
    by (simp add: distinct_delete subset_iff) blast
qed

lemma worker_inv_written:
  assumes "worker_inv i w" "s_pc w = SWrite c k"
  shows "worker_inv i (w\<lparr>wire := wire w @ [c], s_pc := SCount c k\<rparr>)"
proof (cases "counter w < 2 ^ 48")
  case True
  have c: "c \<in> fst ` set (w_pending w)" "c \<notin> set (wire w)" using assms True by (simp_all add: worker_inv_def)
  then have "map_of (w_pending w) c \<noteq> None" by (simp add: map_of_eq_None_iff)
  then have "answered (w\<lparr>wire := wire w @ [c]\<rparr>) = answered w" by (simp add: answered_def)
  then show ?thesis using assms c by (auto simp: worker_inv_def)
qed (use assms in \<open>simp add: worker_inv_def\<close>)

lemma worker_inv_failed:
  assumes "worker_inv i w" "s_pc w = SWrite c k"
  shows "worker_inv i (w\<lparr>w_pending := AList.delete c (w_pending w), sends := sends w + 1, s_pc := SSend k\<rparr>)"
proof (cases "counter w < 2 ^ 48")
  case True
  have "c \<notin> set (wire w)" using assms True by (simp add: worker_inv_def)
  moreover have "fst ` set (AList.delete c (w_pending w)) = fst ` set (w_pending w) - {c}"
    using arg_cong [OF delete_keys [of c "w_pending w"], of set] by simp
  ultimately show ?thesis using assms answered_update(2) [of c w]
    by (simp add: worker_inv_def distinct_delete subset_iff)
qed (use assms in \<open>simp add: worker_inv_def\<close>)

lemma worker_inv_step:
  "worker_step start every stop finished w w' \<Longrightarrow> worker_inv i w \<Longrightarrow> i < 2 ^ 16 \<Longrightarrow> worker_inv i w'"
proof (induction rule: worker_step.induct)
  case (S_register w k now)
  then show ?case by (blast intro: worker_inv_register)
next
  case (S_written w c k)
  then show ?case by (blast intro: worker_inv_written)
next
  case (S_failed w c k)
  then show ?case by (blast intro: worker_inv_failed)
next
  case (R_reply w data now)
  then show ?case by (blast intro: worker_inv_reply)
qed (simp_all add: worker_inv_def)

text \<open>Once both channels are closed each step brings a worker closer to its exit.\<close>

fun sender_work :: "sender_pc \<Rightarrow> nat" where
  "sender_work SDone = 0" | "sender_work STop = 1" | "sender_work (SSend k) = 2"
| "sender_work (SCount c k) = 3" | "sender_work (SWrite c k) = 4"

fun receiver_work :: "receiver_pc \<Rightarrow> nat" where
  "receiver_work RDone = 0" | "receiver_work RTop = 1" | "receiver_work (RAppend d) = 2"
| "receiver_work (RHit d) = 3" | "receiver_work RRead = 4"

definition worker_work :: "load_worker \<Rightarrow> nat" where
  "worker_work w = sender_work (s_pc w) + receiver_work (r_pc w)"

lemma worker_work_step: "worker_step start every stop finished w w' \<Longrightarrow> stop \<Longrightarrow> finished \<Longrightarrow> worker_work w' < worker_work w"
  by (induction rule: worker_step.induct)
    (auto simp: worker_work_def register_def Let_def on_reply_def split: option.splits)

lemma worker_progress: "stop \<Longrightarrow> finished \<Longrightarrow> \<not> worker_exited w \<Longrightarrow> \<exists>w'. worker_step start every stop finished w w'"
proof -
  assume c: "stop" "finished" and "\<not> worker_exited w"
  then consider "s_pc w \<noteq> SDone" | "r_pc w \<noteq> RDone" by (auto simp: worker_exited_def)
  then show ?thesis
  proof cases
    case 1
    then show ?thesis
    proof (cases "s_pc w")
      case (SSend k)
      with c show ?thesis by (cases k) (blast intro: worker_step.intros)+
    qed (use c in \<open>blast intro: worker_step.intros\<close>)+
  next
    case 2
    then show ?thesis by (cases "r_pc w") (use c in \<open>blast intro: worker_step.intros\<close>)+
  qed
qed

lemma exited_no_step: "worker_step start every stop finished w w' \<Longrightarrow> \<not> worker_exited w"
  by (induction rule: worker_step.induct) (simp_all add: worker_exited_def)

definition load_inv :: "nat \<Rightarrow> load_state \<Rightarrow> bool" where
  "load_inv n s \<longleftrightarrow> n \<le> 2 ^ 16 \<and> length (w_list s) = n \<and> (\<forall>i < n. worker_inv i (w_list s ! i))
     \<and> (l_pc s = LReturned \<longrightarrow> list_all worker_exited (w_list s))"

lemma load_inv_init: "n \<le> 2 ^ 16 \<Longrightarrow> load_inv n (load_init n)"
  by (simp add: load_inv_def load_init_def worker_inv_def newWorker_def known_def answered_def)

lemma load_inv_step: "load_step start every s t \<Longrightarrow> load_inv n s \<Longrightarrow> load_inv n t"
proof (induction rule: load_step.induct)
  case (L_worker i s w)
  have "l_pc s \<noteq> LReturned"
    using L_worker exited_no_step [OF L_worker(2)] by (auto simp: load_inv_def list_all_length)
  moreover have "worker_inv i w"
    using L_worker worker_inv_step [OF L_worker(2), of i] by (simp add: load_inv_def)
  ultimately show ?case using L_worker by (auto simp: load_inv_def nth_list_update)
qed (auto simp: load_inv_def)

definition load_stopping :: "load_state \<Rightarrow> bool" where
  "load_stopping s \<longleftrightarrow> l_pc s = LWaiting \<or> l_pc s = LReturned"

definition load_work :: "load_state \<Rightarrow> nat" where
  "load_work s = (\<Sum>w \<leftarrow> w_list s. worker_work w) + (if l_pc s = LReturned then 0 else 1)"

lemma load_work_step: "load_step start every s t \<Longrightarrow> load_stopping s \<Longrightarrow> load_work t < load_work s"
proof (induction rule: load_step.induct)
  case (L_worker i s w)
  then have "worker_work w < worker_work (w_list s ! i)"
    by (intro worker_work_step [OF L_worker(2)]) (auto simp: load_stopping_def)
  with sum_list_update_less [of i "w_list s" worker_work w] L_worker(1) show ?case by (simp add: load_work_def)
qed (auto simp: load_stopping_def load_work_def)

lemma load_progress: "load_stopping s \<Longrightarrow> l_pc s \<noteq> LReturned \<Longrightarrow> \<exists>t. load_step start every s t"
proof (cases "list_all worker_exited (w_list s)")
  case True
  then show "load_stopping s \<Longrightarrow> l_pc s \<noteq> LReturned \<Longrightarrow> ?thesis" by (auto simp: load_stopping_def intro: load_step.L_wait)
next
  case False
  assume s: "load_stopping s" "l_pc s \<noteq> LReturned"
  from False obtain i where i: "i < length (w_list s)" "\<not> worker_exited (w_list s ! i)" by (auto simp: list_all_length)
  from worker_progress [OF TrueI TrueI i(2), of start every] s obtain w where
    "worker_step start every (l_pc s \<noteq> LSending) (l_pc s = LWaiting \<or> l_pc s = LReturned) (w_list s ! i) w"
    by (auto simp: load_stopping_def)
  from load_step.L_worker [OF i(1) this] show ?thesis by blast
qed

interpretation load_run: stoppable "load_step start every" "load_inv n" load_stopping "\<lambda>s. l_pc s = LReturned" load_work for start every n
proof unfold_locales
  show "load_stopping t" if "load_stopping s" "load_step start every s t" for s t
    using that(2,1) by (induction rule: load_step.induct) (auto simp: load_stopping_def)
qed (blast intro: load_inv_step load_work_step load_progress)+

subsection \<open>Statistics\<close>

interpretation flt: slice_less "(<) :: float64 \<Rightarrow> float64 \<Rightarrow> bool"
  by unfold_locales auto

definition percentile_index :: "float64 \<Rightarrow> nat \<Rightarrow> nat" where
  "percentile_index p n = nat (min (int n - 1) (max 0 (\<lceil>fl (p * fl (of_nat n))\<rceil> - 1)))"

lemma percentile_eq: "xs \<noteq> [] \<Longrightarrow> percentile xs p = xs ! percentile_index p (length xs)"
proof -
  assume "xs \<noteq> []"
  then have "0 < int (length xs)" by simp
  then show ?thesis using \<open>xs \<noteq> []\<close>
    by (auto simp: percentile_def percentile_index_def Let_def min_def max_def intro!: arg_cong [of _ _ "(!) xs"])
qed

lemma percentile_index_less: "0 < n \<Longrightarrow> percentile_index p n < n"
  by (auto simp: percentile_index_def min_def max_def)

lemma percentile_index_mono: "0 \<le> p \<Longrightarrow> p \<le> q \<Longrightarrow> percentile_index p n \<le> percentile_index q n"
proof -
  assume "0 \<le> p" "p \<le> q"
  moreover have "0 \<le> fl (of_nat n)" by (simp add: fl_nonneg)
  ultimately have "fl (p * fl (of_nat n)) \<le> fl (q * fl (of_nat n))" by (intro fl_mono) (simp_all add: mult_right_mono)
  then have "\<lceil>fl (p * fl (of_nat n))\<rceil> \<le> \<lceil>fl (q * fl (of_nat n))\<rceil>" by (rule ceiling_mono)
  then show ?thesis unfolding percentile_index_def by (intro nat_mono min.mono max.mono diff_right_mono order.refl)
qed

lemma percentile_le:
  assumes "flt.sorted xs" "xs \<noteq> []" "0 \<le> p" "p \<le> q"
  shows "percentile xs p \<le> percentile xs q" "percentile xs q \<le> xs ! (length xs - 1)" "percentile xs p \<in> set xs"
proof -
  have le: "xs ! a \<le> xs ! b" if "a \<le> b" "b < length xs" for a b
    using assms(1) that by (cases "a = b") (auto simp: sorted_wrt_iff_nth_less not_less)
  have len: "0 < length xs" using assms(2) by simp
  note idx = percentile_index_less [OF len] percentile_index_mono [OF assms(3,4), of "length xs"]
  show "percentile xs p \<le> percentile xs q" using le [OF idx(2) idx(1)] by (simp add: percentile_eq [OF assms(2)])
  show "percentile xs q \<le> xs ! (length xs - 1)" using le [of "percentile_index q (length xs)" "length xs - 1"] idx(1) [of q] len
    by (simp add: percentile_eq [OF assms(2)])
  show "percentile xs p \<in> set xs" using idx(1) [of p] by (simp add: percentile_eq [OF assms(2)])
qed

text \<open>The round-trip times in microseconds, sorted, as \<open>run\<close> reports on them.\<close>

definition sorted_rtts :: "load_worker list \<Rightarrow> float64 list" where
  "sorted_rtts ws = sort_Slice (<) (concat (map (\<lambda>w. map (\<lambda>d. fl (of_int (go_div d 1000))) (w_rtts w)) ws))"

lemma fl_100_bound:
  assumes "lost \<le> sent" "0 < sent" "sent < 2 ^ 46"
  shows "0 \<le> fl (fl (100 * fl (of_nat lost)) / fl (of_nat sent))" "fl (fl (100 * fl (of_nat lost)) / fl (of_nat sent)) \<le> 100"
proof -
  have s: "fl (of_nat sent) = of_nat sent" "fl (of_nat lost) = of_nat lost" using assms by (simp_all add: fl_of_nat)
  have l: "fl (100 * of_nat lost) = 100 * of_nat lost" using fl_of_nat [of "100 * lost"] assms by simp
  have pos: "0 < (of_nat sent :: rat)" using assms by simp
  then show "0 \<le> fl (fl (100 * fl (of_nat lost)) / fl (of_nat sent))" unfolding s l by (intro fl_nonneg) simp
  have "100 * of_nat lost / of_nat sent \<le> (100 :: rat)" using assms pos by (simp add: divide_le_eq)
  then have "fl (100 * of_nat lost / of_nat sent) \<le> fl (of_nat 100)" by (intro fl_mono) simp_all
  then show "fl (fl (100 * fl (of_nat lost)) / fl (of_nat sent)) \<le> 100" unfolding s l by (simp add: fl_of_nat del: of_nat_numeral)
qed

lemma exited_accounts:
  assumes "worker_inv i w" "worker_exited w" "counter w < 2 ^ 48"
  shows "recvs w \<le> w_sent w" "length (w_rtts w) = recvs w"
proof -
  have "length (wire w) = w_sent w" "recvs w = answered w" "length (w_rtts w) = answered w"
    using assms by (simp_all add: worker_inv_def worker_exited_def)
  moreover have "answered w \<le> length (wire w)" unfolding answered_def by (rule length_filter_le)
  ultimately show "recvs w \<le> w_sent w" "length (w_rtts w) = recvs w" by simp_all
qed

subsection \<open>Addresses and setup\<close>

lemma last_colon_append: "CHR '':'' \<notin> set port \<Longrightarrow> last_colon (front @ CHR '':'' # port) = Some (front, port)"
proof -
  assume "CHR '':'' \<notin> set port"
  then have "takeWhile (\<lambda>c. c \<noteq> CHR '':'') (rev (front @ CHR '':'' # port)) = rev port"
    by (subst rev_append) (auto simp: takeWhile_tail)
  then show ?thesis by (simp add: last_colon_def Let_def)
qed

lemma last_colon_None: "CHR '':'' \<notin> set s \<Longrightarrow> last_colon s = None"
proof -
  assume "CHR '':'' \<notin> set s"
  then have "takeWhile (\<lambda>c. c \<noteq> CHR '':'') (rev s) = rev s" by (auto simp: takeWhile_eq_all_conv)
  then show ?thesis unfolding last_colon_def Let_def by (metis length_rev)
qed

definition plain :: "string \<Rightarrow> bool" where
  "plain s \<longleftrightarrow> set s \<inter> set '':[]'' = {}"

lemma plain_123: "plain ''123''" by (simp add: plain_def)

lemma SplitHostPort_plain: "plain host \<Longrightarrow> plain port \<Longrightarrow> SplitHostPort (host @ CHR '':'' # port) = Some (host, port)"
  using last_colon_append [of port host] by (cases host) (auto simp: SplitHostPort_def plain_def)

lemma SplitHostPort_bracketed:
  assumes "CHR ''['' \<notin> set v6" "CHR '']'' \<notin> set v6"
  shows "SplitHostPort (CHR ''['' # v6 @ [CHR '']'']) = None"
    and "plain port \<Longrightarrow> SplitHostPort (CHR ''['' # v6 @ CHR '']'' # CHR '':'' # port) = Some (v6, port)"
proof -
  have t: "takeWhile (\<lambda>c. c \<noteq> CHR '']'') (CHR ''['' # v6 @ CHR '']'' # s) = CHR ''['' # v6" for s
    using assms(2) by (auto simp: takeWhile_append)
  have "length front \<le> length v6" if "last_colon (CHR ''['' # v6 @ [CHR '']'']) = Some (front, port)" for front port
    using that by (auto simp: last_colon_def Let_def split: if_splits)
  then show "SplitHostPort (CHR ''['' # v6 @ [CHR '']'']) = None"
    using t [of "[]"] by (fastforce simp: SplitHostPort_def Let_def split: option.splits)
  assume p: "plain port"
  then have "last_colon (CHR ''['' # v6 @ CHR '']'' # CHR '':'' # port) = Some (CHR ''['' # v6 @ [CHR '']''], port)"
    using last_colon_append [of port "CHR ''['' # v6 @ [CHR '']'']"] by (simp add: plain_def)
  then show "SplitHostPort (CHR ''['' # v6 @ CHR '']'' # CHR '':'' # port) = Some (v6, port)"
    using assms t [of "CHR '':'' # port"] p by (auto simp: SplitHostPort_def Let_def plain_def)
qed

lemma SplitHostPort_two_colons:
  assumes "CHR ''['' \<notin> set s" "CHR '':'' \<in> set front" "CHR '':'' \<notin> set port" "s = front @ CHR '':'' # port"
  shows "SplitHostPort s = None"
  using assms last_colon_append [of port front] by (cases front) (auto simp: SplitHostPort_def)

text \<open>A host without a port gets port 123, in its bare form or as a bracketed IPv6 literal; an address with
  a port is kept; an IPv6 literal without brackets is refused.\<close>

lemma resolveServer_port:
  assumes "plain host" "plain port" "CHR ''['' \<notin> set v6" "CHR '']'' \<notin> set v6"
    "2 \<le> count_list v6 (CHR '':'')"
  shows "resolveServer host = Some (host @ '':123'') \<and> SplitHostPort (host @ '':123'') = Some (host, ''123'')
    \<and> resolveServer (host @ '':'' @ port) = Some (host @ '':'' @ port)
    \<and> resolveServer (''['' @ v6 @ '']'') = Some (''['' @ v6 @ '']:123'') \<and> SplitHostPort (''['' @ v6 @ '']:123'') = Some (v6, ''123'')
    \<and> resolveServer v6 = None"
proof -
  have "CHR '':'' \<in> set v6" using assms(5) count_notin [of "CHR '':''" v6] by fastforce
  then obtain front p where v: "v6 = front @ CHR '':'' # p" "CHR '':'' \<notin> set p" by (metis split_list_last)
  then have "CHR '':'' \<in> set front" using assms(5) count_notin [of "CHR '':''" front] by fastforce
  then have "SplitHostPort v6 = None" "SplitHostPort (v6 @ '':123'') = None"
    using SplitHostPort_two_colons [of v6 front p] SplitHostPort_two_colons [of "v6 @ '':123''" v6 "''123''"] assms(3) v by auto
  moreover have "SplitHostPort host = None" using assms(1) by (simp add: SplitHostPort_def last_colon_None plain_def)
  ultimately show ?thesis
    using SplitHostPort_plain [OF assms(1) plain_123] SplitHostPort_plain [OF assms(1,2)]
      SplitHostPort_bracketed [OF assms(3,4)] plain_123 by (simp add: resolveServer_def)
qed

lemma dial_loop_outcome:
  "dial_loop True dial k conns = (case find (\<lambda>i. dial i = None) [length conns..<length conns + k] of
     None \<Rightarrow> (Inr (conns @ map (the \<circ> dial) [length conns..<length conns + k]), [])
   | Some i \<Rightarrow> (Inl (DialError i), conns @ map (the \<circ> dial) [length conns..<i]))"
proof (induction k arbitrary: conns)
  case (Suc k)
  have u: "[length conns..<length conns + Suc k] = length conns # [Suc (length conns)..<Suc (length conns) + k]"
    by (simp add: upt_conv_Cons)
  show ?case
  proof (cases "dial (length conns)")
    case None
    then show ?thesis unfolding u by simp
  next
    case (Some c)
    have "i \<ge> Suc (length conns)" if "find (\<lambda>i. dial i = None) [Suc (length conns)..<Suc (length conns) + k] = Some i" for i
      using that nth_mem [of _ "[Suc (length conns)..<Suc (length conns) + k]"] unfolding find_Some_iff by fastforce
    then show ?thesis
      using Suc.IH [of "conns @ [c]"] Some
      unfolding u by (auto simp: upt_conv_Cons simp del: upt_Suc split: option.splits)
  qed
qed simp

subsection \<open>Properties\<close>

text \<open>C13: the accounting of a run. When \<open>run\<close> has returned, over every interleaving of the senders, the receivers and
  the server, no more replies were counted than packets sent, with one round-trip time for each, so
  the unsigned difference does not wrap, the loss is a percentage, and the reported percentiles are
  measured values in order. The server is assumed to answer only packets that were sent, and a worker
  to send fewer than 2^48 of them.\<close>

theorem load_accounting:
  assumes "n \<le> 2 ^ 16" "(load_step start every)\<^sup>*\<^sup>* (load_init n) s" "l_pc s = LReturned"
    "\<forall>w \<in> set (w_list s). counter w < 2 ^ 48" "stats = run_stats cfg since (w_list s)" "Sent stats < 2 ^ 46"
  shows "Received stats \<le> Sent stats \<and> length (sorted_rtts (w_list s)) = Received stats
    \<and> 0 \<le> LossPercent stats \<and> LossPercent stats \<le> 100
    \<and> (0 < Received stats \<longrightarrow> {P50US stats, P95US stats, P99US stats, MaxUS stats} \<subseteq> set (sorted_rtts (w_list s))
        \<and> P50US stats \<le> P95US stats \<and> P95US stats \<le> P99US stats \<and> P99US stats \<le> MaxUS stats)"
proof -
  let ?xs = "sorted_rtts (w_list s)"
  have inv: "load_inv n s" by (rule load_run.inv_steps [OF assms(2) load_inv_init [OF assms(1)]])
  have acc: "recvs w \<le> w_sent w \<and> length (w_rtts w) = recvs w" if w: "w \<in> set (w_list s)" for w
  proof -
    obtain i where i: "i < length (w_list s)" "w = w_list s ! i" using w by (auto simp: in_set_conv_nth)
    have "worker_inv i w" "worker_exited w" "counter w < 2 ^ 48"
      using inv i w assms(3,4) by (auto simp: load_inv_def list_all_iff)
    from exited_accounts [OF this] show ?thesis by blast
  qed
  have sums: "(\<Sum>w \<leftarrow> w_list s. recvs w) \<le> (\<Sum>w \<leftarrow> w_list s. w_sent w)" "length ?xs = (\<Sum>w \<leftarrow> w_list s. recvs w)"
    using acc by (auto intro!: sum_list_mono arg_cong [of _ _ sum_list] simp: sorted_rtts_def length_concat comp_def)
  have st: "Received stats = (\<Sum>w \<leftarrow> w_list s. recvs w)" "Sent stats = (\<Sum>w \<leftarrow> w_list s. w_sent w)"
    "P50US stats = percentile ?xs (fl (50 / 100))" "P95US stats = percentile ?xs (fl (95 / 100))"
    "P99US stats = percentile ?xs (fl (99 / 100))" "MaxUS stats = (if 0 < length ?xs then ?xs ! (length ?xs - 1) else 0)"
    by (simp_all only: assms(5) run_stats_def Let_def sorted_rtts_def Stats.select_convs)
  have lost: "unat (of_nat (Sent stats) - of_nat (Received stats) :: u64) = Sent stats - Received stats"
    using sums(1) st(1,2) assms(6) unat_of_nat_u64 [of "Sent stats - Received stats"] by simp
  have "LossPercent stats = (if 0 < Sent stats then fl (fl (100 * fl (of_nat (Sent stats - Received stats))) / fl (of_nat (Sent stats))) else 0)"
    unfolding lost [symmetric] by (simp only: assms(5) run_stats_def Let_def Stats.select_convs)
  then have loss: "0 \<le> LossPercent stats \<and> LossPercent stats \<le> 100"
    using fl_100_bound [of "Sent stats - Received stats" "Sent stats"] assms(6) by simp
  have sorted: "flt.sorted ?xs" unfolding sorted_rtts_def by (rule flt.sorted_sort_Slice)
  have "0 \<le> fl (50 / 100)" "fl (50 / 100) \<le> fl (95 / 100)" "fl (95 / 100) \<le> fl (99 / 100)" "0 \<le> fl (95 / 100)" "0 \<le> fl (99 / 100)"
    by (simp_all add: fl_nonneg fl_mono)
  note le = percentile_le [OF sorted _ this(1,2)] percentile_le [OF sorted _ this(4,3)] percentile_le [OF sorted _ this(5) order.refl]
  have "{P50US stats, P95US stats, P99US stats, MaxUS stats} \<subseteq> set ?xs
      \<and> P50US stats \<le> P95US stats \<and> P95US stats \<le> P99US stats \<and> P99US stats \<le> MaxUS stats" if "0 < Received stats"
  proof -
    have "?xs \<noteq> []" using that unfolding st(1) sums(2) [symmetric] length_greater_0_conv .
    with le show ?thesis unfolding st(3-6) by simp
  qed
  then show ?thesis using sums st(1,2) loss by simp
qed

text \<open>One packet sent at time 0 and answered 3 ms later.\<close>

lemma lift_worker:
  "(worker_step start every False False)\<^sup>*\<^sup>* w w' \<Longrightarrow>
   (load_step start every)\<^sup>*\<^sup>* \<lparr>w_list = [w], l_pc = LSending\<rparr> \<lparr>w_list = [w'], l_pc = LSending\<rparr>"
proof (induction rule: rtranclp_induct)
  case (step w1 w2)
  have "load_step start every \<lparr>w_list = [w1], l_pc = LSending\<rparr> \<lparr>w_list = [w2], l_pc = LSending\<rparr>"
    using load_step.L_worker [of 0 "\<lparr>w_list = [w1], l_pc = LSending\<rparr>" start every w2] step(2) by simp
  with step(3) show ?case by simp
qed simp

definition example_worker :: "(u64, time) gomap \<Rightarrow> duration list \<Rightarrow> nat \<Rightarrow> u64 list \<Rightarrow> sender_pc \<Rightarrow> receiver_pc \<Rightarrow> load_worker" where
  "example_worker p ds n cs s r = \<lparr>w_pending = p, w_rtts = ds, w_sent = n, recvs = length ds, cookieBase = 0, counter = length cs,
     sends = n, wire = cs, s_pc = s, r_pc = r\<rparr>"

lemma example_exchange:
  "(worker_step 0 Second False False)\<^sup>*\<^sup>* (newWorker 0) (example_worker [] [3 * Millisecond] 1 [1] (SSend 0) RTop)"
proof -
  let ?st = "worker_step 0 Second False False"
  let ?w = "example_worker"
  let ?r = "replicate 24 0 @ PutUint64 1 @ replicate 16 0"
  have n: "newWorker 0 = ?w [] [] 0 [] STop RTop" by (simp add: newWorker_def example_worker_def)
  have plan: "send_plan 0 Second 0 0 = Batch 1" by (simp add: send_plan_def Let_def int64_def batchSleepFloor_def Microsecond_def Second_def)
  have 1: "?st (?w [] [] 0 [] STop RTop) (?w [] [] 0 [] (SSend 1) RTop)"
    using worker_step.S_batch [of "?w [] [] 0 [] STop RTop" False 0 Second 0 1 False] plan by (simp add: example_worker_def)
  let ?w2 = "\<lparr>w_pending = [(1, 0)], w_rtts = [], w_sent = 0, recvs = 0, cookieBase = 0, counter = 1, sends = 0, wire = [], s_pc = SWrite 1 0, r_pc = RTop\<rparr>"
  have 2: "?st (?w [] [] 0 [] (SSend 1) RTop) ?w2"
    using worker_step.S_register [of "?w [] [] 0 [] (SSend 1) RTop" 0 False 0 Second False 0]
    by (simp add: example_worker_def register_def Let_def next_cookie_def)
  have 3: "?st ?w2 (?w [(1, 0)] [] 0 [1] (SCount 1 0) RTop)"
    using worker_step.S_written [of ?w2 1 0 0 Second False False] by (simp add: example_worker_def)
  have 4: "?st (?w [(1, 0)] [] 0 [1] (SCount 1 0) RTop) (?w [(1, 0)] [] 1 [1] (SSend 0) RTop)"
    using worker_step.S_count [of "?w [(1, 0)] [] 0 [1] (SCount 1 0) RTop" 1 0 0 Second False False] by (simp add: example_worker_def)
  have 5: "?st (?w [(1, 0)] [] 1 [1] (SSend 0) RTop) (?w [(1, 0)] [] 1 [1] (SSend 0) RRead)"
    using worker_step.R_read [of "?w [(1, 0)] [] 1 [1] (SSend 0) RTop" False 0 Second False] by (simp add: example_worker_def)
  have c: "reply_cookie ?r = 1" by (simp add: reply_cookie_def Uint64_PutUint64)
  have 6: "?st (?w [(1, 0)] [] 1 [1] (SSend 0) RRead) (?w [] [] 1 [1] (SSend 0) (RHit (3 * Millisecond)))"
    using worker_step.R_reply [of "?w [(1, 0)] [] 1 [1] (SSend 0) RRead" ?r 0 Second False False "3 * Millisecond"]
    by (simp add: answers_def on_reply_def c) (simp add: example_worker_def time_Sub_def Millisecond_def c)
  let ?w7 = "(?w [] [] 1 [1] (SSend 0) (RAppend (3 * Millisecond)))\<lparr>recvs := 1\<rparr>"
  have 7: "?st (?w [] [] 1 [1] (SSend 0) (RHit (3 * Millisecond))) ?w7"
    using worker_step.R_count [of "?w [] [] 1 [1] (SSend 0) (RHit (3 * Millisecond))" "3 * Millisecond" 0 Second False False]
    by (simp add: example_worker_def)
  have 8: "?st ?w7 (?w [] [3 * Millisecond] 1 [1] (SSend 0) RTop)"
    using worker_step.R_append [of ?w7 "3 * Millisecond" 0 Second False False] by (simp add: example_worker_def)
  show ?thesis unfolding n using 1 2 3 4 5 6 7 8 by (meson converse_rtranclp_into_rtranclp rtranclp.rtrancl_refl)
qed

lemma example_returns:
  "\<exists>s w. (load_step 0 Second)\<^sup>*\<^sup>* (load_init 1) s \<and> l_pc s = LWaiting \<and> w_list s = [example_worker [] [3 * Millisecond] 1 [1] (SSend 0) RTop]
     \<and> (load_step 0 Second)\<^sup>*\<^sup>* (load_init 1) \<lparr>w_list = [w], l_pc = LReturned\<rparr> \<and> w = example_worker [] [3 * Millisecond] 1 [1] SDone RDone"
proof -
  let ?w = "\<lambda>s r. example_worker [] [3 * Millisecond] 1 [1] s r"
  let ?s = "\<lambda>s r p. \<lparr>w_list = [?w s r], l_pc = p\<rparr>"
  have 0: "(load_step 0 Second)\<^sup>*\<^sup>* (load_init 1) (?s (SSend 0) RTop LSending)"
    using lift_worker [OF example_exchange] by (simp add: load_init_def)
  have 1: "load_step 0 Second (?s (SSend 0) RTop LSending) (?s (SSend 0) RTop LDraining)"
    using load_step.L_stop [of "?s (SSend 0) RTop LSending"] by simp
  have 2: "load_step 0 Second (?s (SSend 0) RTop LDraining) (?s (SSend 0) RTop LWaiting)"
    using load_step.L_done [of "?s (SSend 0) RTop LDraining"] by simp
  have 3: "load_step 0 Second (?s (SSend 0) RTop LWaiting) (?s STop RTop LWaiting)"
    using load_step.L_worker [of 0 "?s (SSend 0) RTop LWaiting" 0 Second "?w STop RTop"] worker_step.S_end [of "?w (SSend 0) RTop" 0 Second True True]
    by (simp add: example_worker_def)
  have 4: "load_step 0 Second (?s STop RTop LWaiting) (?s SDone RTop LWaiting)"
    using load_step.L_worker [of 0 "?s STop RTop LWaiting" 0 Second "?w SDone RTop"] worker_step.S_stop [of "?w STop RTop" True 0 Second True]
    by (simp add: example_worker_def)
  have 5: "load_step 0 Second (?s SDone RTop LWaiting) (?s SDone RDone LWaiting)"
    using load_step.L_worker [of 0 "?s SDone RTop LWaiting" 0 Second "?w SDone RDone"] worker_step.R_stop [of "?w SDone RTop" True 0 Second True]
    by (simp add: example_worker_def)
  have 6: "load_step 0 Second (?s SDone RDone LWaiting) (?s SDone RDone LReturned)"
    using load_step.L_wait [of "?s SDone RDone LWaiting"] by (simp add: worker_exited_def example_worker_def)
  have w: "(load_step 0 Second)\<^sup>*\<^sup>* (load_init 1) (?s (SSend 0) RTop LWaiting)"
    using 0 1 2 by (meson rtranclp.rtrancl_into_rtrancl)
  then have "(load_step 0 Second)\<^sup>*\<^sup>* (load_init 1) (?s SDone RDone LReturned)"
    using 3 4 5 6 by (meson rtranclp.rtrancl_into_rtrancl)
  with w show ?thesis by (intro exI [of _ "?s (SSend 0) RTop LWaiting"] exI [of _ "?w SDone RDone"]) simp
qed

theorem load_accounting_witness:
  "\<exists>s stats. (load_step 0 Second)\<^sup>*\<^sup>* (load_init 1) s \<and> l_pc s = LReturned
     \<and> stats = run_stats \<lparr>Server = ''192.0.2.1'', Rate = 1, Duration = Second, Workers = 1, Timeout = Second\<rparr> (2 * Second) (w_list s)
     \<and> Sent stats = 1 \<and> Received stats = 1 \<and> P50US stats \<le> MaxUS stats \<and> LossPercent stats \<le> 100"
proof -
  define cfg where "cfg = \<lparr>Server = ''192.0.2.1'', Rate = 1, Duration = Second, Workers = 1, Timeout = Second\<rparr>"
  define s where "s = \<lparr>w_list = [example_worker [] [3 * Millisecond] 1 [1] SDone RDone], l_pc = LReturned\<rparr>"
  have r: "(load_step 0 Second)\<^sup>*\<^sup>* (load_init 1) s" "l_pc s = LReturned" using example_returns by (auto simp: s_def)
  have c: "\<forall>w \<in> set (w_list s). counter w < 2 ^ 48" by (simp add: s_def example_worker_def)
  have st: "Sent (run_stats cfg (2 * Second) (w_list s)) = 1" "Received (run_stats cfg (2 * Second) (w_list s)) = 1"
    by (simp_all add: run_stats_def Let_def s_def example_worker_def)
  from load_accounting [OF _ r c refl, of cfg "2 * Second"] st r show ?thesis unfolding cfg_def by fastforce
qed

text \<open>C33: a run ends. Once the main goroutine has closed both channels, every schedule of the senders and receivers
  is finite and ends with \<open>run\<close> returned, at most eight steps per worker later.\<close>

theorem load_stops:
  assumes "n \<le> 2 ^ 16" "(load_step start every)\<^sup>*\<^sup>* (load_init n) s" "l_pc s = LWaiting"
  shows "(\<forall>k t. (load_step start every ^^ k) s t \<longrightarrow> k \<le> 8 * n + 1)
    \<and> (\<forall>t. (load_step start every)\<^sup>*\<^sup>* s t \<and> (\<nexists>u. load_step start every t u) \<longrightarrow> l_pc t = LReturned)"
proof -
  have inv: "load_inv n s" by (rule load_run.inv_steps [OF assms(2) load_inv_init [OF assms(1)]])
  have stop: "load_stopping s" using assms(3) by (simp add: load_stopping_def)
  have "worker_work w \<le> 8" for w by (cases "s_pc w"; cases "r_pc w") (simp_all add: worker_work_def)
  then have "(\<Sum>w \<leftarrow> w_list s. worker_work w) \<le> length (w_list s) * 8"
    using sum_list_mono [of "w_list s" worker_work "\<lambda>_. 8"] by (simp add: sum_list_triv)
  then have "load_work s \<le> 8 * n + 1" using inv by (simp add: load_work_def load_inv_def)
  then have "k \<le> 8 * n + 1" if "(load_step start every ^^ k) s t" for k t
    using load_run.run_bounded [OF inv stop that] by simp
  then show ?thesis using load_run.stuck_finished [OF inv stop] by blast
qed

theorem load_stops_witness:
  "\<exists>s. (load_step 0 Second)\<^sup>*\<^sup>* (load_init 1) s \<and> l_pc s = LWaiting
     \<and> (\<forall>t. (load_step 0 Second)\<^sup>*\<^sup>* s t \<and> (\<nexists>u. load_step 0 Second t u) \<longrightarrow> l_pc t = LReturned)"
proof -
  obtain s where s: "(load_step 0 Second)\<^sup>*\<^sup>* (load_init 1) s" "l_pc s = LWaiting" using example_returns by blast
  with load_stops [OF _ s] show ?thesis by (intro exI [of _ s]) simp
qed

text \<open>C34: pacing. A sender never runs ahead of its schedule and never bursts: a batch has between 1 and 64 packets,
  and each of them is due, at \<open>start + index * interval\<close>, when the batch starts.\<close>

theorem pacing:
  assumes "0 < every" "int n * every < 2 ^ 63" "now - start < 2 ^ 63 - 1" "n < 2 ^ 63" "send_plan start every n now = Batch k"
  shows "1 \<le> k \<and> k \<le> 64 \<and> (\<forall>j < k. start + int (n + j) * every \<le> now)"
proof -
  let ?due = "start + int n * every"
  have pos: "0 \<le> int n * every" using assms(1) by simp
  then have i: "int64 (int n) = int n" "int64 (int64 (int n) * every) = int n * every"
    using assms(2,4) by (simp_all add: int64_id)
  then have due: "?due \<le> now" using assms(5) by (auto simp: send_plan_def Let_def split: if_splits)
  show ?thesis
  proof (cases "every < batchSleepFloor")
    case False
    then have "k = 1" using assms(5) due i by (simp add: send_plan_def Let_def)
    then show ?thesis using due by simp
  next
    case True
    have b: "time_Sub now ?due = now - ?due" using due pos assms(3) by (simp add: time_Sub_exact)
    let ?q = "(now - ?due) div every"
    have qe: "?q * every \<le> now - ?due" using assms(1) by (simp add: minus_mod_eq_div_mult [symmetric])
    have q: "0 \<le> ?q" using due assms(1) by (simp add: pos_imp_zdiv_nonneg_iff)
    moreover have "?q \<le> now - ?due" using mult_left_mono [of 1 every ?q] q qe assms(1) by simp
    ultimately have "int64 (?q + 1) = ?q + 1" using assms(3) pos by (intro int64_id) auto
    then have "k = nat (if ?q + 1 > 64 then 64 else ?q + 1)"
      using assms(1,5) True due i b by (simp add: send_plan_def Let_def go_div_nonneg maxBatch_def cong: if_cong)
    then have k: "k = nat (min 64 (?q + 1))" by (auto simp: min_def)
    have "start + int (n + j) * every \<le> now" if "j < k" for j
    proof -
      have "int j \<le> ?q" using that k q by simp
      then have "int j * every \<le> ?q * every" using assms(1) by simp
      also note qe
      finally show ?thesis by (simp add: algebra_simps)
    qed
    moreover have "1 \<le> k" "k \<le> 64" using k q by (auto simp: min_def)
    ultimately show ?thesis by blast
  qed
qed

theorem pacing_witness: "send_plan 0 1000 5 9000 = Batch 5 \<and> 0 + int (5 + 4) * 1000 \<le> 9000"
proof -
  have p: "send_plan 0 1000 5 9000 = Batch 5"
    by (simp add: send_plan_def Let_def int64_def batchSleepFloor_def Microsecond_def time_Sub_def go_div_def maxBatch_def)
  have "\<forall>j < 5. 0 + int (5 + j) * 1000 \<le> 9000" using pacing [OF _ _ _ _ p] by simp
  then have "0 + int (5 + 4) * 1000 \<le> 9000" by (elim allE impE) (rule lessI [of 4, folded eval_nat_numeral], assumption)
  with p show ?thesis ..
qed

text \<open>C35: the setup of a run is all or nothing. With a rate, an address and a capacity that pass their checks, \<open>run\<close>
  either has one connection per worker and has closed none, or reports the first worker whose dial
  failed and has closed exactly the connections dialled before it.\<close>

theorem run_setup_outcome:
  assumes "0 < Rate cfg" "resolveServer (Server cfg) = Some server" "resolves server"
    "n = nat (max 1 (Workers cfg))" "perWorkerCap conv (Rate cfg) (Duration cfg) (int n) \<in> {0..maxCap}"
  shows "run_setup conv maxCap resolves dial cfg =
    (case find (\<lambda>i. dial i = None) [0..<n] of
       None \<Rightarrow> (Inr (map (the \<circ> dial) [0..<n]), [])
     | Some i \<Rightarrow> (Inl (DialError i), map (the \<circ> dial) [0..<i]))"
proof -
  have "(if Workers cfg < 1 then 1 else Workers cfg) = int n" using assms(4) by simp
  then show ?thesis
    using assms(1-3,5) dial_loop_outcome [of dial n "[]"] by (simp add: run_setup_def Let_def cong: option.case_cong)
qed

theorem run_setup_outcome_witness:
  "run_setup (\<lambda>_. 0) (2 ^ 44) (\<lambda>_. True) (\<lambda>i. if i < 2 then Some i else None)
     \<lparr>Server = ''192.0.2.1'', Rate = 1, Duration = Second, Workers = 3, Timeout = Second\<rparr> = (Inl (DialError 2), [0, 1])"
proof -
  let ?cfg = "\<lparr>Server = ''192.0.2.1'', Rate = 1, Duration = Second, Workers = 3, Timeout = Second\<rparr>"
  let ?dial = "\<lambda>i :: nat. if i < 2 then Some i else None"
  have "resolveServer ''192.0.2.1'' = Some ''192.0.2.1:123''" by code_simp
  moreover have "perWorkerCap (\<lambda>_. 0) 1 Second 3 = 1365" by code_simp
  ultimately show ?thesis
    using run_setup_outcome [of ?cfg "''192.0.2.1:123''" "\<lambda>_. True" 3 "\<lambda>_. 0" "2 ^ 44" ?dial] by (simp add: upt_rec)
qed

end
