(* ===== verification/Spec2Isabelle.thy ===== *)
theory Spec2Isabelle
  imports NtpFrame Clients ProcessRuns NtpLoad
begin

text \<open>
  A verification library for the NTP server's traffic exporter (\<open>exporter/\<close>) and its load generator
  (\<open>scripts/ntp-load\<close>), both written in Go.

  \<^bold>\<open>The program.\<close> The exporter watches the server's NTP traffic on raw sockets. A kernel filter
  (\<open>ntpframe\<close>) selects frames with an NTP port; each capture worker (\<open>capture\<close>) reads its socket, parses
  the frames, drops those that do not concern a local address, and hands the rest to the collector
  (\<open>aggregate\<close>), which looks the client up (\<open>geoip\<close>), counts it per worker, pairs requests with
  responses, and keeps the tables of active clients and the hourly sketches of distinct addresses
  (\<open>hll\<close>). A flush loop publishes the counters (\<open>metrics\<close>); a poller publishes the score of the server in the
  pool (\<open>ntppool\<close>); \<open>cmd/exporter\<close> reads the configuration and starts all of it.

  \<^bold>\<open>The theories\<close>, by the source they model under \<open>exporter/internal/\<close> unless said otherwise:
  \<^item> \<open>Prelude\<close>: machine integers, times and durations, Go maps as association lists (locale \<open>go_map\<close>), checked
    indexing of byte slices, decimal printing. \<open>Float64\<close>: float64 arithmetic as exact rounding to 53 bits on
    rationals (finite values; infinities and NaN do not occur or are a separate case). \<open>Sha1\<close>: the hash of
    the sketch. \<open>GoNet\<close>: the part of \<open>net\<close> and \<open>netip\<close> the sources use (printing and parsing of addresses).
  \<^item> \<open>NtpFrame\<close> (\<open>ntpframe/frame.go\<close>): \<open>ParseNTPFrame\<close> returns \<open>None\<close> for a panic; \<open>BuildNTPBPF\<close> is run by an
    interpreter of the classic BPF machine. Parsing is total, inverts the construction of frames, and
    the filter decides a reference predicate and passes what the parser accepts.
  \<^item> \<open>Hll\<close> (\<open>hll/hll.go\<close>): sketches form a semilattice (locale \<open>sketch\<close>): they depend on the set of keys only, and
    merging is union. \<open>Asn\<close> (\<open>aggregate/asn.go\<close>): ranking and pruning, \<open>sort.Slice\<close> under the contract of a
    comparison function (locales \<open>slice_less\<close> and \<open>slice_total\<close>).
  \<^item> \<open>Metrics\<close> (\<open>metrics/metrics.go\<close>): the table of collectors, and the calls on them as \<open>event\<close>s, with the
    conditions under which the client library accepts them.
  \<^item> \<open>Aggregate\<close> (\<open>aggregate/aggregate.go\<close>): the \<open>Collector\<close> and each critical section of \<open>HandleFrame\<close> and
    \<open>Flush\<close> as one definition, composed as in the code; the invariant \<open>Collector_ok\<close>. \<open>Pairing\<close>, \<open>Counting\<close> and
    \<open>Clients\<close> prove what sequences of calls compute: latencies, conservation of counts (locale \<open>published\<close>),
    the active and the daily gauge as refinements of sets of addresses.
  \<^item> \<open>Interleaving\<close>: the handlers as programs of atomic sections, run by any number of goroutines in any
    order, with the conservation and safety results carried over to every reachable state.
  \<^item> \<open>Capture\<close> (\<open>capture/localips.go\<close>, \<open>capture/filter.go\<close>) and \<open>Manager\<close> (\<open>capture/manager.go\<close>): the address cache,
    the loop body, the sockets, the workers' error handling and \<open>Run\<close> as a step relation. \<open>Shutdown\<close> holds
    the locale \<open>stoppable\<close>, the common contract of the systems that end once they are told to stop; it is
    interpreted on the workers, on the capture loop, on the whole process and on the load generator.
  \<^item> \<open>GeoIp\<close> (\<open>geoip/geoip.go\<close>): the resolver over database and cache libraries given as arguments; locale \<open>lru_cache\<close>
    is what it relies on. The cache is transparent for calls one after the other and answers stay at most a
    check interval behind the files; two concurrent calls can break this.
  \<^item> \<open>NtpPool\<close> (\<open>ntppool/ntppool.go\<close>): timestamps, parsing, fetching and publishing of scores, against a
    specification on the decoded document (\<open>older\<close>, \<open>newest_entry\<close>, \<open>reported_name\<close>, \<open>report\<close>, \<open>serves\<close>) that does
    not use the code's own comparisons and maps.
  \<^item> \<open>Exporter\<close> (\<open>exporter/cmd/exporter/main.go\<close>): configuration, adapters, the flush loop and its accounting of kernel
    drops, and how \<open>main\<close> can end. The capture loop is a step relation (\<open>cap_step\<close>) with a step of its own for
    every \<open>Set\<close>, \<open>Store\<close> and \<open>Close\<close> that another goroutine can observe, around the steps of \<open>Run\<close>.
  \<^item> \<open>Jobs\<close>: the way of a frame through a worker as the atomic sections of \<open>ProcessFrame\<close>, \<open>Contains\<close>, \<open>HandleFrame\<close>
    and \<open>Resolve\<close> (\<open>job_next\<close>); run alone they are those functions. \<open>Process\<close>: the goroutines of \<open>main\<close> together
    (\<open>process_step\<close>): the signal, the capture loop with its workers and their frames, the flush loop and the
    poller share the collector, the address cache, the resolver and the metrics. Its invariant contains that
    of the capture loop and, through the view \<open>sys_of\<close>, that of \<open>Interleaving\<close>. \<open>ProcessRuns\<close>: over every run the
    process does not panic, its metric calls are accepted, no request is lost or counted twice, and after the
    signal it winds down within a bound.
  \<^item> \<open>NtpLoad\<close> (\<open>scripts/ntp-load/main.go\<close>): packets, pacing, the goroutines of a run and its statistics.

  This theory holds the results that span components: the cookies of the load generator through the
  parser and back, and an exchange from the wire to the latency histogram.

  \<^bold>\<open>Conventions.\<close> A panic is \<open>None\<close>, an error a value of its own type; metric calls are returned as lists of
  events. Clock readings, interface addresses, socket and file operations, library calls and the order in
  which Go visits a map are arguments, so every theorem holds for all of their outcomes. Go's int64
  counters of frames are unbounded integers (they would need centuries to overflow); where the width
  matters (hashes, sketches' registers, cookies, kernel drop counters, durations, timestamps'
  differences) it is kept. Loops are structural recursions over what they range over; \<open>clear_hours\<close> and the BPF
  interpreter have their termination proved, and the worker loop \<open>RunWorker\<close> runs over the list of what its
  reads return. \<open>RunForever\<close> is a partial function, and proved not to return.

  \<^bold>\<open>Not modelled.\<close> Logging; the HTTP server and the Prometheus client; the bodies of third-party libraries
  (afpacket, maxminddb, the LRU cache, JSON, HTTP), which are arguments; that a socket handle is
  read concurrently with \<open>KernelDrops\<close> (the drop counters a flush reads are arbitrary); the load generator's flags
  and printing; the scripts, the configuration of chrony and Alloy, the dashboards and alerts.
\<close>

section \<open>From the load generator through the capture loop to the collector\<close>

text \<open>The frame with an IPv4 header without options.\<close>

lemma carries_plain:
  assumes "length macs = 12" "length mid = 8" "length check = 2" "length src = 4" "length dst = 4"
    "sport < 65536" "dport < 65536" "length lencheck = 4" "dport = 123 \<or> sport = 123"
  shows "carries (ethernet macs EthertypeIPv4
      (ipv4_header 0x45 mid check src dst [] @ udp_datagram sport dport lencheck payload)) ''ipv4'' src dst sport dport payload"
  using assms by (intro carries_ipv4) simp_all

text \<open>The label and the transaction id of a packet of the load generator.\<close>

lemma version_label_ntpPacket: "version_label (hd (ntpPacket k)) = ''4''"
proof -
  have "version_label 0x23 = ''4''" by code_simp
  then show ?thesis by (simp add: ntpPacket_shape)
qed

text \<open>C26: cookies survive the wire. A packet of the load generator, sent to a server in an IPv4 frame, is parsed as
  a version 4 request of the client with the cookie as its transaction id; the answer of a server that
  echoes the transmit timestamp as the origin timestamp is parsed as a response to the same client
  with the same transaction id, and the generator reads its cookie back from it.\<close>

theorem cookie_roundtrip:
  assumes "length macs = 12" "length mid = 8" "length check = 2" "length client = 4" "length server = 4"
    "sport < 65536" "sport \<noteq> 123" "length lencheck = 4"
    and "48 \<le> length answer" "take 8 (drop 24 answer) = take 8 (drop 40 (ntpPacket k))"
    and "request = ethernet macs EthertypeIPv4
      (ipv4_header 0x45 mid check client server [] @ udp_datagram sport 123 lencheck (ntpPacket k))"
    and "reply = ethernet macs EthertypeIPv4
      (ipv4_header 0x45 mid check server client [] @ udp_datagram 123 sport lencheck answer)"
  shows "\<exists>p q. ParseNTPFrame request = Some (p, True) \<and> ParseNTPFrame reply = Some (q, True)
    \<and> Direction p = ''request'' \<and> Direction q = ''response'' \<and> Version p = ''4''
    \<and> IP p = To16 client \<and> IP q = IP p \<and> XID q = XID p
    \<and> map_option Uint64 (XID p) = Some k \<and> reply_cookie answer = k"
proof -
  have "carries request ''ipv4'' client server sport 123 (ntpPacket k)" "carries reply ''ipv4'' server client 123 sport answer"
    unfolding assms(11,12) by (rule carries_plain; use assms in simp)+
  then have "ParseNTPFrame request = Some (ntp_packet ''ipv4'' client server sport 123 (ntpPacket k), True)"
    "ParseNTPFrame reply = Some (ntp_packet ''ipv4'' server client 123 sport answer, True)"
    by (simp_all add: carries_def)
  then show ?thesis
    using assms(7,9,10)
    by (simp add: ntp_packet_def Let_def ntpPacket_shape(1,3) version_label_ntpPacket reply_cookie_def Uint64_PutUint64)
qed

definition example_answer :: "u64 \<Rightarrow> bytes" where
  "example_answer k = 0x24 # replicate 23 0 @ PutUint64 k @ replicate 16 0"

lemma example_answer_echo: "length (example_answer k) = 48" "take 8 (drop 24 (example_answer k)) = take 8 (drop 40 (ntpPacket k))"
  by (simp_all add: example_answer_def ntpPacket_shape drop_Cons')

theorem cookie_roundtrip_witness:
  "\<exists>p q. ParseNTPFrame (example_frame [203, 0, 113, 5] [198, 51, 100, 1] 41234 123 (ntpPacket 7)) = Some (p, True)
     \<and> ParseNTPFrame (example_frame [198, 51, 100, 1] [203, 0, 113, 5] 123 41234 (example_answer 7)) = Some (q, True)
     \<and> XID q = XID p \<and> map_option Uint64 (XID p) = Some 7 \<and> reply_cookie (example_answer 7) = 7"
proof -
  have a: "48 \<le> length (example_answer 7)" by (simp add: example_answer_echo)
  have l: "length (replicate 12 (0 :: byte)) = 12" "length (replicate 8 (0 :: byte)) = 8" "length [0 :: byte, 0] = 2"
    "length [203 :: byte, 0, 113, 5] = 4" "length [198 :: byte, 51, 100, 1] = 4" "(41234 :: nat) < 65536" "41234 \<noteq> (123 :: nat)"
    "length [0 :: byte, 56, 0, 0] = 4"
    by simp_all
  from cookie_roundtrip [OF l a example_answer_echo(2) refl refl] show ?thesis unfolding example_frame_def by blast
qed

text \<open>C7: end to end. The capture workers see a request of a client to a local address in one frame and the echoing
  answer in another, on any two sockets; between them any calls of the collector that belong to other
  exchanges. None of it panics, and the answer makes exactly one latency observation: the time between
  the two frames.\<close>

theorem end_to_end_latency:
  assumes "Collector_ok c" "wi < length (workers c)" "wj < length (workers c)"
    "length (pending (shards c ! shardIndex (IP_String client))) < PendingMax"
    and "carries request family client us sport 123 (ntpPacket k)" "carries reply family us client 123 sport answer" "sport \<noteq> 123"
    "48 \<le> length answer" "take 8 (drop 24 answer) = take 8 (drop 40 (ntpPacket k))"
    and "IP_String us \<in> set (ip_set l)" "current rd l" "current rd' l"
    and "\<forall>op \<in> set ops. op_ok (length (workers c)) op \<and> spares (IP_String client) (PutUint64 k) ts1 op"
    and "ts1 \<le> ts2" "ts2 \<le> ts1 + PendingTTL"
  shows "\<exists>c1 ev1 c2 d2 ev c3 ev3. ProcessFrame rd R now wall wi request ts1 (c, l) = Some ((c1, l), ev1)
    \<and> run ops (c1, d) = Some ((c2, d2), ev)
    \<and> ProcessFrame rd' R' now' wall' wj reply ts2 (c2, l) = Some ((c3, l), ev3)
    \<and> observations NtpResponseLatencySeconds ev3 = [dur_Seconds (ts2 - ts1)]
    \<and> abs_pending c3 (IP_String client) (PutUint64 k) = None"
proof -
  let ?ip = "IP_String client"
  have bar: "CHR ''|'' \<notin> set ?ip" using assms(5) IP_String_no_bar [of client] by (simp add: carries_def)
  obtain c1 ev1 where 1: "HandleFrame R now wall wi ''request'' ?ip family ''4'' (Some (PutUint64 k)) ts1 c = Some (c1, ev1)"
    using HandleFrame_keeps [OF assms(1,2)] by fast
  note ok1 = HandleFrame_next [OF assms(1,2) 1]
  have p1: "abs_pending c1 ?ip (PutUint64 k) = Some ts1"
    using abs_request(1) [OF assms(1,2) bar bar 1, of "PutUint64 k"] no_overflow [OF assms(1,2,4) 1] by simp
  obtain c2 d2 ev where 2: "run ops (c1, d) = Some ((c2, d2), ev)"
    using run_keeps [of "(c1, d)" ops] ok1 assms(13) by auto
  have ok2: "Collector_ok c2" "length (workers c2) = length (workers c)"
    using run_next [of "(c1, d)" ops "(c2, d2)" ev] 2 ok1 assms(13) by auto
  have p2: "abs_pending c2 ?ip (PutUint64 k) = Some ts1"
    using run_spares [of "(c1, d)" ?ip "PutUint64 k" ts1 ops "(c2, d2)" ev] p1 2 ok1 bar assms(13) by simp
  have wj: "wj < length (workers c2)" using ok2 assms(3) by simp
  obtain c3 ev3 where 3: "HandleFrame R' now' wall' wj ''response'' ?ip family (version_label (hd answer)) (Some (PutUint64 k)) ts2 c2 = Some (c3, ev3)"
    using HandleFrame_keeps [OF ok2(1) wj] by fast
  have "abs_pending (maybe_sweep ts2 c2) ?ip (PutUint64 k) = Some ts1"
    using abs_maybe_sweep(1) [OF ok2(1) p2] assms(15) by simp
  moreover have "time_Sub ts2 ts1 = ts2 - ts1" using assms(14,15) by (intro time_Sub_exact) (simp add: PendingTTL_def Second_def)
  ultimately have "observations NtpResponseLatencySeconds ev3 = [dur_Seconds (ts2 - ts1)]" "abs_pending c3 ?ip (PutUint64 k) = None"
    using abs_response(1) [OF ok2(1) wj bar bar _ 3, of "PutUint64 k"] abs_response(3) [OF ok2(1) wj bar bar _ 3] assms(14)
    by simp_all
  moreover have "ProcessFrame rd R now wall wi request ts1 (c, l) = Some ((c1, l), ev1)"
    using ProcessFrame_carries [OF assms(5,11)] assms(10) 1 by (simp add: ntpPacket_shape(1,3) version_label_ntpPacket)
  moreover have "ProcessFrame rd' R' now' wall' wj reply ts2 (c2, l) = Some ((c3, l), ev3)"
    using ProcessFrame_carries [OF assms(6,12)] assms(7-10) 3 by (simp add: ntpPacket_shape(1,3))
  ultimately show ?thesis using 2 by blast
qed

theorem end_to_end_latency_witness:
  "\<exists>c c1 ev1 c2 d2 ev c3 ev3. Collector_New 20 2 = Some c
     \<and> ProcessFrame (None, 0, 0) geo0 0 0 0 (example_frame [203, 0, 113, 5] [198, 51, 100, 1] 41234 123 (ntpPacket 7)) 1000
         (c, example_local) = Some ((c1, example_local), ev1)
     \<and> run [Flushing (\<lambda>x. x - 1) 0 5000 0 None] (c1, None) = Some ((c2, d2), ev)
     \<and> ProcessFrame (None, 0, 0) geo0 0 0 1 (example_frame [198, 51, 100, 1] [203, 0, 113, 5] 123 41234 (example_answer 7)) 1500
         (c2, example_local) = Some ((c3, example_local), ev3)
     \<and> observations NtpResponseLatencySeconds ev3 = [dur_Seconds 500]"
proof -
  obtain c where c: "Collector_New 20 2 = Some c" "Collector_ok c" "length (workers c) = 2"
    "shards c = replicate 16 \<lparr>pending = [], active = []\<rparr>"
    using fresh_collector [of 20 2] by auto
  let ?cl = "[203, 0, 113, 5]" and ?us = "[198, 51, 100, 1]"
  have room: "length (pending (shards c ! shardIndex (IP_String ?cl))) < PendingMax"
    using c(4) shardIndex_less [of "IP_String ?cl"] by (simp add: NumShards_def PendingMax_def)
  have f: "carries (example_frame ?cl ?us 41234 123 (ntpPacket 7)) ''ipv4'' ?cl ?us 41234 123 (ntpPacket 7)"
    "carries (example_frame ?us ?cl 123 41234 (example_answer 7)) ''ipv4'' ?us ?cl 123 41234 (example_answer 7)"
    by (rule example_carries; simp)+
  have w: "0 < length (workers c)" "1 < length (workers c)" using c(3) by simp_all
  have a: "48 \<le> length (example_answer 7)" by (simp add: example_answer_echo)
  have us: "IP_String ?us \<in> set (ip_set example_local)" by (simp add: example_local_set)
  have "\<exists>c1 ev1 c2 d2 ev c3 ev3. ProcessFrame (None, 0, 0) geo0 0 0 0 (example_frame ?cl ?us 41234 123 (ntpPacket 7)) 1000
         (c, example_local) = Some ((c1, example_local), ev1)
     \<and> run [Flushing (\<lambda>x. x - 1) 0 5000 0 None] (c1, None) = Some ((c2, d2), ev)
     \<and> ProcessFrame (None, 0, 0) geo0 0 0 1 (example_frame ?us ?cl 123 41234 (example_answer 7)) 1500
         (c2, example_local) = Some ((c3, example_local), ev3)
     \<and> observations NtpResponseLatencySeconds ev3 = [dur_Seconds (1500 - 1000)]
     \<and> abs_pending c3 (IP_String ?cl) (PutUint64 7) = None"
    by (rule end_to_end_latency [OF c(2) w room f _ a example_answer_echo(2) us example_current example_current])
      (simp_all add: PendingTTL_def Second_def)
  with c(1) show ?thesis by (simp del: run.simps) blast
qed

end
